(* ===== verification/Prelude.thy ===== *)
theory Prelude
  imports Main "HOL-Library.Word"
begin

unbundle bit_operations_syntax

text \<open>
  Shared vocabulary of the development: the machine integer types of the Rust sources, the
  \<open>Result\<close> type as a sum with its sequencing operator, big-endian byte strings, and the
  generic lemmas on lists that the component theories use. The collections \<open>result_simps\<close>
  (sequencing of fallible steps) and \<open>bytes_simps\<close> (lengths and values of byte strings) are
  declared here and extended by the components.
\<close>

named_theorems result_simps \<open>sequencing of fallible operations\<close>
named_theorems bytes_simps \<open>lengths and values of byte strings\<close>

section \<open>Machine integers\<close>

type_synonym u8 = "8 word"
type_synonym u16 = "16 word"
type_synonym u32 = "32 word"
type_synonym u64 = "64 word"
type_synonym bytes = "u8 list"

section \<open>Results\<close>

text \<open>
  Rust's \<open>Result<T, E>\<close> is \<open>'e + 'a\<close>: \<open>Inl\<close> is \<open>Err\<close>, \<open>Inr\<close> is \<open>Ok\<close>.
  \<open>rbind\<close> is the \<open>?\<close> operator, \<open>ok_or\<close> and \<open>map_err\<close> are the methods of these names.
\<close>

fun rbind :: "'e + 'a \<Rightarrow> ('a \<Rightarrow> 'e + 'b) \<Rightarrow> 'e + 'b" where
  "rbind (Inl e) f = Inl e"
| "rbind (Inr a) f = f a"

fun ok_or :: "'e \<Rightarrow> 'a option \<Rightarrow> 'e + 'a" where
  "ok_or e None = Inl e"
| "ok_or e (Some a) = Inr a"

fun map_err :: "('e \<Rightarrow> 'f) \<Rightarrow> 'e + 'a \<Rightarrow> 'f + 'a" where
  "map_err g (Inl e) = Inl (g e)"
| "map_err g (Inr a) = Inr a"

fun ok :: "'e + 'a \<Rightarrow> 'a option" where
  "ok (Inl e) = None"
| "ok (Inr a) = Some a"

definition is_ok :: "'e + 'a \<Rightarrow> bool" where
  "is_ok r \<longleftrightarrow> (case r of Inl _ \<Rightarrow> False | Inr _ \<Rightarrow> True)"

lemma is_ok_simps [simp]: "is_ok (Inl e) = False" "is_ok (Inr a) = True"
  by (simp_all add: is_ok_def)

lemma rbind_Inr_iff [result_simps]:
  "rbind r f = Inr b \<longleftrightarrow> (\<exists>a. r = Inr a \<and> f a = Inr b)"
  by (cases r) auto

lemma rbind_Inl_iff [result_simps]:
  "rbind r f = Inl e \<longleftrightarrow> r = Inl e \<or> (\<exists>a. r = Inr a \<and> f a = Inl e)"
  by (cases r) auto

lemma ok_or_Inr_iff [result_simps]: "ok_or e x = Inr a \<longleftrightarrow> x = Some a"
  by (cases x) auto

lemma ok_or_Inl_iff [result_simps]: "ok_or e x = Inl e' \<longleftrightarrow> x = None \<and> e' = e"
  by (cases x) auto

lemma map_err_Inr_iff [result_simps]: "map_err g r = Inr a \<longleftrightarrow> r = Inr a"
  by (cases r) auto

lemma map_err_Inl_iff [result_simps]: "map_err g r = Inl e \<longleftrightarrow> (\<exists>e'. r = Inl e' \<and> e = g e')"
  by (cases r) auto

lemma ok_Some_iff [result_simps]: "ok r = Some a \<longleftrightarrow> r = Inr a"
  by (cases r) auto

lemma ok_None_iff [result_simps]: "ok r = None \<longleftrightarrow> (\<exists>e. r = Inl e)"
  by (cases r) auto

lemma rbind_cong [fundef_cong]:
  assumes "r = r'" and "\<And>a. r' = Inr a \<Longrightarrow> f a = g a"
  shows "rbind r f = rbind r' g"
  using assms by (cases r') auto

section \<open>Searching a list\<close>

text \<open>\<open>Iterator::find_map\<close>: the first value the function gives.\<close>

fun find_map :: "('a \<Rightarrow> 'b option) \<Rightarrow> 'a list \<Rightarrow> 'b option" where
  "find_map f [] = None"
| "find_map f (x # xs) = (case f x of Some y \<Rightarrow> Some y | None \<Rightarrow> find_map f xs)"

lemma find_map_None_iff: "find_map f xs = None \<longleftrightarrow> (\<forall>x \<in> set xs. f x = None)"
  by (induction xs) (auto split: option.splits)

lemma find_map_SomeD: "find_map f xs = Some y \<Longrightarrow> \<exists>x \<in> set xs. f x = Some y"
  by (induction xs) (auto split: option.splits)

lemma find_map_append:
  "find_map f (xs @ ys) = (case find_map f xs of Some y \<Rightarrow> Some y | None \<Rightarrow> find_map f ys)"
  by (induction xs) (auto split: option.splits)

lemma find_SomeD: "find P xs = Some x \<Longrightarrow> x \<in> set xs \<and> P x"
  by (auto simp: find_Some_iff)

section \<open>Channels\<close>

text \<open>
  An unbounded \<open>mpsc\<close> sender: what has been queued so far, and how many more sends succeed before
  the receiver is dropped (\<open>None\<close>: the receiver outlives every send). After the drop every send
  fails and hands the value back.
\<close>

record 'a sender =
  queued :: "'a list"
  open_for :: "nat option"

definition chan_send :: "'a sender \<Rightarrow> 'a \<Rightarrow> 'a sender option" where
  "chan_send c x =
     (if open_for c = Some 0 then None
      else Some (c\<lparr>queued := queued c @ [x], open_for := map_option (\<lambda>n. n - 1) (open_for c)\<rparr>))"

definition open_sender :: "'a list \<Rightarrow> 'a sender" where
  "open_sender xs = \<lparr>queued = xs, open_for = None\<rparr>"

lemma chan_send_open [simp]: "chan_send (open_sender xs) x = Some (open_sender (xs @ [x]))"
  by (simp add: chan_send_def open_sender_def)

lemma queued_open_sender [simp]: "queued (open_sender xs) = xs"
  by (simp add: open_sender_def)

lemma chan_send_SomeD: "chan_send c x = Some c' \<Longrightarrow> queued c' = queued c @ [x]"
  by (auto simp: chan_send_def split: if_splits)

section \<open>Big-endian byte strings\<close>

text \<open>
  \<open>be_bytes n w\<close> is \<open>to_be_bytes\<close> of an unsigned integer of \<open>n\<close> bytes; \<open>be_val\<close> is the
  number a byte string denotes, and \<open>from_be_bytes\<close> its word.
\<close>

definition be_bytes :: "nat \<Rightarrow> 'a::len word \<Rightarrow> bytes" where
  "be_bytes n w = map (\<lambda>i. ucast (drop_bit (8 * i) w)) (rev [0..<n])"

definition be_val :: "bytes \<Rightarrow> nat" where
  "be_val bs = foldl (\<lambda>a b. a * 256 + unat b) 0 bs"

definition from_be_bytes :: "bytes \<Rightarrow> 'a::len word" where
  "from_be_bytes bs = of_nat (be_val bs)"

lemma be_bytes_0 [bytes_simps]: "be_bytes 0 w = []"
  by (simp add: be_bytes_def)

lemma be_bytes_Suc [bytes_simps]:
  "be_bytes (Suc n) w = ucast (drop_bit (8 * n) w) # be_bytes n w"
  by (simp add: be_bytes_def)

lemma length_be_bytes [simp]: "length (be_bytes n w) = n"
  by (simp add: be_bytes_def)

lemma foldl_be_val:
  "foldl (\<lambda>a b. a * 256 + unat b) a (bs :: bytes) = a * 256 ^ length bs + be_val bs"
proof (induction bs arbitrary: a)
  case Nil
  then show ?case by (simp add: be_val_def)
next
  case (Cons b bs)
  have "be_val (b # bs) = unat b * 256 ^ length bs + be_val bs"
    using Cons.IH [of "unat b"] by (simp add: be_val_def)
  with Cons.IH [of "a * 256 + unat b"] show ?case
    by (simp add: algebra_simps)
qed

lemma be_val_Nil [simp]: "be_val [] = 0"
  by (simp add: be_val_def)

lemma be_val_Cons [simp]: "be_val (b # bs) = unat b * 256 ^ length bs + be_val bs"
  using foldl_be_val [of "unat b" bs] by (simp add: be_val_def)

lemma be_val_append: "be_val (xs @ ys) = be_val xs * 256 ^ length ys + be_val ys"
  by (induction xs) (simp_all add: algebra_simps power_add)

lemma unat_byte_less: "unat (b :: u8) < 256"
  using unsigned_less [of b, where ?'a = nat] by simp

lemma be_val_less: "be_val bs < 256 ^ length bs"
proof (induction bs)
  case Nil
  then show ?case by simp
next
  case (Cons b bs)
  have "unat b \<le> 255"
    using unat_byte_less [of b] by simp
  then have "unat b * 256 ^ length bs \<le> 255 * 256 ^ length bs"
    by (rule mult_right_mono) simp
  with Cons have "be_val (b # bs) < 255 * 256 ^ length bs + 256 ^ length bs"
    by (simp only: be_val_Cons add_le_less_mono)
  then show ?case by simp
qed

lemma unat_ucast_byte: "unat (ucast (w :: 'a::len word) :: u8) = unat w mod 256"
  by (simp add: unsigned_ucast_eq take_bit_eq_mod)

lemma be_val_be_bytes: "be_val (be_bytes n (w :: 'a::len word)) = unat w mod 256 ^ n"
proof (induction n)
  case 0
  then show ?case by (simp add: bytes_simps)
next
  case (Suc n)
  have pow: "(2::nat) ^ (8 * n) = 256 ^ n"
    by (simp add: power_mult)
  have "unat (ucast (drop_bit (8 * n) w) :: u8) = (unat w div 256 ^ n) mod 256"
    by (simp only: unat_ucast_byte unat_drop_bit_eq) (simp only: drop_bit_eq_div pow)
  moreover have "unat w mod 256 ^ Suc n = 256 ^ n * (unat w div 256 ^ n mod 256) + unat w mod 256 ^ n"
    using mod_mult2_eq [of "unat w" "256 ^ n" 256] by (simp add: mult.commute)
  ultimately show ?case
    using Suc by (simp add: be_bytes_Suc mult.commute)
qed

lemma from_be_bytes_be_bytes:
  "LENGTH('a) = 8 * n \<Longrightarrow> from_be_bytes (be_bytes n (w :: 'a::len word)) = w"
  using unsigned_less [of w, where ?'a = nat]
  by (simp add: from_be_bytes_def be_val_be_bytes power_mult)

lemma be_bytes_from_be_bytes:
  assumes "LENGTH('a) = 8 * n" and "length bs = n"
  shows "be_bytes n (from_be_bytes bs :: 'a::len word) = bs"
proof -
  have v: "be_val bs < 2 ^ LENGTH('a)"
    using be_val_less [of bs] assms by (simp add: power_mult)
  have inj: "length xs = length ys \<Longrightarrow> be_val xs = be_val ys \<Longrightarrow> xs = ys" for xs ys :: bytes
  proof (induction xs ys rule: list_induct2)
    case (Cons x xs y ys)
    have "be_val xs < 256 ^ length xs" "be_val ys < 256 ^ length xs"
      using be_val_less [of xs] be_val_less [of ys] Cons.hyps by simp_all
    moreover have "(256 ^ length xs * unat x + be_val xs) div 256 ^ length xs
        = (256 ^ length xs * unat y + be_val ys) div 256 ^ length xs"
      using Cons.prems Cons.hyps by (simp add: mult.commute)
    ultimately have "unat x = unat y" by simp
    then have "x = y" by (simp only: word_unat_eq_iff)
    with Cons show ?case by simp
  qed simp
  have "be_val (be_bytes n (from_be_bytes bs :: 'a word)) = be_val bs"
    using v be_val_less [of bs] assms(2)
    by (simp add: be_val_be_bytes from_be_bytes_def unsigned_of_nat take_bit_eq_mod)
  then show ?thesis
    using assms(2) by (intro inj) simp_all
qed

section \<open>Disjoint bit fields\<close>

text \<open>
  Where a value lies below bit \<open>n\<close>, setting a tag above it with \<open>|\<close> adds the tag, which is how
  the variable-length integer codecs pack their length tag.
\<close>

lemma or_push_bit:
  assumes "unat (w :: 'a::len word) < 2 ^ n"
  shows "w OR push_bit n c = w + push_bit n c"
proof -
  have "unat (take_bit n w) = unat w"
    using assms by (simp add: unsigned_take_bit_eq take_bit_nat_eq_self_iff)
  then have w: "take_bit n w = w"
    by (simp only: word_unat_eq_iff)
  have "\<not> bit w k \<or> \<not> bit (push_bit n c) k" for k
    by (subst w [symmetric]) (auto simp: bit_take_bit_iff bit_push_bit_iff)
  then show ?thesis
    by (rule disjunctive_add [symmetric])
qed

lemma unat_or_push_bit:
  assumes "unat (w :: 'a::len word) < 2 ^ n" and "unat w + unat c * 2 ^ n < 2 ^ LENGTH('a)"
  shows "unat (w OR push_bit n c) = unat w + unat c * 2 ^ n"
proof -
  have "unat (push_bit n c) = unat c * 2 ^ n"
    using assms(2)
    by (simp only: unsigned_push_bit_eq) (simp only: push_bit_eq_mult take_bit_eq_mod, simp)
  with assms show ?thesis
    by (simp add: or_push_bit unat_word_ariths)
qed

lemma unat_ucast_byte_64: "unat (ucast (b :: u8) :: u64) = unat b"
  using unat_byte_less [of b] by (simp add: unsigned_ucast_eq take_bit_eq_mod)

lemma unat_shift_or:
  assumes "unat v < 2 ^ 56"
  shows "unat (push_bit 8 v OR ucast (b :: u8) :: u64) = unat v * 256 + unat b"
  using assms unat_byte_less [of b] unat_or_push_bit [of "ucast b :: u64" 8 v]
  by (simp add: or.commute unat_ucast_byte_64)

text \<open>The loop \<open>v = (v << 8) | b\<close> over a byte string computes its big-endian value.\<close>

lemma unat_foldl_shift_or:
  assumes "unat v * 256 ^ length bs + be_val bs < 2 ^ 64"
  shows "unat (foldl (\<lambda>v b. push_bit 8 v OR ucast b) (v :: u64) bs)
         = unat v * 256 ^ length bs + be_val bs"
  using assms
proof (induction bs arbitrary: v)
  case Nil
  then show ?case by simp
next
  case (Cons b bs)
  have "unat v * 256 \<le> unat v * 256 ^ length (b # bs)"
    by simp
  also have "\<dots> < 2 ^ 64"
    using Cons.prems by (rule le_less_trans [OF le_add1])
  finally have "unat v < 2 ^ 56" by simp
  then have step: "unat (push_bit 8 v OR ucast b) = unat v * 256 + unat b"
    by (rule unat_shift_or)
  then show ?case
    using Cons.prems by (simp add: Cons.IH step algebra_simps)
qed

end
