(* ===== verification/Codec.thy ===== *)
theory Codec
  imports Prelude
begin

text \<open>
  The interface between the variable-length integer codecs and the framings built on them. The
  program has two independent implementations of the QUIC varint (RFC 9000 section 16): the helpers
  of \<open>crates/warp-masque/src/tunnel.rs\<close> and \<open>VarInt\<close> of \<open>vendor/h3/src/proto/varint.rs\<close>.
  The locale states what a framing relies on; both implementations interpret it, and the capsule,
  datagram and HTTP/3 frame theories use the lemmas proved here once.
\<close>

locale varint_codec =
  fixes enc :: "u64 \<Rightarrow> bytes"
    and dec :: "bytes \<Rightarrow> (u64 \<times> bytes) option"
  assumes dec_enc: "v < 2 ^ 62 \<Longrightarrow> dec (enc v @ rest) = Some (v, rest)"
    and dec_append: "dec buf = Some (v, rest) \<Longrightarrow> dec (buf @ tail) = Some (v, rest @ tail)"
    and dec_consumes: "dec buf = Some (v, rest) \<Longrightarrow>
      \<exists>pre. buf = pre @ rest \<and> length pre \<in> {1, 2, 4, 8}"
    and dec_bound: "dec buf = Some (v, rest) \<Longrightarrow> v < 2 ^ 62"
begin

lemma dec_enc_Nil: "v < 2 ^ 62 \<Longrightarrow> dec (enc v) = Some (v, [])"
  using dec_enc [of v "[]"] by simp

lemma enc_prefix_free:
  assumes "v < 2 ^ 62" and "w < 2 ^ 62" and "enc v @ xs = enc w @ ys"
  shows "v = w \<and> xs = ys"
proof -
  have "Some (v, xs) = Some (w, ys)"
    unfolding dec_enc [OF assms(1), of xs, symmetric] dec_enc [OF assms(2), of ys, symmetric]
    by (simp only: assms(3))
  then show ?thesis by simp
qed

lemma enc_inject: "v < 2 ^ 62 \<Longrightarrow> w < 2 ^ 62 \<Longrightarrow> enc v = enc w \<longleftrightarrow> v = w"
  using enc_prefix_free [of v w "[]" "[]"] by auto

lemma dec_length:
  "dec buf = Some (v, rest) \<Longrightarrow> length rest < length buf \<and> length buf \<le> length rest + 8"
  using dec_consumes by fastforce

lemma dec_length_sum:
  assumes "dec buf = Some (v, rest)"
  shows "length rest + (length buf - length rest) = length buf"
  using dec_length [OF assms] by simp

text \<open>Two integers in front of a payload, as in a datagram or a frame header.\<close>

lemma dec_two:
  assumes "a < 2 ^ 62" and "b < 2 ^ 62"
  shows "dec (enc a @ enc b @ rest) = Some (a, enc b @ rest)"
    and "dec (enc b @ rest) = Some (b, rest)"
  using assms by (simp_all add: dec_enc)

lemma enc_two_prefix_free:
  assumes "a < 2 ^ 62" "b < 2 ^ 62" "a' < 2 ^ 62" "b' < 2 ^ 62"
    and "enc a @ enc b @ xs = enc a' @ enc b' @ ys"
  shows "a = a' \<and> b = b' \<and> xs = ys"
  using enc_prefix_free [of a a' "enc b @ xs" "enc b' @ ys"] enc_prefix_free [of b b' xs ys] assms
  by auto

text \<open>
  A strict prefix of an encoding never decodes, so a receiver that waits for tail bytes on a failed
  decode never mistakes a truncated integer for a complete one.
\<close>

lemma dec_strict_prefix:
  assumes v: "v < 2 ^ 62" and "enc v = p @ q" and "q \<noteq> []"
  shows "dec p = None"
proof (rule ccontr)
  assume "dec p \<noteq> None"
  then obtain w r where d: "dec p = Some (w, r)" by auto
  from dec_append [OF d, of q] have "dec (enc v) = Some (w, r @ q)"
    by (simp add: assms(2))
  with dec_enc_Nil [OF v] assms(3) show False by simp
qed

end

end
