(* ===== verification/Varint.thy ===== *)
theory Varint
  imports Codec
begin

text \<open>
  The QUIC variable-length integers of \<open>crates/warp-masque/src/tunnel.rs\<close>:
  \<open>encode_varint\<close>, \<open>varint_len\<close> and \<open>decode_varint\<close>, on \<open>u64\<close> words with the shifts, casts
  and tags of the source. The output buffer that \<open>encode_varint\<close> extends is its first argument; the
  slice that \<open>decode_varint\<close> advances is returned beside the value, and on \<open>None\<close> the slice is
  unchanged.
\<close>

definition encode_varint :: "bytes \<Rightarrow> u64 \<Rightarrow> bytes" where
  "encode_varint out v =
     (if v < 2 ^ 6 then out @ [ucast v]
      else if v < 2 ^ 14 then out @ be_bytes 2 ((ucast v :: u16) OR 0x4000)
      else if v < 2 ^ 30 then out @ be_bytes 4 ((ucast v :: u32) OR 0x80000000)
      else out @ be_bytes 8 (v OR 0xC000000000000000))"

definition varint_len :: "u64 \<Rightarrow> nat" where
  "varint_len v =
     (if v < 2 ^ 6 then 1
      else if v < 2 ^ 14 then 2
      else if v < 2 ^ 30 then 4
      else 8)"

definition decode_varint :: "bytes \<Rightarrow> (u64 \<times> bytes) option" where
  "decode_varint buf =
     (case buf of
        [] \<Rightarrow> None
      | first # _ \<Rightarrow>
          (let len = push_bit (unat (drop_bit 6 first)) (1::nat)
           in if length buf < len then None
              else Some (foldl (\<lambda>v b. push_bit 8 v OR ucast b) (ucast (first AND 0x3f))
                           (drop 1 (take len buf)),
                         drop len buf)))"

section \<open>The first byte\<close>

lemma unat_first_tag: "unat (drop_bit 6 (b :: u8)) = unat b div 64"
  by (simp only: unat_drop_bit_eq) (simp add: drop_bit_eq_div)

lemma unat_first_tag_less: "unat (b :: u8) div 64 < 4"
  using unat_byte_less [of b] by simp

lemma and_3f: "(b :: u8) AND 0x3f = take_bit 6 b"
  by (simp add: take_bit_eq_mask mask_eq_exp_minus_1)

lemma unat_first_value: "unat (ucast ((b :: u8) AND 0x3f) :: u64) = unat b mod 64"
  by (simp only: unat_ucast_byte_64 and_3f unsigned_take_bit_eq) (simp add: take_bit_eq_mod)

definition first_len :: "u8 \<Rightarrow> nat" where
  "first_len b = push_bit (unat (drop_bit 6 b)) 1"

lemma first_len_eq: "first_len b = 2 ^ (unat b div 64)"
  by (simp only: first_len_def unat_first_tag) (simp add: push_bit_eq_mult)

lemma first_len_cases: "first_len b \<in> {1, 2, 4, 8}"
proof -
  have "unat b div 64 \<in> {0, 1, 2, 3}"
    using unat_first_tag_less [of b] by auto
  then show ?thesis by (auto simp: first_len_eq)
qed

text \<open>
  Decoding in terms of numbers: the tag fixes the length, and the value is the big-endian number of
  the remaining bits, below \<open>2 ^ 62\<close>.
\<close>

lemma decode_varint_first:
  "decode_varint (b # bs) =
     (if Suc (length bs) < first_len b then None
      else Some (foldl (\<lambda>v b. push_bit 8 v OR ucast b) (ucast (b AND 0x3f))
                   (take (first_len b - 1) bs), drop (first_len b - 1) bs))"
proof -
  obtain n where n: "first_len b = Suc n"
    using first_len_cases [of b] by (cases "first_len b") auto
  then show ?thesis
    unfolding decode_varint_def first_len_def [symmetric] Let_def list.case by simp
qed

lemma decode_varint_value:
  assumes "decode_varint (b # bs) = Some (v, rest)"
  shows "unat v = unat b mod 64 * 256 ^ (first_len b - 1) + be_val (take (first_len b - 1) bs)"
    and "unat v < 2 ^ 62"
proof -
  define n where "n = first_len b - 1"
  have len: "length (take n bs) = n"
    using assms first_len_cases [of b]
    by (auto simp: decode_varint_first n_def split: if_splits)
  have n: "n \<le> 7"
    using first_len_cases [of b] by (auto simp: n_def)
  have small: "unat b mod 64 * 256 ^ n + be_val (take n bs) < 64 * 256 ^ n"
  proof -
    have "unat b mod 64 * 256 ^ n \<le> 63 * 256 ^ n"
      by (rule mult_right_mono) (simp_all add: less_Suc_eq_le [symmetric])
    moreover have "be_val (take n bs) < 256 ^ n"
      using be_val_less [of "take n bs"] len by simp
    ultimately have "unat b mod 64 * 256 ^ n + be_val (take n bs) < 63 * 256 ^ n + 256 ^ n"
      by (rule add_le_less_mono)
    then show ?thesis by simp
  qed
  also have "\<dots> \<le> 64 * 256 ^ 7"
    by (intro mult_left_mono power_increasing) (use n in auto)
  finally have bound: "unat b mod 64 * 256 ^ n + be_val (take n bs) < 2 ^ 62" by simp
  have v: "v = foldl (\<lambda>v b. push_bit 8 v OR ucast b) (ucast (b AND 0x3f)) (take n bs)"
    using assms by (auto simp: decode_varint_first n_def split: if_splits)
  show val: "unat v = unat b mod 64 * 256 ^ (first_len b - 1)
      + be_val (take (first_len b - 1) bs)"
    unfolding v n_def [symmetric]
    using bound len unat_foldl_shift_or [of "ucast (b AND 0x3f)" "take n bs"]
    by (simp add: unat_first_value)
  show "unat v < 2 ^ 62"
    using bound by (simp only: val n_def)
qed

section \<open>What is encoded decodes\<close>

lemma decode_varint_full:
  assumes "Suc (length bs) = first_len b"
  obtains w where "decode_varint (b # bs @ rest) = Some (w, rest)"
    and "unat w + unat b div 64 * 64 * 256 ^ length bs = be_val (b # bs)"
proof -
  define w where "w = foldl (\<lambda>v b. push_bit 8 v OR ucast b) (ucast (b AND 0x3f) :: u64) bs"
  have n: "first_len b - 1 = length bs"
    using assms by simp
  have d: "decode_varint (b # bs @ rest) = Some (w, rest)"
    using assms by (simp add: decode_varint_first n w_def)
  have "unat w = unat b mod 64 * 256 ^ length bs + be_val bs"
    using decode_varint_value(1) [OF d] n by simp
  moreover have "unat b mod 64 * 256 ^ length bs + unat b div 64 * 64 * 256 ^ length bs
      = unat b * 256 ^ length bs"
    by (simp only: add_mult_distrib [symmetric]) (simp add: mod_div_mult_eq)
  ultimately have "unat w + unat b div 64 * 64 * 256 ^ length bs = be_val (b # bs)"
    by simp
  with d show thesis by (rule that)
qed

text \<open>An \<open>n\<close>-byte word whose two top bits hold the tag of \<open>n\<close> decodes to its other bits.\<close>

lemma decode_varint_tagged:
  fixes x :: "'a::len word"
  assumes len: "LENGTH('a) = 8 * n" "n = 2 ^ t" "t < 4"
    and x: "unat x = u + t * 2 ^ (8 * n - 2)" and u: "u < 2 ^ (8 * n - 2)"
  obtains w where "decode_varint (be_bytes n x @ rest) = Some (w, rest)" and "unat w = u"
proof -
  obtain m where n: "n = Suc m"
    using len(2) by (metis not0_implies_Suc power_not_zero zero_neq_numeral)
  have pow: "(2::nat) ^ (8 * n - 2) = 64 * 256 ^ m"
    by (simp add: n power_add power_mult)
  define b where "b = (ucast (drop_bit (8 * m) x) :: u8)"
  have xs: "be_bytes n x = b # be_bytes m x"
    by (simp add: n be_bytes_Suc b_def)
  have val: "be_val (b # be_bytes m x) = unat x"
    using unsigned_less [of x, where ?'a = nat] len(1)
    by (simp add: be_val_be_bytes power_mult flip: xs)
  have "be_val (be_bytes m x) < 256 ^ m"
    using be_val_less [of "be_bytes m x"] by simp
  then have "unat b = unat x div 256 ^ m"
    using val by (simp add: flip: val)
  then have "unat b div 64 = unat x div (64 * 256 ^ m)"
    by (simp add: div_mult2_eq [symmetric] mult.commute)
  also have "\<dots> = t"
    using u by (simp add: x pow)
  finally have tag: "unat b div 64 = t" .
  have "Suc (length (be_bytes m x)) = first_len b"
    using len(2) n by (simp add: first_len_eq tag)
  then obtain w where w: "decode_varint (b # be_bytes m x @ rest) = Some (w, rest)"
    "unat w + unat b div 64 * 64 * 256 ^ length (be_bytes m x) = be_val (b # be_bytes m x)"
    by (rule decode_varint_full)
  have "unat w + t * 64 * 256 ^ m = unat x"
    using w(2) by (simp only: val tag length_be_bytes)
  then have "unat w = u"
    by (simp add: x pow)
  with w(1) show thesis
    by (intro that) (simp_all add: xs)
qed

lemma u64_eq_iff_unat: "(v :: u64) = w \<longleftrightarrow> unat v = unat w"
  by (simp only: word_unat_eq_iff)

lemma unat_take_bit_62: "unat (take_bit 62 (v :: u64)) = unat v mod 2 ^ 62"
  by (simp only: unsigned_take_bit_eq) (simp add: take_bit_eq_mod)

text \<open>
  Every \<open>u64\<close> encodes; below \<open>2 ^ 62\<close> it decodes to itself, above the top two bits are lost to the
  tag, since the last branch of \<open>encode_varint\<close> does not test the range.
\<close>

lemma or_c0:
  "(v :: u64) OR 0xC000000000000000 = take_bit 62 v OR push_bit 62 3"
proof (rule bit_eqI)
  fix n :: nat
  have c: "0xC000000000000000 = (push_bit 62 3 :: u64)"
    by simp
  consider "n < 62" | "n = 62" | "n = 63" | "64 \<le> n"
    by linarith
  then show "bit (v OR 0xC000000000000000) n \<longleftrightarrow> bit (take_bit 62 v OR push_bit 62 3) n"
    unfolding c
    by cases (auto simp: bit_or_iff bit_take_bit_iff bit_push_bit_iff bit_1_iff
        dest: bit_imp_le_length)
qed

lemma unat_or_tag:
  "unat (take_bit 62 (v :: u64) OR push_bit 62 3) = unat v mod 2 ^ 62 + 3 * 2 ^ (8 * 8 - 2)"
proof -
  define t where "t = take_bit 62 v"
  have t: "unat t = unat v mod 2 ^ 62"
    by (simp only: t_def unat_take_bit_62)
  then have "unat t < 2 ^ 62"
    by (metis mod_less_divisor zero_less_numeral zero_less_power)
  then have "unat (t OR push_bit 62 3) = unat t + unat (3 :: u64) * 2 ^ 62"
    by (intro unat_or_push_bit) simp_all
  then show ?thesis
    by (simp only: t t_def [symmetric]) simp
qed

lemma decode_encode_varint_8:
  assumes "2 ^ 30 \<le> unat v"
  obtains w where "decode_varint (encode_varint [] v @ rest) = Some (w, rest)"
    and "unat w = unat v mod 2 ^ 62"
proof -
  have e: "encode_varint [] v = be_bytes 8 (take_bit 62 v OR push_bit 62 3)"
    unfolding or_c0 [symmetric] using assms by (simp add: encode_varint_def word_less_nat_alt)
  have u: "unat (take_bit 62 v OR push_bit 62 3) = unat v mod 2 ^ 62 + 3 * 2 ^ (8 * 8 - 2)"
    by (rule unat_or_tag)
  show thesis
  proof (rule decode_varint_tagged [OF _ _ _ u, of rest])
    fix w
    assume "decode_varint (be_bytes 8 (take_bit 62 v OR push_bit 62 3) @ rest) = Some (w, rest)"
      and "unat w = unat v mod 2 ^ 62"
    then show thesis
      unfolding e [symmetric] by (rule that)
  qed simp_all
qed

lemma decode_encode_varint_mod:
  "decode_varint (encode_varint [] v @ rest) = Some (take_bit 62 v, rest)"
proof -
  consider "unat v < 2 ^ 6" | "2 ^ 6 \<le> unat v" "unat v < 2 ^ 14"
    | "2 ^ 14 \<le> unat v" "unat v < 2 ^ 30" | "2 ^ 30 \<le> unat v"
    by linarith
  then obtain w where "decode_varint (encode_varint [] v @ rest) = Some (w, rest)"
    and "unat w = unat v mod 2 ^ 62"
  proof cases
    case 1
    have e: "encode_varint [] v = be_bytes 1 (ucast v :: u8)"
      using 1 by (simp add: encode_varint_def word_less_nat_alt be_bytes_def)
    have u: "unat (ucast v :: u8) = unat v + 0 * 2 ^ (8 * 1 - 2)"
      using 1 by (simp add: unsigned_ucast_eq take_bit_eq_mod)
    show thesis
      by (rule decode_varint_tagged [OF _ _ _ u, of rest]) (use 1 that in \<open>simp_all add: e\<close>)
  next
    case 2
    have e: "encode_varint [] v = be_bytes 2 ((ucast v :: u16) OR 0x4000)"
      using 2 by (simp add: encode_varint_def word_less_nat_alt)
    have u: "unat ((ucast v :: u16) OR 0x4000) = unat v + 1 * 2 ^ (8 * 2 - 2)"
      using 2 unat_or_push_bit [of "ucast v :: u16" 14 1]
      by (simp add: unsigned_ucast_eq take_bit_eq_mod push_bit_eq_mult)
    show thesis
      by (rule decode_varint_tagged [OF _ _ _ u, of rest]) (use 2 that in \<open>simp_all add: e\<close>)
  next
    case 3
    have e: "encode_varint [] v = be_bytes 4 ((ucast v :: u32) OR 0x80000000)"
      using 3 by (simp add: encode_varint_def word_less_nat_alt)
    have u: "unat ((ucast v :: u32) OR 0x80000000) = unat v + 2 * 2 ^ (8 * 4 - 2)"
      using 3 unat_or_push_bit [of "ucast v :: u32" 30 2]
      by (simp add: unsigned_ucast_eq take_bit_eq_mod push_bit_eq_mult)
    show thesis
      by (rule decode_varint_tagged [OF _ _ _ u, of rest]) (use 3 that in \<open>simp_all add: e\<close>)
  next
    case 4
    then show thesis
      using that decode_encode_varint_8 by blast
  qed
  then show ?thesis
    by (simp add: u64_eq_iff_unat unat_take_bit_62)
qed

lemma take_bit_62_eq: "take_bit 62 (v :: u64) = v" if "v < 2 ^ 62"
proof -
  have "unat v mod 2 ^ 62 = unat v"
    using that by (simp add: word_less_nat_alt)
  then show ?thesis
    by (simp only: u64_eq_iff_unat unat_take_bit_62)
qed

lemma decode_encode_varint:
  "v < 2 ^ 62 \<Longrightarrow> decode_varint (encode_varint [] v @ rest) = Some (v, rest)"
  by (simp only: decode_encode_varint_mod take_bit_62_eq)

lemma encode_varint_append: "encode_varint out v = out @ encode_varint [] v"
  by (simp add: encode_varint_def)

lemma length_encode_varint [simp]: "length (encode_varint out v) = length out + varint_len v"
  by (simp add: encode_varint_def varint_len_def)

lemma varint_len_cases: "varint_len v \<in> {1, 2, 4, 8}"
  by (simp add: varint_len_def)

section \<open>What decodes was encoded\<close>

lemma decode_varint_split:
  assumes "decode_varint buf = Some (v, rest)"
  obtains b bs where "buf = b # bs @ rest" and "Suc (length bs) = first_len b"
proof (cases buf)
  case Nil
  with assms show thesis by (simp add: decode_varint_def)
next
  case (Cons b xs)
  define n where "n = first_len b - 1"
  have "\<not> Suc (length xs) < first_len b" and "rest = drop n xs"
    using assms by (auto simp: Cons decode_varint_first n_def split: if_splits)
  then have "buf = b # take n xs @ rest" and "Suc (length (take n xs)) = first_len b"
    using first_len_cases [of b] by (auto simp: Cons n_def)
  then show thesis by (rule that)
qed

lemma decode_varint_append:
  assumes "decode_varint buf = Some (v, rest)"
  shows "decode_varint (buf @ tail) = Some (v, rest @ tail)"
proof -
  from assms obtain b bs where "buf = b # bs @ rest" and "Suc (length bs) = first_len b"
    by (rule decode_varint_split)
  moreover from this have "first_len b - 1 = length bs" by simp
  ultimately show ?thesis
    using assms by (simp add: decode_varint_first)
qed

text \<open>Decoding fails exactly on a buffer shorter than its first byte announces.\<close>

lemma decode_varint_None_iff:
  "decode_varint buf = None \<longleftrightarrow> (case buf of [] \<Rightarrow> True | b # _ \<Rightarrow> length buf < first_len b)"
  by (cases buf) (simp_all add: decode_varint_first, simp add: decode_varint_def)

interpretation vi: varint_codec "encode_varint []" decode_varint
proof
  fix v :: u64 and rest buf tail :: bytes
  show "v < 2 ^ 62 \<Longrightarrow> decode_varint (encode_varint [] v @ rest) = Some (v, rest)"
    by (rule decode_encode_varint)
  show "decode_varint buf = Some (v, rest) \<Longrightarrow> decode_varint (buf @ tail) = Some (v, rest @ tail)"
    by (rule decode_varint_append)
  show "\<exists>pre. buf = pre @ rest \<and> length pre \<in> {1, 2, 4, 8}"
    if d: "decode_varint buf = Some (v, rest)"
  proof -
    from d obtain b bs where "buf = b # bs @ rest" and "Suc (length bs) = first_len b"
      by (rule decode_varint_split)
    then have "buf = (b # bs) @ rest \<and> length (b # bs) \<in> {1, 2, 4, 8}"
      using first_len_cases [of b] by auto
    then show ?thesis by blast
  qed
  show "v < 2 ^ 62" if d: "decode_varint buf = Some (v, rest)"
    using d by (cases buf)
      (auto simp: word_less_nat_alt decode_varint_def [of "[]"] dest: decode_varint_value(2))
qed

end
