(* ===== verification/H2Tunnel.thy ===== *)
theory H2Tunnel
  imports Varint
begin

text \<open>
  The HTTP/2 fallback transport of \<open>crates/warp-masque/src/h2tunnel.rs\<close>: DATAGRAM capsules, the
  \<open>writer_loop\<close> that frames outbound packets under HTTP/2 flow control, and the \<open>reader_loop\<close> that
  reassembles capsules across DATA frames. The \<open>h2\<close> crate is outside the repository: its stream
  appears as the sequence of results its methods return (\<open>h2_chunk\<close> for \<open>RecvStream::data\<close>,
  \<open>cap_poll\<close> for \<open>SendStream::poll_capacity\<close>).
\<close>

section \<open>Capsules\<close>

definition CAPSULE_DATAGRAM :: u64 where
  "CAPSULE_DATAGRAM = 0"

definition encode_datagram_capsule :: "bytes \<Rightarrow> bytes" where
  "encode_datagram_capsule pkt =
     encode_varint (encode_varint [] CAPSULE_DATAGRAM) (of_nat (length pkt)) @ pkt"

definition parse_capsule :: "bytes \<Rightarrow> (u64 \<times> nat \<times> nat) option" where
  "parse_capsule buf =
     (case decode_varint buf of
        None \<Rightarrow> None
      | Some (ctype, p) \<Rightarrow>
          (case decode_varint p of
             None \<Rightarrow> None
           | Some (clen, p) \<Rightarrow>
               (let header = length buf - length p
                in if length p < unat clen then None
                   else Some (ctype, header, header + unat clen))))"

lemma parse_capsule_SomeD:
  assumes "parse_capsule buf = Some (ctype, voff, tot)"
  obtains hd_bytes val rest clen p where "buf = hd_bytes @ val @ rest"
    and "voff = length hd_bytes" and "tot = length (hd_bytes @ val)" and "2 \<le> voff"
    and "decode_varint buf = Some (ctype, p)"
    and "decode_varint p = Some (clen, val @ rest)" and "length val = unat clen"
proof -
  from assms obtain p clen q where
    d: "decode_varint buf = Some (ctype, p)" "decode_varint p = Some (clen, q)"
    and len: "unat clen \<le> length q"
    and eq: "voff = length buf - length q" "tot = voff + unat clen"
    by (auto simp: parse_capsule_def Let_def split: option.splits if_splits)
  from d obtain pre1 pre2 where pre: "buf = pre1 @ p" "p = pre2 @ q"
    "length pre1 \<in> {1, 2, 4, 8}" "length pre2 \<in> {1, 2, 4, 8}"
    using vi.dec_consumes by blast
  show thesis
  proof (rule that [of "pre1 @ pre2" "take (unat clen) q" "drop (unat clen) q" p clen])
    show "decode_varint p = Some (clen, take (unat clen) q @ drop (unat clen) q)"
      by (simp add: d(2))
  qed (use pre eq len d(1) in auto)
qed

lemma parse_capsule_total:
  "parse_capsule buf = Some (ctype, voff, tot) \<Longrightarrow> 2 \<le> voff \<and> voff \<le> tot \<and> tot \<le> length buf"
  by (erule parse_capsule_SomeD) auto

text \<open>A capsule that has arrived is not changed by what follows it.\<close>

lemma parse_capsule_append:
  assumes "parse_capsule buf = Some r"
  shows "parse_capsule (buf @ tail) = Some r"
proof -
  from assms obtain ctype p clen q where
    d: "decode_varint buf = Some (ctype, p)" "decode_varint p = Some (clen, q)"
    and len: "unat clen \<le> length q"
    and r: "r = (ctype, length buf - length q, length buf - length q + unat clen)"
    by (auto simp: parse_capsule_def Let_def split: option.splits if_splits)
  show ?thesis
    using vi.dec_append [OF d(1), of tail] vi.dec_append [OF d(2), of tail] len
    by (simp add: parse_capsule_def r Let_def)
qed

text \<open>Parsing what \<open>encode_datagram_capsule\<close> writes, for a capsule of any type.\<close>

definition capsule :: "u64 \<Rightarrow> bytes \<Rightarrow> bytes" where
  "capsule ctype pkt = encode_varint [] ctype @ encode_varint [] (of_nat (length pkt)) @ pkt"

lemma encode_datagram_capsule_eq: "encode_datagram_capsule pkt = capsule CAPSULE_DATAGRAM pkt"
  by (simp add: encode_datagram_capsule_def capsule_def encode_varint_append [of "_ @ _"]
      encode_varint_append [of "encode_varint [] CAPSULE_DATAGRAM"])

lemma unat_of_nat_62:
  assumes "n < 2 ^ 62"
  shows "unat (of_nat n :: u64) = n" and "(of_nat n :: u64) < 2 ^ 62"
proof -
  show "unat (of_nat n :: u64) = n"
    using assms by (simp add: unsigned_of_nat take_bit_eq_mod)
  then show "(of_nat n :: u64) < 2 ^ 62"
    using assms by (simp add: word_less_nat_alt)
qed

lemma parse_capsule_capsule:
  assumes "ctype < 2 ^ 62" and "length pkt < 2 ^ 62"
  shows "parse_capsule (capsule ctype pkt @ rest) =
    Some (ctype, length (capsule ctype pkt) - length pkt, length (capsule ctype pkt))"
proof -
  have "decode_varint (capsule ctype pkt @ rest)
      = Some (ctype, encode_varint [] (of_nat (length pkt)) @ pkt @ rest)"
    using vi.dec_enc [OF assms(1)] by (simp only: capsule_def append_assoc)
  moreover have "decode_varint (encode_varint [] (of_nat (length pkt)) @ pkt @ rest)
      = Some (of_nat (length pkt), pkt @ rest)"
    using unat_of_nat_62(2) [OF assms(2)] by (rule vi.dec_enc)
  ultimately show ?thesis
    using unat_of_nat_62(1) [OF assms(2)] by (simp add: parse_capsule_def capsule_def Let_def)
qed

lemma capsule_value: "drop (length (capsule ctype pkt) - length pkt) (capsule ctype pkt) = pkt"
  by (simp add: capsule_def)

section \<open>The reader\<close>

text \<open>
  \<open>reader_loop\<close> keeps the bytes not yet parsed, the channel to \<open>recv_ip\<close> and the flow-control credit
  returned to the peer. Its inner \<open>while let\<close> is \<open>drain_capsules\<close>, whose last component says that
  the receiver is gone, where the source returns.
\<close>

datatype h2_chunk = Data bytes | DataErr

function drain_capsules :: "bytes \<Rightarrow> bytes sender \<Rightarrow> bytes \<times> bytes sender \<times> bool" where
  "drain_capsules buf tx =
     (case parse_capsule buf of
        None \<Rightarrow> (buf, tx, False)
      | Some (ctype, voff, tot) \<Rightarrow>
          (if ctype = CAPSULE_DATAGRAM then
             (case chan_send tx (drop voff (take tot buf)) of
                None \<Rightarrow> (buf, tx, True)
              | Some tx' \<Rightarrow> drain_capsules (drop tot buf) tx')
           else drain_capsules (drop tot buf) tx))"
  by pat_completeness auto
termination
  by (relation "measure (\<lambda>(buf, tx). length buf)") (auto dest!: parse_capsule_total)

declare drain_capsules.simps [simp del]

fun reader_loop ::
  "bytes \<Rightarrow> h2_chunk list \<Rightarrow> bytes sender \<Rightarrow> nat \<Rightarrow> bytes \<times> bytes sender \<times> nat"
where
  "reader_loop buf [] tx credit = (buf, tx, credit)"
| "reader_loop buf (DataErr # cs) tx credit = (buf, tx, credit)"
| "reader_loop buf (Data d # cs) tx credit =
     (case drain_capsules (buf @ d) tx of
        (buf', tx', closed) \<Rightarrow>
          if closed then (buf', tx', credit + length d)
          else reader_loop buf' cs tx' (credit + length d))"

text \<open>
  The specification of the inner loop: the complete capsules at the front of a byte string, as type
  and value, and the bytes after them.
\<close>

function capsules_of :: "bytes \<Rightarrow> (u64 \<times> bytes) list \<times> bytes" where
  "capsules_of buf =
     (case parse_capsule buf of
        None \<Rightarrow> ([], buf)
      | Some (ctype, voff, tot) \<Rightarrow>
          (case capsules_of (drop tot buf) of
             (cs, rest) \<Rightarrow> ((ctype, drop voff (take tot buf)) # cs, rest)))"
  by pat_completeness auto
termination
  by (relation "measure length") (auto dest!: parse_capsule_total)

declare capsules_of.simps [simp del]

definition datagrams :: "(u64 \<times> bytes) list \<Rightarrow> bytes list" where
  "datagrams cs = map snd (filter (\<lambda>(t, v). t = CAPSULE_DATAGRAM) cs)"

lemma datagrams_simps [simp]:
  "datagrams [] = []"
  "datagrams ((t, v) # cs) = (if t = CAPSULE_DATAGRAM then v # datagrams cs else datagrams cs)"
  "datagrams (cs @ cs') = datagrams cs @ datagrams cs'"
  by (simp_all add: datagrams_def)

lemma capsules_of_None: "parse_capsule buf = None \<Longrightarrow> capsules_of buf = ([], buf)"
  by (simp add: capsules_of.simps [of buf])

lemma capsules_of_Some:
  "parse_capsule buf = Some (ctype, voff, tot) \<Longrightarrow>
   capsules_of buf = ((ctype, drop voff (take tot buf)) # fst (capsules_of (drop tot buf)),
     snd (capsules_of (drop tot buf)))"
  by (simp add: capsules_of.simps [of buf] split: prod.split)

lemma capsules_of_rest: "parse_capsule (snd (capsules_of buf)) = None"
proof (induction buf rule: capsules_of.induct)
  case (1 buf)
  show ?case
  proof (cases "parse_capsule buf")
    case (Some r)
    obtain ctype voff tot where "r = (ctype, voff, tot)" by (cases r)
    with 1 Some show ?thesis by (simp add: capsules_of_Some)
  qed (simp add: capsules_of_None)
qed

lemma drain_capsules_open:
  "drain_capsules buf (open_sender xs) =
     (snd (capsules_of buf), open_sender (xs @ datagrams (fst (capsules_of buf))), False)"
proof (induction buf arbitrary: xs rule: capsules_of.induct)
  case (1 buf)
  show ?case
  proof (cases "parse_capsule buf")
    case None
    then show ?thesis by (simp add: drain_capsules.simps [of buf] capsules_of_None)
  next
    case (Some r)
    obtain ctype voff tot where r: "r = (ctype, voff, tot)" by (cases r)
    then show ?thesis
      using Some "1.IH" [OF Some]
      by (simp add: drain_capsules.simps [of buf] capsules_of_Some)
  qed
qed

lemma capsules_of_append:
  "capsules_of (buf @ tail) =
     (fst (capsules_of buf) @ fst (capsules_of (snd (capsules_of buf) @ tail)),
      snd (capsules_of (snd (capsules_of buf) @ tail)))"
proof (induction buf rule: capsules_of.induct)
  case (1 buf)
  show ?case
  proof (cases "parse_capsule buf")
    case None
    then show ?thesis by (simp add: capsules_of_None)
  next
    case (Some r)
    obtain ctype voff tot where r: "r = (ctype, voff, tot)" by (cases r)
    have p: "parse_capsule (buf @ tail) = Some (ctype, voff, tot)"
      using Some r by (simp add: parse_capsule_append)
    have "tot \<le> length buf"
      using Some r parse_capsule_total by blast
    then show ?thesis
      using Some r "1.IH" [OF Some]
      by (simp add: capsules_of_Some [OF p] capsules_of_Some [of buf])
  qed
qed

text \<open>Splitting the byte stream into DATA frames does not change what is delivered.\<close>

lemma reader_loop_open:
  assumes "parse_capsule buf = None"
  shows "reader_loop buf (map Data ds) (open_sender xs) credit =
     (snd (capsules_of (buf @ concat ds)),
      open_sender (xs @ datagrams (fst (capsules_of (buf @ concat ds)))),
      credit + length (concat ds))"
  using assms
proof (induction ds arbitrary: buf xs credit)
  case Nil
  then show ?case by (simp add: capsules_of_None)
next
  case (Cons d ds)
  have "parse_capsule (snd (capsules_of (buf @ d))) = None"
    by (rule capsules_of_rest)
  from Cons.IH [OF this] show ?case
    by (simp add: drain_capsules_open capsules_of_append [of "buf @ d" "concat ds", simplified])
qed

lemma capsules_of_capsules:
  assumes "\<forall>(t, v) \<in> set cs. t < 2 ^ 62 \<and> length v < 2 ^ 62" and "parse_capsule rest = None"
  shows "capsules_of (concat (map (\<lambda>(t, v). capsule t v) cs) @ rest) = (cs, rest)"
  using assms(1)
proof (induction cs)
  case Nil
  then show ?case using assms(2) by (simp add: capsules_of_None)
next
  case (Cons c cs)
  obtain t v where c: "c = (t, v)" by (cases c)
  then have "parse_capsule (capsule t v @ concat (map (\<lambda>(t, v). capsule t v) cs) @ rest) =
    Some (t, length (capsule t v) - length v, length (capsule t v))"
    using Cons.prems by (intro parse_capsule_capsule) auto
  with c Cons show ?case
    by (simp add: capsules_of_Some capsule_value)
qed

lemma parse_capsule_Nil [simp]: "parse_capsule [] = None"
  by (simp add: parse_capsule_def decode_varint_def)

section \<open>The writer\<close>

text \<open>
  \<open>h2_send\<close> is the state of the \<open>h2\<close> stream as the loop sees it: the assigned capacity, the results
  its future calls to \<open>poll_capacity\<close> give, the last amount asked for with \<open>reserve_capacity\<close>, and
  the DATA frames accepted by \<open>send_data\<close> (which fails once the stream is gone). \<open>Waiting\<close> is a loop
  suspended in \<open>poll_capacity\<close>.
\<close>

datatype cap_poll = CapOk nat | CapClosed

record h2_send =
  capacity :: nat
  polls :: "cap_poll list"
  reserved :: nat
  frames :: "bytes sender"

datatype writer_end = Drained | Returned | Waiting

fun wait_capacity :: "nat \<Rightarrow> nat \<Rightarrow> cap_poll list \<Rightarrow> writer_end \<times> nat \<times> cap_poll list" where
  "wait_capacity need cap [] = (if need \<le> cap then (Drained, cap, []) else (Waiting, cap, []))"
| "wait_capacity need cap (p # ps) =
     (if need \<le> cap then (Drained, cap, p # ps)
      else case p of
        CapOk cap' \<Rightarrow> wait_capacity need cap' ps
      | CapClosed \<Rightarrow> (Returned, cap, ps))"

fun writer_loop :: "bytes list \<Rightarrow> h2_send \<Rightarrow> writer_end \<times> h2_send" where
  "writer_loop [] s = (Drained, s)"
| "writer_loop (pkt # pkts) s =
     (let cap = encode_datagram_capsule pkt in
      case wait_capacity (length cap) (capacity s) (polls s) of
        (Drained, c, ps) \<Rightarrow>
          (case chan_send (frames s) cap of
             None \<Rightarrow> (Returned, s\<lparr>capacity := c, polls := ps, reserved := length cap\<rparr>)
           | Some fs \<Rightarrow> writer_loop pkts
               (s\<lparr>capacity := c - length cap, polls := ps, reserved := length cap, frames := fs\<rparr>))
      | (e, c, ps) \<Rightarrow> (e, s\<lparr>capacity := c, polls := ps, reserved := length cap\<rparr>))"

lemma wait_capacity_enough:
  "wait_capacity need cap ps = (Drained, c, ps') \<Longrightarrow> need \<le> c"
  by (induction need cap ps rule: wait_capacity.induct)
    (auto split: if_splits cap_poll.splits)

text \<open>The frames written are whole capsules, one for each packet of a prefix of the queue.\<close>

lemma writer_loop_frames:
  "writer_loop pkts s = (e, s') \<Longrightarrow>
   \<exists>n \<le> length pkts. queued (frames s') = queued (frames s) @ map encode_datagram_capsule (take n pkts)
     \<and> (e = Drained \<longrightarrow> n = length pkts)"
proof (induction pkts arbitrary: s)
  case Nil
  then show ?case by simp
next
  case (Cons pkt pkts)
  define cap where "cap = encode_datagram_capsule pkt"
  obtain w c ps where w: "wait_capacity (length cap) (capacity s) (polls s) = (w, c, ps)"
    by (cases "wait_capacity (length cap) (capacity s) (polls s)")
  show ?case
  proof (cases "w = Drained \<and> chan_send (frames s) cap \<noteq> None")
    case False
    with Cons.prems w have "queued (frames s') = queued (frames s)" and "e \<noteq> Drained"
      by (auto simp: cap_def [symmetric] Let_def split: writer_end.splits option.splits)
    then show ?thesis by (intro exI [of _ 0]) simp
  next
    case True
    then obtain fs where fs: "chan_send (frames s) cap = Some fs" by auto
    let ?s = "s\<lparr>capacity := c - length cap, polls := ps, reserved := length cap, frames := fs\<rparr>"
    have "writer_loop pkts ?s = (e, s')"
      using Cons.prems True w fs by (simp add: cap_def [symmetric] Let_def)
    from Cons.IH [OF this] obtain n where "n \<le> length pkts" "e = Drained \<longrightarrow> n = length pkts"
      "queued (frames s') = queued fs @ map encode_datagram_capsule (take n pkts)"
      by auto
    then show ?thesis
      using chan_send_SomeD [OF fs] by (intro exI [of _ "Suc n"]) (simp add: cap_def)
  qed
qed

text \<open>\<open>H2Io::max_ip_packet\<close>: a capsule is not limited by a datagram size.\<close>

definition H2_MTU :: nat where
  "H2_MTU = 1280"

section \<open>Properties\<close>

text \<open>
  C13. The HTTP/2 path delivers what was sent: if the byte stream received, split into DATA frames in
  any way, is the concatenation of capsules with types and lengths below \<open>2 ^ 62\<close> followed by an
  incomplete capsule, then \<open>reader_loop\<close> forwards exactly the values of the DATAGRAM capsules, in
  order, keeps the incomplete capsule buffered, and returns flow-control credit for every byte.
\<close>

theorem reader_loop_delivers:
  assumes "\<forall>(t, v) \<in> set cs. t < 2 ^ 62 \<and> length v < 2 ^ 62"
    and "parse_capsule partial = None"
    and "concat ds = concat (map (\<lambda>(t, v). capsule t v) cs) @ partial"
  shows "reader_loop [] (map Data ds) (open_sender []) 0 =
    (partial, open_sender (datagrams cs), length (concat ds))"
  using reader_loop_open [of "[]" ds "[]" 0] capsules_of_capsules [OF assms(1,2)]
  by (simp add: assms(3))

theorem reader_loop_delivers_witness:
  "reader_loop [] (map Data [[0, 2, 0x45], [7, 1, 1, 9, 0], [5, 1]]) (open_sender []) 0 =
     ([0, 5, 1], open_sender [[0x45, 7]], 10)"
proof -
  have "concat [[0, 2, 0x45], [7, 1, 1, 9, 0], [5, 1]] =
      concat (map (\<lambda>(t, v). capsule t v) [(0, [0x45, 7]), (1, [9])]) @ ([0, 5, 1] :: bytes)"
    by (simp add: capsule_def encode_varint_def)
  moreover have "parse_capsule [0, 5, 1] = None"
    by (simp add: parse_capsule_def decode_varint_def Let_def)
  ultimately show ?thesis
    using reader_loop_delivers [of "[(0, [0x45, 7]), (1, [9])]" "[0, 5, 1]"
        "[[0, 2, 0x45], [7, 1, 1, 9, 0], [5, 1]]"]
    by (simp add: CAPSULE_DATAGRAM_def)
qed

text \<open>
  C14. End to end over HTTP/2: whatever the flow control does and however the transport cuts the
  frames of \<open>writer_loop\<close>, the peer's \<open>reader_loop\<close> delivers a prefix of the packets queued, in
  order and unchanged, and all of them once the writer has drained its queue.
\<close>

theorem writer_reader_end_to_end:
  assumes "writer_loop pkts s = (e, s')" and "queued (frames s) = []"
    and "\<forall>p \<in> set pkts. length p < 2 ^ 62"
    and "concat ds = concat (queued (frames s'))"
  shows "\<exists>n \<le> length pkts. (e = Drained \<longrightarrow> n = length pkts) \<and>
    reader_loop [] (map Data ds) (open_sender []) 0 =
      ([], open_sender (take n pkts), length (concat ds))"
proof -
  obtain n where n: "n \<le> length pkts" "e = Drained \<longrightarrow> n = length pkts"
    "queued (frames s') = map encode_datagram_capsule (take n pkts)"
    using writer_loop_frames [OF assms(1)] assms(2) by auto
  let ?cs = "map (\<lambda>p. (CAPSULE_DATAGRAM, p)) (take n pkts)"
  have "concat ds = concat (map (\<lambda>(t, v). capsule t v) ?cs) @ []"
    by (simp add: assms(4) n(3) encode_datagram_capsule_eq o_def cong: map_cong)
  moreover have "\<forall>(t, v) \<in> set ?cs. t < 2 ^ 62 \<and> length v < 2 ^ 62"
    using assms(3) by (auto simp: CAPSULE_DATAGRAM_def dest: in_set_takeD)
  ultimately have "reader_loop [] (map Data ds) (open_sender []) 0 =
      ([], open_sender (datagrams ?cs), length (concat ds))"
    using reader_loop_open [of "[]" ds "[]" 0] capsules_of_capsules [of ?cs "[]"] by simp
  moreover have "datagrams ?cs = take n pkts"
    by (simp add: datagrams_def o_def)
  ultimately show ?thesis
    using n by auto
qed

theorem writer_reader_end_to_end_witness:
  "reader_loop [] (map Data [[0], [1, 7, 0, 2, 8], [9]]) (open_sender []) 0 =
      ([], open_sender [[7], [8, 9]], 7)"
proof -
  let ?s = "\<lparr>capacity = 0, polls = [CapOk 2, CapOk 3, CapOk 16], reserved = 0,
    frames = open_sender []\<rparr>"
  have "writer_loop [[7], [8, 9]] ?s =
      (Drained, \<lparr>capacity = 12, polls = [], reserved = 4,
        frames = open_sender [[0, 1, 7], [0, 2, 8, 9]]\<rparr>)"
    by (simp add: encode_datagram_capsule_eq capsule_def encode_varint_def CAPSULE_DATAGRAM_def
        Let_def)
  from writer_reader_end_to_end [OF this, of "[[0], [1, 7, 0, 2, 8], [9]]"]
  show ?thesis by (auto simp del: reader_loop.simps)
qed

end
