(* ===== verification/Rust_Str.thy ===== *)
theory Rust_Str
  imports Prelude "HOL-Library.Char_ord"
begin

text \<open>
  Rust's \<open>str\<close> and the methods of the standard library that the sources call on it. A string is the
  list of its Unicode scalar values (\<open>char\<close>s), so \<open>trim\<close> and \<open>split_whitespace\<close> see the whole
  White\_Space property; \<open>utf8\<close> gives the bytes (\<open>as_bytes\<close>, \<open>len\<close>) and \<open>from_utf8_lossy\<close> reads
  bytes from the network, with one U+FFFD for each maximal invalid sequence as the library does.
  \<open>lit\<close> writes an ASCII literal of the source.
\<close>

type_synonym rstr = "nat list"

definition lit :: "string \<Rightarrow> rstr" where
  "lit s = map of_char s"

lemma lit_simps [simp]: "lit [] = []" "lit (c # s) = of_char c # lit s" "lit (s @ t) = lit s @ lit t"
  by (simp_all add: lit_def)

lemma length_lit [simp]: "length (lit s) = length s"
  by (simp add: lit_def)

section \<open>UTF-8\<close>

definition scalar :: "nat \<Rightarrow> bool" where
  "scalar c \<longleftrightarrow> c < 0xD800 \<or> 0xE000 \<le> c \<and> c < 0x110000"

definition utf8_nats :: "nat \<Rightarrow> nat list" where
  "utf8_nats c =
     (if c < 0x80 then [c]
      else if c < 0x800 then [0xC0 + c div 64, 0x80 + c mod 64]
      else if c < 0x10000 then [0xE0 + c div 4096, 0x80 + c div 64 mod 64, 0x80 + c mod 64]
      else [0xF0 + c div 262144, 0x80 + c div 4096 mod 64, 0x80 + c div 64 mod 64,
            0x80 + c mod 64])"

definition utf8_char :: "nat \<Rightarrow> bytes" where
  "utf8_char c = map of_nat (utf8_nats c)"

definition utf8 :: "rstr \<Rightarrow> bytes" where
  "utf8 s = concat (map utf8_char s)"

definition cont_byte :: "nat \<Rightarrow> bool" where
  "cont_byte c \<longleftrightarrow> c div 64 = 2"

text \<open>
  One step of the lossy decoder on the unsigned values of the bytes: the scalar value read, or U+FFFD,
  and the bytes after it. \<open>utf8_second\<close> is the table of admissible second bytes.
\<close>

definition utf8_second :: "nat \<Rightarrow> nat \<Rightarrow> bool" where
  "utf8_second b c \<longleftrightarrow>
     (if b = 0xE0 then 0xA0 \<le> c \<and> c \<le> 0xBF
      else if b = 0xED then 0x80 \<le> c \<and> c \<le> 0x9F
      else if b = 0xF0 then 0x90 \<le> c \<and> c \<le> 0xBF
      else if b = 0xF4 then 0x80 \<le> c \<and> c \<le> 0x8F
      else 0x80 \<le> c \<and> c \<le> 0xBF)"

fun utf8_step :: "nat \<Rightarrow> nat list \<Rightarrow> nat \<times> nat list" where
  "utf8_step b bs =
     (if b < 0x80 then (b, bs)
      else if 0xC2 \<le> b \<and> b \<le> 0xDF then
        (case bs of
           c # r \<Rightarrow> if cont_byte c then (b mod 32 * 64 + c mod 64, r) else (0xFFFD, bs)
         | [] \<Rightarrow> (0xFFFD, bs))
      else if 0xE0 \<le> b \<and> b \<le> 0xEF then
        (case bs of
           c # r \<Rightarrow>
             if utf8_second b c then
               (case r of
                  d # r' \<Rightarrow>
                    if cont_byte d then (b mod 16 * 4096 + c mod 64 * 64 + d mod 64, r')
                    else (0xFFFD, r)
                | [] \<Rightarrow> (0xFFFD, r))
             else (0xFFFD, bs)
         | [] \<Rightarrow> (0xFFFD, bs))
      else if 0xF0 \<le> b \<and> b \<le> 0xF4 then
        (case bs of
           c # r \<Rightarrow>
             if utf8_second b c then
               (case r of
                  d # r' \<Rightarrow>
                    if cont_byte d then
                      (case r' of
                         e # r'' \<Rightarrow>
                           if cont_byte e then
                             (b mod 8 * 262144 + c mod 64 * 4096 + d mod 64 * 64 + e mod 64, r'')
                           else (0xFFFD, r')
                       | [] \<Rightarrow> (0xFFFD, r'))
                    else (0xFFFD, r)
                | [] \<Rightarrow> (0xFFFD, r))
             else (0xFFFD, bs)
         | [] \<Rightarrow> (0xFFFD, bs))
      else (0xFFFD, bs))"

declare utf8_step.simps [simp del]

lemma utf8_step_length: "utf8_step b bs = (c, r) \<Longrightarrow> length r \<le> length bs"
  by (auto simp: utf8_step.simps split: if_splits list.splits)

function utf8_decode :: "nat list \<Rightarrow> rstr" where
  "utf8_decode [] = []"
| "utf8_decode (b # bs) = (case utf8_step b bs of (c, r) \<Rightarrow> c # utf8_decode r)"
  by pat_completeness auto
termination
  by (relation "measure length") (auto dest!: sym [THEN utf8_step_length])

definition from_utf8_lossy :: "bytes \<Rightarrow> rstr" where
  "from_utf8_lossy bs = utf8_decode (map unat bs)"

lemma tag_mods:
  "(0x80 + x) mod 64 = x mod (64::nat)" "(0xC0 + x) mod 32 = x mod (32::nat)"
  "(0xE0 + x) mod 16 = x mod (16::nat)" "(0xF0 + x) mod 8 = x mod (8::nat)"
  by (subst mod_add_left_eq [symmetric], simp)+

lemma base64_digits:
  fixes c :: nat
  shows "c div 64 * 64 + c mod 64 = c"
    and "c div 4096 * 4096 + c div 64 mod 64 * 64 + c mod 64 = c"
    and "c div 262144 * 262144 + c div 4096 mod 64 * 4096 + c div 64 mod 64 * 64 + c mod 64 = c"
proof -
  have step: "x div 64 * (64 * k) + x mod 64 * k = x * k" for x k :: nat
    by (metis add_mult_distrib div_mult_mod_eq mult.assoc)
  show e1: "c div 64 * 64 + c mod 64 = c" by simp
  have d: "c div 4096 = c div 64 div 64" "c div 262144 = c div 64 div 64 div 64"
    by (simp_all add: div_mult2_eq [symmetric])
  show e2: "c div 4096 * 4096 + c div 64 mod 64 * 64 + c mod 64 = c"
    using step [of "c div 64" 64] e1 by (simp add: d)
  show "c div 262144 * 262144 + c div 4096 mod 64 * 4096 + c div 64 mod 64 * 64 + c mod 64 = c"
    using step [of "c div 64 div 64" 4096] e2 by (simp add: d)
qed

lemma utf8_step_cases:
  "b < 0x80 \<Longrightarrow> utf8_step b bs = (b, bs)"
  "0xC2 \<le> b \<Longrightarrow> b \<le> 0xDF \<Longrightarrow> cont_byte c \<Longrightarrow>
     utf8_step b (c # bs) = (b mod 32 * 64 + c mod 64, bs)"
  "0xE0 \<le> b \<Longrightarrow> b \<le> 0xEF \<Longrightarrow> utf8_second b c \<Longrightarrow> cont_byte d \<Longrightarrow>
     utf8_step b (c # d # bs) = (b mod 16 * 4096 + c mod 64 * 64 + d mod 64, bs)"
  "0xF0 \<le> b \<Longrightarrow> b \<le> 0xF4 \<Longrightarrow> utf8_second b c \<Longrightarrow> cont_byte d \<Longrightarrow> cont_byte e \<Longrightarrow>
     utf8_step b (c # d # e # bs) =
       (b mod 8 * 262144 + c mod 64 * 4096 + d mod 64 * 64 + e mod 64, bs)"
  by (simp_all add: utf8_step.simps)

text \<open>The second byte of a three- or four-byte form is in the range its first byte asks for.\<close>

lemma utf8_second_3:
  assumes "scalar c" and "0x800 \<le> c" "c < 0x10000"
  shows "utf8_second (0xE0 + c div 4096) (0x80 + c div 64 mod 64)"
proof -
  have "c div 4096 < 16" using assms(3) by auto
  moreover have "c div 4096 = 0 \<Longrightarrow> 32 \<le> c div 64 mod 64" using assms(2) by simp
  moreover have "c div 64 mod 64 < 32" if q: "c div 4096 = 13"
  proof -
    have "c < 0xE000" using q by simp
    with assms(1) have "c div 64 < 864" by (auto simp: scalar_def)
    moreover have "c div 64 div 64 = 13" using q by (simp add: div_mult2_eq [symmetric])
    ultimately show ?thesis using div_mult_mod_eq [of "c div 64" 64] by simp
  qed
  ultimately show ?thesis by (auto simp: utf8_second_def)
qed

lemma utf8_second_4:
  assumes "scalar c" and "0x10000 \<le> c"
  shows "utf8_second (0xF0 + c div 262144) (0x80 + c div 4096 mod 64)"
proof -
  have "c div 262144 < 5" using assms(1) by (auto simp: scalar_def)
  moreover have "c div 262144 = 0 \<Longrightarrow> 16 \<le> c div 4096 mod 64" using assms(2) by simp
  moreover have "c div 4096 mod 64 < 16" if q: "c div 262144 = 4"
  proof -
    have "c div 4096 < 272" using assms by (auto simp: scalar_def)
    moreover have "c div 4096 div 64 = 4" using q by (simp add: div_mult2_eq [symmetric])
    ultimately show ?thesis using div_mult_mod_eq [of "c div 4096" 64] by simp
  qed
  ultimately show ?thesis by (auto simp: utf8_second_def)
qed

lemma utf8_decode_nats:
  assumes "scalar c"
  shows "utf8_decode (utf8_nats c @ bs) = c # utf8_decode bs"
proof -
  have cont: "cont_byte (0x80 + x mod 64)" for x
    by (simp add: cont_byte_def)
  consider "c < 0x80" | "0x80 \<le> c" "c < 0x800" | "0x800 \<le> c" "c < 0x10000" | "0x10000 \<le> c"
    by linarith
  then show ?thesis
  proof cases
    case 1
    then show ?thesis by (simp add: utf8_nats_def utf8_step_cases)
  next
    case 2
    then have m: "c div 64 < 32" "2 \<le> c div 64" by auto
    then show ?thesis
      using 2 by (simp add: utf8_nats_def utf8_step_cases cont tag_mods)
  next
    case 3
    then have m: "c div 4096 < 16" by auto
    show ?thesis
      using 3 m utf8_second_3 [OF assms 3] base64_digits(2) [of c]
      by (simp add: utf8_nats_def utf8_step_cases cont tag_mods)
  next
    case 4
    then have m: "c div 262144 < 5" using assms by (auto simp: scalar_def)
    show ?thesis
      using 4 m utf8_second_4 [OF assms 4] base64_digits(3) [of c]
      by (simp add: utf8_nats_def utf8_step_cases cont tag_mods)
  qed
qed

lemma utf8_nats_bytes:
  assumes "scalar c"
  shows "map unat (utf8_char c) = utf8_nats c"
proof -
  have small: "n < 256 \<Longrightarrow> unat (of_nat n :: u8) = n" for n
    by (simp only: unsigned_of_nat) (simp add: take_bit_eq_mod)
  have "\<forall>n \<in> set (utf8_nats c). n < 256"
    using assms by (auto simp: utf8_nats_def scalar_def)
  then show ?thesis
    by (simp add: utf8_char_def small map_idI)
qed

lemma from_utf8_lossy_utf8:
  assumes "\<forall>c \<in> set s. scalar c"
  shows "from_utf8_lossy (utf8 s) = s"
  using assms
  by (induction s) (simp_all add: from_utf8_lossy_def utf8_def utf8_nats_bytes utf8_decode_nats)

text \<open>ASCII bytes are their own characters.\<close>

lemma utf8_decode_ascii: "\<forall>c \<in> set s. c < 0x80 \<Longrightarrow> utf8_decode s = s"
  by (induction s) (simp_all add: utf8_step.simps)

section \<open>Trimming and splitting\<close>

definition is_whitespace :: "nat \<Rightarrow> bool" where
  "is_whitespace c \<longleftrightarrow>
     9 \<le> c \<and> c \<le> 13 \<or> c = 32 \<or> c = 0x85 \<or> c = 0xA0 \<or> c = 0x1680
     \<or> 0x2000 \<le> c \<and> c \<le> 0x200A \<or> c = 0x2028 \<or> c = 0x2029 \<or> c = 0x202F \<or> c = 0x205F
     \<or> c = 0x3000"

definition trim_start :: "rstr \<Rightarrow> rstr" where
  "trim_start s = dropWhile is_whitespace s"

definition trim_end :: "rstr \<Rightarrow> rstr" where
  "trim_end s = rev (dropWhile is_whitespace (rev s))"

definition trim :: "rstr \<Rightarrow> rstr" where
  "trim s = trim_end (trim_start s)"

fun split_once :: "nat \<Rightarrow> rstr \<Rightarrow> (rstr \<times> rstr) option" where
  "split_once c [] = None"
| "split_once c (x # xs) =
     (if x = c then Some ([], xs) else map_option (\<lambda>(a, b). (x # a, b)) (split_once c xs))"

definition rsplit_once :: "nat \<Rightarrow> rstr \<Rightarrow> (rstr \<times> rstr) option" where
  "rsplit_once c s = map_option (\<lambda>(a, b). (rev b, rev a)) (split_once c (rev s))"

text \<open>\<open>push_front\<close> puts a character in front of the first piece of a split.\<close>

fun push_front :: "nat \<Rightarrow> rstr list \<Rightarrow> rstr list" where
  "push_front x [] = [[x]]"
| "push_front x (p # ps) = (x # p) # ps"

fun split_by :: "(nat \<Rightarrow> bool) \<Rightarrow> rstr \<Rightarrow> rstr list" where
  "split_by P [] = [[]]"
| "split_by P (x # xs) = (if P x then [] # split_by P xs else push_front x (split_by P xs))"

definition split_char :: "nat \<Rightarrow> rstr \<Rightarrow> rstr list" where
  "split_char c s = split_by (\<lambda>x. x = c) s"

definition split_whitespace :: "rstr \<Rightarrow> rstr list" where
  "split_whitespace s = filter (\<lambda>p. p \<noteq> []) (split_by is_whitespace s)"

text \<open>\<open>str::split\<close> by a non-empty string pattern, left to right without overlap.\<close>

function split_str :: "rstr \<Rightarrow> rstr \<Rightarrow> rstr list" where
  "split_str sep [] = [[]]"
| "split_str sep (x # xs) =
     (if sep \<noteq> [] \<and> take (length sep) (x # xs) = sep
      then [] # split_str sep (drop (length sep) (x # xs))
      else push_front x (split_str sep xs))"
  by pat_completeness auto
termination
  by (relation "measure (\<lambda>(sep, s). length s)") auto

text \<open>
  \<open>lines\<close> ends a line at each newline, drops a carriage return in front of it, and gives no empty
  line after a final newline.
\<close>

definition strip_cr :: "rstr \<Rightarrow> rstr" where
  "strip_cr l = (if l \<noteq> [] \<and> last l = 13 then butlast l else l)"

definition str_lines :: "rstr \<Rightarrow> rstr list" where
  "str_lines s =
     (let ps = split_char 10 s
      in map strip_cr (butlast ps) @ (if last ps = [] then [] else [last ps]))"

fun find_char :: "nat \<Rightarrow> rstr \<Rightarrow> nat option" where
  "find_char c [] = None"
| "find_char c (x # xs) = (if x = c then Some 0 else map_option Suc (find_char c xs))"

definition rfind_char :: "nat \<Rightarrow> rstr \<Rightarrow> nat option" where
  "rfind_char c s = map_option (\<lambda>i. length s - 1 - i) (find_char c (rev s))"

definition ends_with :: "rstr \<Rightarrow> rstr \<Rightarrow> bool" where
  "ends_with s suf \<longleftrightarrow> length suf \<le> length s \<and> drop (length s - length suf) s = suf"

definition to_ascii_lower :: "nat \<Rightarrow> nat" where
  "to_ascii_lower c = (if 65 \<le> c \<and> c \<le> 90 then c + 32 else c)"

definition eq_ignore_ascii_case :: "rstr \<Rightarrow> rstr \<Rightarrow> bool" where
  "eq_ignore_ascii_case s t \<longleftrightarrow> map to_ascii_lower s = map to_ascii_lower t"

definition replace_char :: "nat \<Rightarrow> rstr \<Rightarrow> rstr \<Rightarrow> rstr" where
  "replace_char c r s = concat (map (\<lambda>x. if x = c then r else [x]) s)"

lemma split_once_Some_iff:
  "split_once c s = Some (a, b) \<longleftrightarrow> s = a @ c # b \<and> c \<notin> set a"
proof (induction s arbitrary: a)
  case (Cons x s)
  then show ?case by (cases a) auto
qed simp

lemma split_once_None_iff: "split_once c s = None \<longleftrightarrow> c \<notin> set s"
  by (induction s) auto

lemma rsplit_once_Some_iff:
  "rsplit_once c s = Some (a, b) \<longleftrightarrow> s = a @ c # b \<and> c \<notin> set b"
proof
  assume "rsplit_once c s = Some (a, b)"
  then have "split_once c (rev s) = Some (rev b, rev a)"
    by (auto simp: rsplit_once_def)
  then have "rev s = rev b @ c # rev a \<and> c \<notin> set b"
    by (simp add: split_once_Some_iff)
  then show "s = a @ c # b \<and> c \<notin> set b"
    by (metis append.assoc append_Cons append_Nil rev.simps(2) rev_append rev_rev_ident)
next
  assume "s = a @ c # b \<and> c \<notin> set b"
  then have "split_once c (rev s) = Some (rev b, rev a)"
    by (simp add: split_once_Some_iff)
  then show "rsplit_once c s = Some (a, b)"
    by (simp add: rsplit_once_def)
qed

lemma rsplit_once_None_iff: "rsplit_once c s = None \<longleftrightarrow> c \<notin> set s"
  by (simp add: rsplit_once_def split_once_None_iff)

lemma push_front_ne [simp]: "push_front x ps \<noteq> []"
  by (cases ps) simp_all

lemma split_by_ne [simp]: "split_by P s \<noteq> []"
  by (induction s) simp_all

lemma split_by_none: "\<forall>x \<in> set s. \<not> P x \<Longrightarrow> split_by P s = [s]"
  by (induction s) simp_all

lemma split_by_append:
  assumes "\<forall>x \<in> set a. \<not> P x" and "P c"
  shows "split_by P (a @ c # b) = a # split_by P b"
  using assms by (induction a) simp_all

lemma split_by_pieces: "p \<in> set (split_by P s) \<Longrightarrow> x \<in> set p \<Longrightarrow> \<not> P x \<and> x \<in> set s"
proof (induction s arbitrary: p)
  case (Cons y ys)
  obtain q qs where q: "split_by P ys = q # qs"
    by (cases "split_by P ys") simp_all
  show ?case
    using Cons.prems Cons.IH [of q] Cons.IH [of p] by (auto simp: q split: if_splits)
qed simp

section \<open>Numbers\<close>

definition to_digit :: "nat \<Rightarrow> nat \<Rightarrow> nat option" where
  "to_digit radix c =
     (let d = (if 48 \<le> c \<and> c \<le> 57 then c - 48
               else if 97 \<le> c \<and> c \<le> 122 then c - 87
               else if 65 \<le> c \<and> c \<le> 90 then c - 55
               else radix)
      in if d < radix then Some d else None)"

definition digit_char :: "nat \<Rightarrow> nat" where
  "digit_char d = (if d < 10 then 48 + d else 87 + d)"

fun show_radix :: "nat \<Rightarrow> nat \<Rightarrow> rstr" where
  "show_radix radix n =
     (if radix < 2 \<or> n < radix then [digit_char n]
      else show_radix radix (n div radix) @ [digit_char (n mod radix)])"

declare show_radix.simps [simp del]

abbreviation show_nat :: "nat \<Rightarrow> rstr" where
  "show_nat \<equiv> show_radix 10"

text \<open>\<open>{:02x}\<close> of a byte.\<close>

definition hex_byte :: "u8 \<Rightarrow> rstr" where
  "hex_byte b = [digit_char (unat b div 16), digit_char (unat b mod 16)]"

text \<open>
  \<open>digits_val\<close> is the value of a non-empty digit string. The library stops with an error when an
  intermediate value exceeds the type, which happens exactly when the final value does.
\<close>

fun digits_acc :: "nat \<Rightarrow> nat \<Rightarrow> rstr \<Rightarrow> nat option" where
  "digits_acc radix a [] = Some a"
| "digits_acc radix a (c # cs) =
     (case to_digit radix c of None \<Rightarrow> None | Some d \<Rightarrow> digits_acc radix (a * radix + d) cs)"

definition digits_val :: "nat \<Rightarrow> rstr \<Rightarrow> nat option" where
  "digits_val radix s = (if s = [] then None else digits_acc radix 0 s)"

definition parse_unsigned :: "nat \<Rightarrow> rstr \<Rightarrow> nat option" where
  "parse_unsigned bits s =
     (case digits_val 10 (case s of c # r \<Rightarrow> if c = 43 then r else s | [] \<Rightarrow> []) of
        None \<Rightarrow> None
      | Some n \<Rightarrow> if n < 2 ^ bits then Some n else None)"

definition parse_i64 :: "rstr \<Rightarrow> int option" where
  "parse_i64 s =
     (case s of
        [] \<Rightarrow> None
      | c # r \<Rightarrow>
          if c = 45 then
            (case digits_val 10 r of
               None \<Rightarrow> None
             | Some n \<Rightarrow> if n \<le> 2 ^ 63 then Some (- int n) else None)
          else
            (case digits_val 10 (if c = 43 then r else s) of
               None \<Rightarrow> None
             | Some n \<Rightarrow> if n < 2 ^ 63 then Some (int n) else None))"

lemma to_digit_digit_char: "d < radix \<Longrightarrow> radix \<le> 36 \<Longrightarrow> to_digit radix (digit_char d) = Some d"
  by (simp add: to_digit_def digit_char_def)

lemma digits_acc_append:
  "digits_acc radix a (s @ t) =
     (case digits_acc radix a s of None \<Rightarrow> None | Some b \<Rightarrow> digits_acc radix b t)"
  by (induction s arbitrary: a) (simp_all split: option.split)

lemma digits_acc_show:
  assumes "2 \<le> radix" and "radix \<le> 36"
  shows "digits_acc radix 0 (show_radix radix n) = Some n"
  using assms
proof (induction radix n rule: show_radix.induct)
  case (1 radix n)
  then show ?case
    by (simp add: show_radix.simps [of radix n] digits_acc_append to_digit_digit_char)
qed

lemma show_radix_ne [simp]: "show_radix radix n \<noteq> []"
  by (subst show_radix.simps) simp

lemma digits_val_show: "2 \<le> radix \<Longrightarrow> radix \<le> 36 \<Longrightarrow> digits_val radix (show_radix radix n) = Some n"
  by (simp add: digits_val_def digits_acc_show)

lemma show_radix_digits:
  assumes "2 \<le> radix" and "c \<in> set (show_radix radix n)"
  obtains d where "c = digit_char d" and "d < radix"
  using assms
proof (induction radix n arbitrary: thesis rule: show_radix.induct)
  case (1 radix n)
  then show ?case
    by (auto simp: show_radix.simps [of radix n] split: if_splits)
qed

lemma show_nat_digits: "c \<in> set (show_nat n) \<Longrightarrow> 48 \<le> c \<and> c \<le> 57"
  by (erule show_radix_digits [rotated]) (auto simp: digit_char_def)

lemma parse_unsigned_show:
  assumes "n < 2 ^ bits"
  shows "parse_unsigned bits (show_nat n) = Some n"
proof -
  obtain c cs where s: "show_nat n = c # cs"
    by (cases "show_nat n") simp_all
  then have "c \<noteq> 43"
    using show_nat_digits [of c n] by auto
  then show ?thesis
    using digits_val_show [of 10 n] assms by (simp add: parse_unsigned_def s)
qed

lemma length_hex_byte [simp]: "length (hex_byte b) = 2"
  by (simp add: hex_byte_def)

lemma digits_val_hex_byte: "digits_val 16 (hex_byte b) = Some (unat b)"
  using unat_byte_less [of b]
  by (simp add: digits_val_def hex_byte_def to_digit_digit_char)

section \<open>Strings without white space, ASCII strings\<close>

lemma dropWhile_none: "\<forall>x \<in> set xs. \<not> P x \<Longrightarrow> dropWhile P xs = xs"
  by (cases xs) simp_all

lemma trim_id: "\<forall>c \<in> set s. \<not> is_whitespace c \<Longrightarrow> trim s = s"
  by (simp add: trim_def trim_start_def trim_end_def dropWhile_none)

lemma utf8_append: "utf8 (s @ t) = utf8 s @ utf8 t"
  by (simp add: utf8_def)

lemma length_utf8_ascii: "\<forall>c \<in> set s. c < 0x80 \<Longrightarrow> length (utf8 s) = length s"
  by (induction s) (simp_all add: utf8_def utf8_char_def utf8_nats_def)

lemma split_char_none: "c \<notin> set s \<Longrightarrow> split_char c s = [s]"
  by (induction s) (simp_all add: split_char_def)

lemma split_char_Cons: "c \<notin> set s \<Longrightarrow> split_char c (s @ c # t) = s # split_char c t"
  by (induction s) (simp_all add: split_char_def)

section \<open>Literals\<close>

text \<open>Message texts stay folded: they are compared as literals (\<open>lit_eq_iff\<close>), not unfolded.\<close>

declare lit_simps [simp del]

lemma lit_eq_iff [simp]: "lit s = lit t \<longleftrightarrow> s = t"
proof
  assume "lit s = lit t"
  moreover have "inj (of_char :: char \<Rightarrow> nat)"
    by (rule injI) (simp add: of_char_eq_iff)
  ultimately show "s = t"
    by (simp add: lit_def inj_map_eq_map)
qed simp

end
