(* ===== verification/Ip_Addr.thy ===== *)
theory Ip_Addr
  imports Rust_Str
begin

text \<open>
  \<open>std::net\<close> addresses as the sources use them: parsing (\<open>str::parse\<close>), printing (\<open>to_string\<close>) and
  \<open>is_loopback\<close>. The parser is the recursive descent parser of the standard library
  (\<open>core::net::parser\<close>), the printer compresses the longest run of zero groups as \<open>Display\<close> does.
  The SOCKS server prints the address of a request and the netstack parses it again, so the round trip
  is what keeps a literal address from ever reaching DNS.
\<close>

datatype ipv4 = Ipv4 u8 u8 u8 u8

datatype ipv6 = Ipv6 "u16 list"

datatype ip_addr = V4 ipv4 | V6 ipv6

definition ipv6_wf :: "ipv6 \<Rightarrow> bool" where
  "ipv6_wf a \<longleftrightarrow> (case a of Ipv6 gs \<Rightarrow> length gs = 8)"

fun ip_wf :: "ip_addr \<Rightarrow> bool" where
  "ip_wf (V4 a) \<longleftrightarrow> True"
| "ip_wf (V6 a) \<longleftrightarrow> ipv6_wf a"

fun octets :: "ipv4 \<Rightarrow> bytes" where
  "octets (Ipv4 a b c d) = [a, b, c, d]"

text \<open>\<open>Ipv4Addr::from([u8; 4])\<close> and \<open>Ipv6Addr::from([u8; 16])\<close>.\<close>

definition ipv4_from :: "bytes \<Rightarrow> ipv4" where
  "ipv4_from bs = Ipv4 (bs ! 0) (bs ! 1) (bs ! 2) (bs ! 3)"

fun pairs_be :: "bytes \<Rightarrow> u16 list" where
  "pairs_be (a # b # bs) = from_be_bytes [a, b] # pairs_be bs"
| "pairs_be _ = []"

definition ipv6_from :: "bytes \<Rightarrow> ipv6" where
  "ipv6_from bs = Ipv6 (pairs_be bs)"

fun is_loopback :: "ip_addr \<Rightarrow> bool" where
  "is_loopback (V4 (Ipv4 a b c d)) \<longleftrightarrow> a = 127"
| "is_loopback (V6 (Ipv6 gs)) \<longleftrightarrow> gs = [0, 0, 0, 0, 0, 0, 0, 1]"

section \<open>Parsing\<close>

type_synonym 'a parser = "rstr \<Rightarrow> ('a \<times> rstr) option"

definition read_number :: "nat \<Rightarrow> nat \<Rightarrow> bool \<Rightarrow> nat \<Rightarrow> nat parser" where
  "read_number radix max_digits allow_zero_prefix bits s =
     (let ds = takeWhile (\<lambda>c. to_digit radix c \<noteq> None) s
      in if length ds > max_digits \<or> ds = [] then None
         else if \<not> allow_zero_prefix \<and> hd ds = 48 \<and> length ds > 1 then None
         else case digits_val radix ds of
             None \<Rightarrow> None
           | Some n \<Rightarrow> if n < 2 ^ bits then Some (n, drop (length ds) s) else None)"

definition read_given_char :: "nat \<Rightarrow> unit parser" where
  "read_given_char c s = (case s of x # xs \<Rightarrow> if x = c then Some ((), xs) else None | [] \<Rightarrow> None)"

definition read_separator :: "nat \<Rightarrow> nat \<Rightarrow> 'a parser \<Rightarrow> 'a parser" where
  "read_separator sep index inner s =
     (if index > 0 then
        (case read_given_char sep s of None \<Rightarrow> None | Some (_, r) \<Rightarrow> inner r)
      else inner s)"

definition read_octet :: "u8 parser" where
  "read_octet s = map_option (\<lambda>(n, r). (of_nat n, r)) (read_number 10 3 False 8 s)"

definition read_group :: "u16 parser" where
  "read_group s = map_option (\<lambda>(n, r). (of_nat n, r)) (read_number 16 4 True 16 s)"

definition read_ipv4_addr :: "ipv4 parser" where
  "read_ipv4_addr s =
     Option.bind (read_separator 46 0 read_octet s) (\<lambda>(a, s).
     Option.bind (read_separator 46 1 read_octet s) (\<lambda>(b, s).
     Option.bind (read_separator 46 2 read_octet s) (\<lambda>(c, s).
     Option.bind (read_separator 46 3 read_octet s) (\<lambda>(d, s).
     Some (Ipv4 a b c d, s)))))"

function read_groups :: "nat \<Rightarrow> nat \<Rightarrow> rstr \<Rightarrow> u16 list \<times> bool \<times> rstr" where
  "read_groups limit i s =
     (if limit \<le> i then ([], False, s)
      else case (if i < limit - 1 then read_separator 58 i read_ipv4_addr s else None) of
          Some (Ipv4 a b c d, r) \<Rightarrow> ([from_be_bytes [a, b], from_be_bytes [c, d]], True, r)
        | None \<Rightarrow>
            (case read_separator 58 i read_group s of
               Some (g, r) \<Rightarrow>
                 (case read_groups limit (Suc i) r of (gs, v4, r') \<Rightarrow> (g # gs, v4, r'))
             | None \<Rightarrow> ([], False, s)))"
  by pat_completeness auto
termination
  by (relation "measure (\<lambda>(limit, i, s). limit - i)") auto

declare read_groups.simps [simp del]

definition read_ipv6_addr :: "ipv6 parser" where
  "read_ipv6_addr s =
     (case read_groups 8 0 s of (head, head_ipv4, s1) \<Rightarrow>
        if length head = 8 then Some (Ipv6 head, s1)
        else if head_ipv4 then None
        else
          Option.bind (read_given_char 58 s1) (\<lambda>(_, s2).
          Option.bind (read_given_char 58 s2) (\<lambda>(_, s3).
          case read_groups (8 - (length head + 1)) 0 s3 of (tail, _, s4) \<Rightarrow>
            Some (Ipv6 (head @ replicate (8 - length head - length tail) 0 @ tail), s4))))"

definition read_ip_addr :: "ip_addr parser" where
  "read_ip_addr s =
     (case read_ipv4_addr s of
        Some (a, r) \<Rightarrow> Some (V4 a, r)
      | None \<Rightarrow> map_option (\<lambda>(a, r). (V6 a, r)) (read_ipv6_addr s))"

definition parse_with :: "'a parser \<Rightarrow> rstr \<Rightarrow> 'a option" where
  "parse_with p s = (case p s of Some (a, []) \<Rightarrow> Some a | _ \<Rightarrow> None)"

definition parse_ip :: "rstr \<Rightarrow> ip_addr option" where
  "parse_ip s = parse_with read_ip_addr s"

definition parse_ipv4 :: "rstr \<Rightarrow> ipv4 option" where
  "parse_ipv4 s = (if length (utf8 s) > 15 then None else parse_with read_ipv4_addr s)"

definition parse_ipv6 :: "rstr \<Rightarrow> ipv6 option" where
  "parse_ipv6 s = parse_with read_ipv6_addr s"

section \<open>Printing\<close>

fun show_ipv4 :: "ipv4 \<Rightarrow> rstr" where
  "show_ipv4 (Ipv4 a b c d) =
     show_nat (unat a) @ [46] @ show_nat (unat b) @ [46] @ show_nat (unat c) @ [46]
     @ show_nat (unat d)"

text \<open>The longest run of zero groups, the first of equally long ones: \<open>(start, len)\<close>.\<close>

fun zero_span :: "nat \<Rightarrow> nat \<times> nat \<Rightarrow> nat \<times> nat \<Rightarrow> u16 list \<Rightarrow> nat \<times> nat" where
  "zero_span i longest current [] = longest"
| "zero_span i longest current (g # gs) =
     (if g = 0 then
        (let current = (if snd current = 0 then i else fst current, Suc (snd current));
             longest = (if snd current > snd longest then current else longest)
         in zero_span (Suc i) longest current gs)
      else zero_span (Suc i) longest (0, 0) gs)"

fun fmt_subslice :: "u16 list \<Rightarrow> rstr" where
  "fmt_subslice [] = []"
| "fmt_subslice [g] = show_radix 16 (unat g)"
| "fmt_subslice (g # gs) = show_radix 16 (unat g) @ [58] @ fmt_subslice gs"

fun show_ipv6 :: "ipv6 \<Rightarrow> rstr" where
  "show_ipv6 (Ipv6 gs) =
     (if take 6 gs = [0, 0, 0, 0, 0, 0xFFFF] then
        lit ''::ffff:'' @ show_ipv4 (ipv4_from (be_bytes 2 (gs ! 6) @ be_bytes 2 (gs ! 7)))
      else
        (case zero_span 0 (0, 0) (0, 0) gs of (start, len) \<Rightarrow>
           if len > 1 then
             fmt_subslice (take start gs) @ lit ''::'' @ fmt_subslice (drop (start + len) gs)
           else fmt_subslice gs))"

fun show_ip :: "ip_addr \<Rightarrow> rstr" where
  "show_ip (V4 a) = show_ipv4 a"
| "show_ip (V6 a) = show_ipv6 a"

section \<open>Round trips\<close>

text \<open>Characters that end a number: anything that is no digit of the radix.\<close>

definition ends_number :: "nat \<Rightarrow> rstr \<Rightarrow> bool" where
  "ends_number radix s \<longleftrightarrow> (case s of [] \<Rightarrow> True | c # _ \<Rightarrow> to_digit radix c = None)"

lemma ends_number_simps [simp]:
  "ends_number radix []" "ends_number radix (46 # s)" "ends_number radix (58 # s)"
  by (simp_all add: ends_number_def to_digit_def)

lemma digit_char_to_digit: "d < radix \<Longrightarrow> radix \<le> 36 \<Longrightarrow> to_digit radix (digit_char d) \<noteq> None"
  by (simp add: to_digit_digit_char)

lemma takeWhile_number:
  assumes "\<forall>c \<in> set ds. to_digit radix c \<noteq> None" and "ends_number radix r"
  shows "takeWhile (\<lambda>c. to_digit radix c \<noteq> None) (ds @ r) = ds"
  using assms by (cases r) (simp_all add: takeWhile_append2 ends_number_def)

lemma read_number_show:
  assumes "2 \<le> radix" "radix \<le> 36" and "n < 2 ^ bits" and "length (show_radix radix n) \<le> k"
    and "ends_number radix r" and "z \<or> hd (show_radix radix n) \<noteq> 48 \<or> length (show_radix radix n) = 1"
  shows "read_number radix k z bits (show_radix radix n @ r) = Some (n, r)"
proof -
  have "\<forall>c \<in> set (show_radix radix n). to_digit radix c \<noteq> None"
    using assms(1,2) by (auto elim!: show_radix_digits simp: to_digit_digit_char)
  then have t: "takeWhile (\<lambda>c. to_digit radix c \<noteq> None) (show_radix radix n @ r) = show_radix radix n"
    using assms(5) by (rule takeWhile_number)
  show ?thesis
    unfolding read_number_def Let_def t
    using assms by (auto simp: digits_val_show)
qed

lemma show_radix_length: "n < radix ^ Suc k \<Longrightarrow> 2 \<le> radix \<Longrightarrow> length (show_radix radix n) \<le> Suc k"
proof (induction k arbitrary: n)
  case 0
  then show ?case by (simp add: show_radix.simps [of radix n])
next
  case (Suc k)
  have "n div radix < radix ^ Suc k"
    using Suc.prems by (simp add: less_mult_imp_div_less mult.commute)
  then show ?case
    using Suc by (simp add: show_radix.simps [of radix n])
qed

lemma show_radix_hd:
  assumes "2 \<le> radix" and "0 < n"
  shows "hd (show_radix radix n) \<noteq> 48"
  using assms
proof (induction radix n rule: show_radix.induct)
  case (1 radix n)
  show ?case
  proof (cases "n < radix")
    case True
    then show ?thesis using 1 by (simp add: show_radix.simps [of radix n] digit_char_def)
  next
    case False
    then have "0 < n div radix"
      using 1 by (simp add: div_greater_zero_iff)
    then show ?thesis
      using 1 False by (simp add: show_radix.simps [of radix n])
  qed
qed

lemma read_octet_show:
  assumes "ends_number 10 r"
  shows "read_octet (show_nat (unat a) @ r) = Some (a, r)"
proof -
  have "length (show_nat (unat a)) \<le> Suc 2"
    using unat_byte_less [of a] by (intro show_radix_length) simp_all
  moreover have "hd (show_nat (unat a)) \<noteq> 48 \<or> length (show_nat (unat a)) = 1"
  proof (cases "unat a = 0")
    case True
    then show ?thesis by (simp add: show_radix.simps)
  qed (simp add: show_radix_hd)
  ultimately have "read_number 10 3 False 8 (show_nat (unat a) @ r) = Some (unat a, r)"
    using unat_byte_less [of a] assms by (intro read_number_show) simp_all
  then show ?thesis
    by (simp add: read_octet_def)
qed

lemma read_ipv4_show:
  assumes "ends_number 10 r"
  shows "read_ipv4_addr (show_ipv4 a @ r) = Some (a, r)"
  using assms
  by (cases a) (simp add: read_ipv4_addr_def read_separator_def read_given_char_def read_octet_show)

lemma parse_ip_show_ipv4: "parse_ip (show_ip (V4 a)) = Some (V4 a)"
  using read_ipv4_show [of "[]" a] by (simp add: parse_ip_def parse_with_def read_ip_addr_def)

lemma parse_ipv4_show_nat_list:
  "parse_with read_ipv4_addr (show_ipv4 a) = Some a"
  using read_ipv4_show [of "[]" a] by (simp add: parse_with_def)

section \<open>The IPv6 round trip\<close>

lemma read_octet_suffix: "read_octet s = Some (a, r) \<Longrightarrow> \<exists>ds. s = ds @ r"
  by (auto simp: read_octet_def read_number_def Let_def split: if_splits option.splits)
     (metis append_take_drop_id)+

lemma read_ipv4_no_dot: "46 \<notin> set s \<Longrightarrow> read_ipv4_addr s = None"
proof -
  assume dot: "46 \<notin> set s"
  have "read_separator 46 1 read_octet r = None" if "read_octet s = Some (a, r)" for a r
    using read_octet_suffix [OF that] dot
    by (auto simp: read_separator_def read_given_char_def split: list.splits)
  then show ?thesis
    by (cases "read_octet s") (auto simp: read_ipv4_addr_def read_separator_def [of 46 0])
qed

lemma read_group_show:
  assumes "ends_number 16 r"
  shows "read_group (show_radix 16 (unat g) @ r) = Some (g, r)"
proof -
  have g: "unat g < 65536"
    using unsigned_less [of g, where ?'a = nat] by simp
  then have "length (show_radix 16 (unat g)) \<le> Suc 3"
    by (intro show_radix_length) simp_all
  with g assms have "read_number 16 4 True 16 (show_radix 16 (unat g) @ r) = Some (unat g, r)"
    by (intro read_number_show) simp_all
  then show ?thesis
    by (simp add: read_group_def)
qed

lemma read_group_colon: "read_group [] = None" "read_group (58 # s) = None" "read_group (93 # s) = None"
  by (simp_all add: read_group_def read_number_def to_digit_def)

lemma hex_no_dot: "46 \<notin> set (show_radix 16 n)"
  by (auto elim!: show_radix_digits [rotated] simp: digit_char_def split: if_splits)

lemma fmt_no_dot: "46 \<notin> set (fmt_subslice gs)"
  by (induction gs rule: fmt_subslice.induct) (simp_all add: hex_no_dot)

definition stops_groups :: "rstr \<Rightarrow> bool" where
  "stops_groups r \<longleftrightarrow> 46 \<notin> set r \<and> (r = [] \<or> (\<exists>s. r = 58 # 58 # s) \<or> (\<exists>s. r = 93 # s))"

lemma stops_groups_ends [simp]: "stops_groups r \<Longrightarrow> ends_number 16 r" "stops_groups r \<Longrightarrow> ends_number 10 r"
  by (auto simp: stops_groups_def ends_number_def to_digit_def)

lemma stops_groups_Nil [simp]: "stops_groups []"
  by (simp add: stops_groups_def)

lemma read_groups_stop:
  "stops_groups r \<Longrightarrow> 0 < i \<Longrightarrow> read_groups limit i r = ([], False, r)"
  by (auto simp: read_groups.simps [of limit i r] stops_groups_def read_separator_def
      read_given_char_def read_ipv4_no_dot read_group_colon)

lemma read_groups_stop_0:
  "stops_groups r \<Longrightarrow> read_groups limit 0 r = ([], False, r)"
  by (auto simp: read_groups.simps [of limit 0 r] stops_groups_def read_separator_def
      read_given_char_def read_ipv4_no_dot read_group_colon)

lemma read_groups_full [simp]: "read_groups limit limit s = ([], False, s)"
  by (simp add: read_groups.simps [of limit limit])

lemma read_groups_fmt:
  assumes "gs \<noteq> []" and "i + length gs \<le> limit" and "stops_groups r"
  shows "read_groups limit i ((if i > 0 then [58] else []) @ fmt_subslice gs @ r) = (gs, False, r)"
  using assms(1,2)
proof (induction gs arbitrary: i rule: fmt_subslice.induct)
  case 1
  then show ?case by simp
next
  case (2 g)
  have "46 \<notin> set (show_radix 16 (unat g) @ r)"
    using assms(3) by (simp add: hex_no_dot stops_groups_def)
  then show ?case
    using 2 assms(3) read_groups_stop [of r "Suc i" limit]
    by (cases "i = 0") (simp_all add: read_groups.simps [of limit 0] read_groups.simps [of limit i]
        read_separator_def read_given_char_def
        read_ipv4_no_dot read_group_show)
next
  case (3 g g' gs)
  let ?s = "58 # fmt_subslice (g' # gs) @ r"
  have "46 \<notin> set (show_radix 16 (unat g) @ ?s)"
    using assms(3) fmt_no_dot [of "g' # gs"] by (simp add: hex_no_dot stops_groups_def)
  moreover have "read_groups limit (Suc i) ?s = (g' # gs, False, r)"
    using 3(1) [of "Suc i"] 3(3) by simp
  ultimately show ?case
    using 3(3) by (cases "i = 0")
      (simp_all add: read_groups.simps [of limit i] read_groups.simps [of limit 0]
        read_separator_def read_given_char_def read_ipv4_no_dot read_group_show)
qed

text \<open>The span that \<open>Display\<close> compresses is a run of zero groups.\<close>

definition zero_run :: "u16 list \<Rightarrow> nat \<times> nat \<Rightarrow> bool" where
  "zero_run gs sp \<longleftrightarrow> take (snd sp) (drop (fst sp) gs) = replicate (snd sp) 0"

lemma zero_run_prefix:
  "zero_run pre sp \<Longrightarrow> fst sp + snd sp \<le> length pre \<Longrightarrow> zero_run (pre @ gs) sp"
  by (simp add: zero_run_def)

lemma zero_run_extend:
  assumes "zero_run pre current" and "snd current > 0 \<longrightarrow> fst current + snd current = length pre"
  shows "zero_run (pre @ [0]) (if snd current = 0 then length pre else fst current, Suc (snd current))"
proof (cases "snd current = 0")
  case True
  then show ?thesis by (simp add: zero_run_def)
next
  case False
  then have "drop (fst current) (pre @ [0]) = drop (fst current) pre @ [0]"
    and "length (drop (fst current) pre) = snd current"
    using assms(2) by simp_all
  then show ?thesis
    using assms(1) False by (simp add: zero_run_def replicate_append_same [symmetric])
qed

lemma zero_span_run:
  assumes "zero_run pre longest" and "fst longest + snd longest \<le> length pre"
    and "zero_run pre current" and "snd current > 0 \<longrightarrow> fst current + snd current = length pre"
    and "zero_span (length pre) longest current gs = (start, len)"
  shows "zero_run (pre @ gs) (start, len) \<and> start + len \<le> length (pre @ gs)"
  using assms
proof (induction gs arbitrary: pre longest current)
  case Nil
  then show ?case by auto
next
  case (Cons g gs)
  have l: "zero_run (pre @ [g]) longest" "fst longest + snd longest \<le> length (pre @ [g])"
    using Cons.prems(1,2) by (simp_all add: zero_run_prefix)
  show ?case
  proof (cases "g = 0")
    case False
    have "zero_span (length (pre @ [g])) longest (0, 0) gs = (start, len)"
      using Cons.prems(5) False by simp
    from Cons.IH [OF l _ _ this] show ?thesis
      by (simp add: zero_run_def)
  next
    case True
    define cur where "cur = (if snd current = 0 then length pre else fst current, Suc (snd current))"
    define lo where "lo = (if snd cur > snd longest then cur else longest)"
    have c: "fst cur + snd cur = length (pre @ [g])"
      using Cons.prems(4) by (simp add: cur_def)
    have run: "zero_run (pre @ [g]) cur"
      unfolding True cur_def by (rule zero_run_extend [OF Cons.prems(3,4)])
    have "zero_run (pre @ [g]) lo" "fst lo + snd lo \<le> length (pre @ [g])"
      using l run c by (simp_all add: lo_def)
    moreover have "zero_span (length pre) longest current (g # gs)
        = zero_span (length (pre @ [g])) lo cur gs"
      by (simp add: True cur_def lo_def Let_def)
    ultimately show ?thesis
      using Cons.IH [of "pre @ [g]" lo cur] Cons.prems(5) run c by simp
  qed
qed

lemma zero_span_split:
  assumes "zero_span 0 (0, 0) (0, 0) gs = (start, len)"
  shows "gs = take start gs @ replicate len 0 @ drop (start + len) gs" and "start + len \<le> length gs"
proof -
  have r: "zero_run gs (start, len) \<and> start + len \<le> length gs"
    using zero_span_run [of "[]" "(0, 0)" "(0, 0)" gs start len] assms by (simp add: zero_run_def)
  then show "start + len \<le> length gs" by simp
  have "drop start gs = take len (drop start gs) @ drop len (drop start gs)"
    by (rule append_take_drop_id [symmetric])
  then have "drop start gs = replicate len 0 @ drop (start + len) gs"
    using r by (simp add: zero_run_def add.commute)
  then show "gs = take start gs @ replicate len 0 @ drop (start + len) gs"
    by (metis append_take_drop_id)
qed

lemma read_ipv6_compressed:
  assumes gs: "gs = hd_gs @ replicate len 0 @ tl_gs" and "length gs = 8" and "1 < len" and t: "stops_groups t"
  shows "read_ipv6_addr (fmt_subslice hd_gs @ lit ''::'' @ fmt_subslice tl_gs @ t) = Some (Ipv6 gs, t)"
proof -
  let ?r = "58 # 58 # fmt_subslice tl_gs @ t"
  have len: "length hd_gs + len + length tl_gs = 8"
    using assms(1,2) by simp
  have stop: "stops_groups ?r"
    using fmt_no_dot [of tl_gs] t by (simp add: stops_groups_def)
  have h: "read_groups 8 0 (fmt_subslice hd_gs @ ?r) = (hd_gs, False, ?r)"
  proof (cases "hd_gs = []")
    case True
    then show ?thesis using read_groups_stop_0 [OF stop] by simp
  next
    case False
    then show ?thesis using read_groups_fmt [OF False _ stop, of 0 8] len by simp
  qed
  have tl: "read_groups (8 - (length hd_gs + 1)) 0 (fmt_subslice tl_gs @ t) = (tl_gs, False, t)"
  proof (cases "tl_gs = []")
    case True
    then show ?thesis using read_groups_stop_0 [OF t] by simp
  next
    case False
    then show ?thesis
      using read_groups_fmt [OF False _ t, of 0 "8 - (length hd_gs + 1)"] len assms(3) by simp
  qed
  have "8 - length hd_gs - length tl_gs = len" and "length hd_gs \<noteq> 8"
    using len assms(3) by simp_all
  then show ?thesis
    using h tl by (simp add: read_ipv6_addr_def read_given_char_def gs lit_simps)
qed

lemma read_ipv6_full:
  assumes "length gs = 8" and "stops_groups t"
  shows "read_ipv6_addr (fmt_subslice gs @ t) = Some (Ipv6 gs, t)"
proof -
  have "gs \<noteq> []" using assms by auto
  then have "read_groups 8 0 (fmt_subslice gs @ t) = (gs, False, t)"
    using read_groups_fmt [of gs 0 8 t] assms by simp
  with assms show ?thesis by (simp add: read_ipv6_addr_def)
qed

text \<open>An IPv4-mapped address is printed with a dotted tail and read back as the same groups.\<close>

lemma pairs_be_groups: "pairs_be (be_bytes 2 g @ be_bytes 2 (h :: u16)) = [g, h]" for g :: u16
proof -
  have two: "be_bytes 2 (x :: u16) = [be_bytes 2 x ! 0, be_bytes 2 x ! 1]" for x
    by (simp add: be_bytes_def upt_rec)
  have val: "from_be_bytes [be_bytes 2 x ! 0, be_bytes 2 x ! 1] = x" for x :: u16
    using from_be_bytes_be_bytes [where 'a = 16, of 2 x] two [of x] by simp
  show ?thesis
    by (subst two [of g], subst two [of h]) (simp add: val [simplified])
qed

lemma read_octet_hex: "read_octet (102 # s) = None"
  by (simp add: read_octet_def read_number_def to_digit_def)

lemma read_ipv6_mapped:
  assumes "stops_groups t"
  shows "read_ipv6_addr (lit ''::ffff:'' @ show_ipv4 (Ipv4 a b c d) @ t) =
     Some (Ipv6 [0, 0, 0, 0, 0, 0xFFFF, from_be_bytes [a, b], from_be_bytes [c, d]], t)"
proof -
  let ?v = "show_ipv4 (Ipv4 a b c d) @ t"
  let ?s = "102 # 102 # 102 # 102 # 58 # ?v"
  have v4: "read_ipv4_addr ?v = Some (Ipv4 a b c d, t)"
    using read_ipv4_show [of t "Ipv4 a b c d"] assms by simp
  have h: "read_groups 8 0 (58 # 58 # ?s) = ([], False, 58 # 58 # ?s)"
    by (simp add: read_groups.simps [of 8 0] read_separator_def read_ipv4_addr_def read_octet_def
        read_number_def read_group_colon to_digit_def)
  have n1: "read_ipv4_addr ?s = None"
    by (simp add: read_ipv4_addr_def read_separator_def read_octet_hex del: show_ipv4.simps)
  have "read_group (show_radix 16 (unat (0xFFFF :: u16)) @ 58 # ?v) = Some (0xFFFF, 58 # ?v)"
    by (rule read_group_show) simp
  then have n2: "read_group ?s = Some (0xFFFF, 58 # ?v)"
    by (simp add: show_radix.simps digit_char_def)
  have t1: "read_groups 7 1 (58 # ?v) = ([from_be_bytes [a, b], from_be_bytes [c, d]], True, t)"
    by (simp only: read_groups.simps [of 7 1])
       (simp add: read_separator_def read_given_char_def v4 del: show_ipv4.simps)
  have t: "read_groups 7 0 ?s = ([0xFFFF, from_be_bytes [a, b], from_be_bytes [c, d]], True, t)"
    using t1 by (simp only: read_groups.simps [of 7 0])
       (simp add: read_separator_def n1 n2 del: show_ipv4.simps)
  have e: "lit ''::ffff:'' @ ?v = 58 # 58 # ?s"
    by (simp add: lit_simps)
  show ?thesis
    unfolding e read_ipv6_addr_def h
    using t by (simp add: read_given_char_def numeral_eq_Suc del: show_ipv4.simps)
qed

lemma read_ipv4_colon: "read_ipv4_addr (58 # s) = None"
  by (simp add: read_ipv4_addr_def read_separator_def read_octet_def read_number_def to_digit_def)

lemma read_ipv6_show_then:
  assumes "length gs = 8" and t: "stops_groups t"
  shows "read_ipv4_addr (show_ipv6 (Ipv6 gs) @ t) = None
    \<and> read_ipv6_addr (show_ipv6 (Ipv6 gs) @ t) = Some (Ipv6 gs, t)"
proof (cases "take 6 gs = [0, 0, 0, 0, 0, 0xFFFF]")
  case True
  have gs: "gs = [0, 0, 0, 0, 0, 0xFFFF, gs ! 6, gs ! 7]"
  proof -
    have "drop 6 gs = [gs ! 6, gs ! 7]"
      using assms(1) by (simp add: Cons_nth_drop_Suc [symmetric])
    then show ?thesis
      using True append_take_drop_id [of 6 gs] by simp
  qed
  obtain a b c d where ab: "be_bytes 2 (gs ! 6) = [a, b]" and cd: "be_bytes 2 (gs ! 7) = [c, d]"
    by (simp add: be_bytes_def upt_rec)
  have "from_be_bytes [a, b] = gs ! 6" "from_be_bytes [c, d] = gs ! 7"
    using pairs_be_groups [of "gs ! 6" "gs ! 7"] by (simp_all add: ab cd)
  moreover have "show_ipv6 (Ipv6 gs) = lit ''::ffff:'' @ show_ipv4 (Ipv4 a b c d)"
    using True by (simp add: ab cd ipv4_from_def del: show_ipv4.simps)
  ultimately show ?thesis
    using read_ipv6_mapped [OF t, of a b c d] gs
    by (simp add: read_ipv4_colon lit_simps del: show_ipv4.simps show_ipv6.simps)
next
  case False
  obtain start len where sp: "zero_span 0 (0, 0) (0, 0) gs = (start, len)"
    by (cases "zero_span 0 (0, 0) (0, 0) gs")
  have shown: "show_ipv6 (Ipv6 gs) = (if len > 1 then
      fmt_subslice (take start gs) @ lit ''::'' @ fmt_subslice (drop (start + len) gs)
      else fmt_subslice gs)"
    using False by (simp add: sp)
  then have "46 \<notin> set (show_ipv6 (Ipv6 gs) @ t)"
    using t by (simp add: lit_simps fmt_no_dot stops_groups_def)
  then show ?thesis
    using read_ipv6_compressed [OF zero_span_split(1) [OF sp] assms(1) _ t] read_ipv6_full [OF assms]
    by (simp add: read_ipv4_no_dot shown del: show_ipv6.simps)
qed

lemma read_ipv6_show:
  assumes "length gs = 8"
  shows "read_ipv4_addr (show_ipv6 (Ipv6 gs)) = None
    \<and> read_ipv6_addr (show_ipv6 (Ipv6 gs)) = Some (Ipv6 gs, [])"
  using read_ipv6_show_then [OF assms stops_groups_Nil] by (simp del: show_ipv6.simps)

text \<open>Printing an address and parsing it gives the address back, for both families.\<close>

lemma parse_ip_show:
  assumes "ip_wf a"
  shows "parse_ip (show_ip a) = Some a"
proof (cases a)
  case (V4 b)
  then show ?thesis by (simp add: parse_ip_show_ipv4 del: show_ip.simps)
next
  case (V6 b)
  obtain gs where b: "b = Ipv6 gs" by (cases b)
  with V6 assms have "length gs = 8" by (simp add: ipv6_wf_def)
  from read_ipv6_show [OF this] show ?thesis
    by (simp add: V6 b parse_ip_def parse_with_def read_ip_addr_def del: show_ipv6.simps)
qed

section \<open>The text of an address\<close>

definition ip_char :: "nat \<Rightarrow> bool" where
  "ip_char c \<longleftrightarrow> 48 \<le> c \<and> c \<le> 57 \<or> 97 \<le> c \<and> c \<le> 102 \<or> c = 46 \<or> c = 58"

lemma show_radix_ip_char: "c \<in> set (show_radix 16 n) \<Longrightarrow> ip_char c"
  by (erule show_radix_digits [rotated]) (auto simp: digit_char_def ip_char_def)

lemma show_nat_ip_char: "c \<in> set (show_nat n) \<Longrightarrow> ip_char c \<and> c \<noteq> 58"
  using show_nat_digits [of c n] by (auto simp: ip_char_def)

lemma show_ipv4_ip_char: "c \<in> set (show_ipv4 a) \<Longrightarrow> ip_char c \<and> c \<noteq> 58"
  by (cases a) (auto dest: show_nat_ip_char simp: ip_char_def)

lemma fmt_ip_char: "c \<in> set (fmt_subslice gs) \<Longrightarrow> ip_char c"
  by (induction gs rule: fmt_subslice.induct) (auto dest: show_radix_ip_char simp: ip_char_def)

lemma show_ip_ip_char:
  assumes "c \<in> set (show_ip a)"
  shows "ip_char c"
proof (cases a)
  case (V4 b)
  with assms show ?thesis by (auto dest: show_ipv4_ip_char)
next
  case (V6 b)
  obtain gs where "b = Ipv6 gs" by (cases b)
  with assms V6 show ?thesis
    by (auto simp: lit_simps ip_char_def [of 58] ip_char_def [of 102]
        dest: show_ipv4_ip_char fmt_ip_char split: if_splits prod.splits)
qed

lemma ip_char_ascii: "ip_char c \<Longrightarrow> c < 0x80 \<and> \<not> is_whitespace c \<and> c \<noteq> 47 \<and> c \<noteq> 91 \<and> c \<noteq> 93"
  by (auto simp: ip_char_def is_whitespace_def)

lemma trim_show_ip [simp]: "trim (show_ip a) = show_ip a"
  by (rule trim_id) (auto dest!: show_ip_ip_char ip_char_ascii)

lemma length_show_ipv4: "length (show_ipv4 a) \<le> 15"
proof -
  have "length (show_nat (unat b)) \<le> 3" for b :: u8
    using unat_byte_less [of b] show_radix_length [of "unat b" 10 2] by simp
  note l = this
  obtain p q r s where "a = Ipv4 p q r s" by (cases a)
  with l [of p] l [of q] l [of r] l [of s] show ?thesis by simp
qed

lemma parse_ipv4_show [simp]: "parse_ipv4 (show_ipv4 a) = Some a"
proof -
  have "length (utf8 (show_ipv4 a)) = length (show_ipv4 a)"
    by (rule length_utf8_ascii) (auto dest!: show_ipv4_ip_char simp: ip_char_def)
  then show ?thesis
    using length_show_ipv4 [of a] by (simp add: parse_ipv4_def parse_ipv4_show_nat_list)
qed

lemma parse_ipv6_show [simp]: "ipv6_wf a \<Longrightarrow> parse_ipv6 (show_ipv6 a) = Some a"
  by (cases a) (simp add: parse_ipv6_def parse_with_def read_ipv6_show ipv6_wf_def del: show_ipv6.simps)

lemma show_ipv4_no_colon: "58 \<notin> set (show_ipv4 a)"
  using show_ipv4_ip_char by blast

end
