(* ===== verification/Config.thy ===== *)
theory Config
  imports Rust_Str
begin

text \<open>
  The error type of \<open>crates/warp-masque/src/error.rs\<close> and the device configuration of
  \<open>crates/warp-masque/src/config.rs\<close>: the endpoint helpers, the JSON schema and the \<open>load\<close> and
  \<open>save\<close> of \<open>config.json\<close>. Errors of other crates are kept as their display text. The JSON text
  parser and printer of \<open>serde_json\<close> are parameters; the derived (de)serialisers are modelled on JSON
  values, as their attributes say.
\<close>

section \<open>Errors\<close>

datatype error =
    Key rstr
  | Api nat rstr
  | Response rstr
  | Config rstr
  | Http rstr
  | Json rstr
  | Io rstr
  | Tunnel rstr

fun error_text :: "error \<Rightarrow> rstr" where
  "error_text (Key s) = lit ''key error: '' @ s"
| "error_text (Api status body) =
     lit ''registration API returned HTTP '' @ show_nat status @ lit '': '' @ body"
| "error_text (Response s) = lit ''unexpected registration response: '' @ s"
| "error_text (Config s) = lit ''config error: '' @ s"
| "error_text (Http e) = lit ''http transport error: '' @ e"
| "error_text (Json e) = lit ''json error: '' @ e"
| "error_text (Io e) = lit ''io error: '' @ e"
| "error_text (Tunnel s) = lit ''tunnel error: '' @ s"

text \<open>
  \<open>{:?}\<close> of a string, for the messages that quote an input: the named escapes, and the hexadecimal
  escape of the other ASCII control characters. Characters beyond ASCII are printed as they are (the
  library also escapes the unprintable ones among them).
\<close>

definition debug_char :: "nat \<Rightarrow> rstr" where
  "debug_char c =
     (if c = 0 then lit [CHR 0x5C, CHR ''0'']
      else if c = 9 then lit [CHR 0x5C, CHR ''t'']
      else if c = 10 then lit [CHR 0x5C, CHR ''n'']
      else if c = 13 then lit [CHR 0x5C, CHR ''r'']
      else if c = 34 \<or> c = 92 then [92, c]
      else if c < 32 \<or> c = 127 then lit [CHR 0x5C, CHR ''u'', CHR 0x7B] @ show_radix 16 c @ [0x7D]
      else [c])"

definition debug_str :: "rstr \<Rightarrow> rstr" where
  "debug_str s = [34] @ concat (map debug_char s) @ [34]"

section \<open>Endpoint strings\<close>

definition strip_v4_port :: "rstr \<Rightarrow> error + rstr" where
  "strip_v4_port s0 =
     (let s = trim s0 in
      case (case rsplit_once 58 s of
              Some (host, port) \<Rightarrow> if host \<noteq> [] then Some host else None
            | None \<Rightarrow> None) of
        Some host \<Rightarrow> Inr host
      | None \<Rightarrow>
          if s \<noteq> [] then Inr s
          else Inl (Response (lit ''empty IPv4 endpoint '' @ debug_str s)))"

definition strip_v6_brackets :: "rstr \<Rightarrow> error + rstr" where
  "strip_v6_brackets s0 =
     (let s = trim s0 in
      case (case (find_char 91 s, rfind_char 93 s) of
              (Some start, Some stop) \<Rightarrow>
                if stop > start then Some (take (stop - (start + 1)) (drop (start + 1) s)) else None
            | _ \<Rightarrow> None) of
        Some host \<Rightarrow> Inr host
      | None \<Rightarrow>
          if s \<noteq> [] then Inr s
          else Inl (Response (lit ''empty IPv6 endpoint '' @ debug_str s)))"

lemma find_char_Some_iff:
  "find_char c s = Some i \<longleftrightarrow> i < length s \<and> s ! i = c \<and> c \<notin> set (take i s)"
proof (induction s arbitrary: i)
  case (Cons x s)
  then show ?case by (cases i) auto
qed simp

lemma find_char_append: "c \<notin> set a \<Longrightarrow> find_char c (a @ c # b) = Some (length a)"
  by (induction a) auto

lemma rfind_char_append: "c \<notin> set b \<Longrightarrow> rfind_char c (a @ c # b) = Some (length a)"
  by (simp add: rfind_char_def find_char_append)

lemma strip_v4_port_port:
  assumes "trim s = host @ 58 # port" and "58 \<notin> set port" and "host \<noteq> []"
  shows "strip_v4_port s = Inr host"
  using assms rsplit_once_Some_iff [of 58 "trim s" host port]
  by (simp add: strip_v4_port_def Let_def)

lemma strip_v4_port_bare:
  assumes "58 \<notin> set (trim s)" and "trim s \<noteq> []"
  shows "strip_v4_port s = Inr (trim s)"
  using assms rsplit_once_None_iff [of 58 "trim s"]
  by (simp add: strip_v4_port_def Let_def)

lemma strip_v6_brackets_port:
  assumes "trim s = 91 # host @ 93 # port" and "93 \<notin> set port"
  shows "strip_v6_brackets s = Inr host"
  using assms rfind_char_append [of 93 port "91 # host"]
  by (simp add: strip_v6_brackets_def Let_def)

lemma find_char_None_iff: "find_char c s = None \<longleftrightarrow> c \<notin> set s"
  by (induction s) auto

lemma strip_v6_brackets_bare:
  assumes "91 \<notin> set (trim s)" and "trim s \<noteq> []"
  shows "strip_v6_brackets s = Inr (trim s)"
  using assms find_char_None_iff [of 91 "trim s"] by (simp add: strip_v6_brackets_def Let_def)

lemma strip_v4_port_error_iff: "(\<exists>e. strip_v4_port s = Inl e) \<longleftrightarrow> trim s = []"
  by (cases "rsplit_once 58 (trim s)") (auto simp: strip_v4_port_def Let_def rsplit_once_Some_iff split: if_splits)

lemma strip_v6_brackets_error_iff: "(\<exists>e. strip_v6_brackets s = Inl e) \<longleftrightarrow> trim s = []"
proof (cases "trim s = []")
  case False
  then show ?thesis
    by (cases "find_char 91 (trim s)"; cases "rfind_char 93 (trim s)")
      (simp_all add: strip_v6_brackets_def Let_def)
qed (simp add: strip_v6_brackets_def Let_def)

section \<open>The configuration\<close>

definition DEFAULT_ENDPOINT_H2_V4 :: rstr where
  "DEFAULT_ENDPOINT_H2_V4 = lit ''162.159.198.2''"

record warp_config =
  private_key :: rstr
  endpoint_v4 :: rstr
  endpoint_v6 :: rstr
  endpoint_h2_v4 :: rstr
  endpoint_h2_v6 :: rstr
  endpoint_pub_key :: rstr
  device_id :: rstr
  access_token :: rstr
  cfg_ipv4 :: rstr
  cfg_ipv6 :: rstr

text \<open>JSON values, as \<open>serde_json::Value\<close> has them (numbers as integers).\<close>

datatype json =
    JNull
  | JBool bool
  | JNum int
  | JStr rstr
  | JArr "json list"
  | JObj "(rstr \<times> json) list"

definition config_to_json :: "warp_config \<Rightarrow> json" where
  "config_to_json c = JObj
     [(lit ''private_key'', JStr (private_key c)),
      (lit ''endpoint_v4'', JStr (endpoint_v4 c)),
      (lit ''endpoint_v6'', JStr (endpoint_v6 c)),
      (lit ''endpoint_h2_v4'', JStr (endpoint_h2_v4 c)),
      (lit ''endpoint_h2_v6'', JStr (endpoint_h2_v6 c)),
      (lit ''endpoint_pub_key'', JStr (endpoint_pub_key c)),
      (lit ''id'', JStr (device_id c)),
      (lit ''access_token'', JStr (access_token c)),
      (lit ''ipv4'', JStr (cfg_ipv4 c)),
      (lit ''ipv6'', JStr (cfg_ipv6 c))]"

text \<open>
  A field of a derived \<open>Deserialize\<close>: an error when it occurs twice or is not a string, its default
  when it is absent and \<open>#[serde(default)]\<close>, an error when it is absent without a default. Unknown
  fields are ignored.
\<close>

definition string_field :: "(rstr \<times> json) list \<Rightarrow> rstr \<Rightarrow> rstr option \<Rightarrow> error + rstr" where
  "string_field fs name deflt =
     (case filter (\<lambda>(k, _). k = name) fs of
        [] \<Rightarrow> ok_or (Json (lit ''missing field `'' @ name @ lit ''`'')) deflt
      | [(_, JStr s)] \<Rightarrow> Inr s
      | [_] \<Rightarrow> Inl (Json (lit ''invalid type, expected a string''))
      | _ \<Rightarrow> Inl (Json (lit ''duplicate field `'' @ name @ lit ''`'')))"

definition config_from_json :: "json \<Rightarrow> error + warp_config" where
  "config_from_json j =
     (case j of
        JObj fs \<Rightarrow>
          rbind (string_field fs (lit ''private_key'') None) (\<lambda>pk.
          rbind (string_field fs (lit ''endpoint_v4'') None) (\<lambda>v4.
          rbind (string_field fs (lit ''endpoint_v6'') None) (\<lambda>v6.
          rbind (string_field fs (lit ''endpoint_h2_v4'') (Some [])) (\<lambda>h4.
          rbind (string_field fs (lit ''endpoint_h2_v6'') (Some [])) (\<lambda>h6.
          rbind (string_field fs (lit ''endpoint_pub_key'') None) (\<lambda>pub.
          rbind (string_field fs (lit ''id'') None) (\<lambda>i.
          rbind (string_field fs (lit ''access_token'') None) (\<lambda>tok.
          rbind (string_field fs (lit ''ipv4'') None) (\<lambda>a4.
          rbind (string_field fs (lit ''ipv6'') None) (\<lambda>a6.
          Inr \<lparr>private_key = pk, endpoint_v4 = v4, endpoint_v6 = v6, endpoint_h2_v4 = h4,
               endpoint_h2_v6 = h6, endpoint_pub_key = pub, device_id = i, access_token = tok,
               cfg_ipv4 = a4, cfg_ipv6 = a6\<rparr>))))))))))
      | _ \<Rightarrow> Inl (Json (lit ''invalid type, expected struct WarpConfig'')))"

lemma config_roundtrip: "config_from_json (config_to_json c) = Inr c"
  by (simp add: config_from_json_def config_to_json_def string_field_def)

section \<open>Files\<close>

text \<open>
  A file system is a map from paths to the bytes and permission bits of a file; \<open>umask_mode\<close> are the
  bits \<open>std::fs::write\<close> gives a file it creates (an existing file keeps its bits). \<open>fail\<close> says which of
  the operations the operating system refuses.
\<close>

record fs_file =
  file_bytes :: bytes
  file_mode :: nat

datatype fs_op = OpRead | OpWrite | OpChmod | OpMkdir

type_synonym fs = "rstr \<rightharpoonup> fs_file"

definition fs_write :: "nat \<Rightarrow> rstr \<Rightarrow> bytes \<Rightarrow> fs \<Rightarrow> fs" where
  "fs_write umask_mode path bs fs =
     fs(path \<mapsto> \<lparr>file_bytes = bs,
        file_mode = (case fs path of None \<Rightarrow> umask_mode | Some f \<Rightarrow> file_mode f)\<rparr>)"

definition fs_chmod :: "rstr \<Rightarrow> nat \<Rightarrow> fs \<Rightarrow> fs" where
  "fs_chmod path m fs = (case fs path of None \<Rightarrow> fs | Some f \<Rightarrow> fs(path \<mapsto> f\<lparr>file_mode := m\<rparr>))"

definition load_config :: "(bytes \<Rightarrow> rstr + json) \<Rightarrow> (fs_op \<Rightarrow> rstr option) \<Rightarrow> rstr \<Rightarrow> fs
    \<Rightarrow> error + warp_config" where
  "load_config parse fail path fs =
     (case (fail OpRead, fs path) of
        (Some e, _) \<Rightarrow> Inl (Io e)
      | (None, None) \<Rightarrow> Inl (Io (lit ''No such file or directory (os error 2)''))
      | (None, Some f) \<Rightarrow> rbind (map_err Json (parse (file_bytes f))) config_from_json)"

text \<open>
  \<open>save\<close> as the file systems it goes through: the private permissions are set after the contents are
  written (\<open>#[cfg(unix)]\<close>). The last one is the final state.
\<close>

definition save_config :: "(json \<Rightarrow> rstr + bytes) \<Rightarrow> (fs_op \<Rightarrow> rstr option) \<Rightarrow> nat \<Rightarrow> warp_config
    \<Rightarrow> rstr \<Rightarrow> fs \<Rightarrow> (error + unit) \<times> fs list" where
  "save_config print fail umask_mode c path fs =
     (case print (config_to_json c) of
        Inl e \<Rightarrow> (Inl (Json e), [fs])
      | Inr js \<Rightarrow>
          (case fail OpWrite of
             Some e \<Rightarrow> (Inl (Io e), [fs])
           | None \<Rightarrow>
               (let fs1 = fs_write umask_mode path js fs in
                case fail OpChmod of
                  Some e \<Rightarrow> (Inl (Io e), [fs, fs1])
                | None \<Rightarrow> (Inr (), [fs, fs1, fs_chmod path 384 fs1]))))"

lemma save_config_final:
  assumes "print (config_to_json c) = Inr js" and "fail OpWrite = None" and "fail OpChmod = None"
  shows "save_config print fail um c path fs
    = (Inr (), [fs, fs_write um path js fs, fs(path \<mapsto> \<lparr>file_bytes = js, file_mode = 384\<rparr>)])"
  using assms by (simp add: save_config_def fs_write_def fs_chmod_def Let_def)

lemma save_config_ok_iff:
  "fst (save_config print fail um c path fs) = Inr () \<longleftrightarrow>
     is_ok (print (config_to_json c)) \<and> fail OpWrite = None \<and> fail OpChmod = None"
  by (auto simp: save_config_def Let_def split: sum.splits option.splits)

lemma save_config_okE:
  assumes "save_config print fail um c path fs = (Inr (), states)"
  obtains js where "print (config_to_json c) = Inr js"
    and "last states = fs(path \<mapsto> \<lparr>file_bytes = js, file_mode = 384\<rparr>)"
proof -
  from assms save_config_ok_iff [of "print" fail um c path fs]
  obtain js where js: "print (config_to_json c) = Inr js" "fail OpWrite = None" "fail OpChmod = None"
    by (cases "print (config_to_json c)") auto
  from that [OF js(1)] assms save_config_final [of "print", OF js] show thesis by auto
qed

lemma save_config_states:
  assumes "g \<in> set (snd (save_config print fail um c path fs))"
  shows "g = fs \<or> (\<exists>f. g = fs(path \<mapsto> f))"
  using assms
  by (auto simp: save_config_def fs_write_def fs_chmod_def Let_def
      split: sum.splits option.splits)

text \<open>
  C31. Saving a configuration and loading it again gives the same configuration, whatever was at the
  path: provided the JSON library parses what it prints, a \<open>save\<close> that succeeds leaves the file owned
  with mode \<open>0600\<close>, leaves every other file alone, and a later \<open>load\<close> that can read it returns exactly
  the saved record.
\<close>

theorem save_then_load:
  assumes "\<And>j bs. print j = Inr bs \<Longrightarrow> parse bs = Inr j"
    and "save_config print fail um c path fs = (Inr (), states)"
    and "fail' OpRead = None"
  shows "load_config parse fail' path (last states) = Inr c
    \<and> map_option file_mode (last states path) = Some 384
    \<and> (\<forall>q. q \<noteq> path \<longrightarrow> last states q = fs q)"
proof -
  obtain js where js: "print (config_to_json c) = Inr js"
    and "last states = fs(path \<mapsto> \<lparr>file_bytes = js, file_mode = 384\<rparr>)"
    using assms(2) by (rule save_config_okE)
  with assms(1) [OF js] assms(3) show ?thesis
    by (simp add: load_config_def config_roundtrip)
qed

text \<open>A serialiser that is a bijection on the values \<open>save\<close> writes, to run the round trip on.\<close>

definition sample_config :: warp_config where
  "sample_config = \<lparr>private_key = [112], endpoint_v4 = [52], endpoint_v6 = [54],
     endpoint_h2_v4 = [], endpoint_h2_v6 = [], endpoint_pub_key = [80], device_id = [100],
     access_token = [116], cfg_ipv4 = [49], cfg_ipv6 = [50]\<rparr>"

definition sample_print :: "json \<Rightarrow> rstr + bytes" where
  "sample_print j = (if j = config_to_json sample_config then Inr [1, 2] else Inl [])"

definition sample_parse :: "bytes \<Rightarrow> rstr + json" where
  "sample_parse bs = (if bs = [1, 2] then Inr (config_to_json sample_config) else Inl [])"

lemma save_then_load_witness:
  "load_config sample_parse (\<lambda>_. None) [99]
      (last (snd (save_config sample_print (\<lambda>_. None) 420 sample_config [99] Map.empty)))
   = Inr sample_config"
proof -
  have s: "save_config sample_print (\<lambda>_. None) 420 sample_config [99] Map.empty
      = (Inr (), snd (save_config sample_print (\<lambda>_. None) 420 sample_config [99] Map.empty))"
    by (simp add: save_config_def sample_print_def Let_def)
  have p: "\<And>j bs. sample_print j = Inr bs \<Longrightarrow> sample_parse bs = Inr j"
    by (auto simp: sample_print_def sample_parse_def split: if_splits)
  show ?thesis
    using save_then_load [OF p s] by simp
qed

end
