(* ===== verification/Keys.thy ===== *)
theory Keys
  imports Config
begin

text \<open>
  The device identity of \<open>crates/warp-masque/src/keys.rs\<close>. The P-256, DER and base64 libraries are
  parameters, gathered in the record \<open>key_lib\<close>; random bytes are arguments. What is modelled is the
  composition of these encodings into the strings kept in \<open>config.json\<close> and sent on enrolment.
\<close>

record ('sk, 'pk) key_lib =
  b64_encode :: "bytes \<Rightarrow> rstr"
  b64_decode :: "rstr \<Rightarrow> rstr + bytes"
  from_sec1_der :: "bytes \<Rightarrow> rstr + 'sk"
  to_sec1_der :: "'sk \<Rightarrow> rstr + bytes"
  public_of :: "'sk \<Rightarrow> 'pk"
  to_spki_der :: "'pk \<Rightarrow> rstr + bytes"
  from_spki_der :: "bytes \<Rightarrow> rstr + 'pk"
  from_spki_pem :: "rstr \<Rightarrow> rstr + 'pk"

record 'sk device_keypair =
  secret :: 'sk

text \<open>\<open>DeviceKeypair::generate\<close>, from the key the random generator gives.\<close>

definition generate_key :: "'sk \<Rightarrow> 'sk device_keypair" where
  [simp]: "generate_key s = \<lparr>secret = s\<rparr>"

definition from_private_b64 :: "('sk, 'pk, 'z) key_lib_scheme \<Rightarrow> rstr \<Rightarrow> error + 'sk device_keypair" where
  "from_private_b64 L b64 =
     rbind (map_err (\<lambda>e. Key (lit ''base64 private key: '' @ e)) (b64_decode L (trim b64))) (\<lambda>der.
     rbind (map_err (\<lambda>e. Key (lit ''parse SEC1 private key: '' @ e)) (from_sec1_der L der)) (\<lambda>s.
     Inr \<lparr>secret = s\<rparr>))"

definition private_b64 :: "('sk, 'pk, 'z) key_lib_scheme \<Rightarrow> 'sk device_keypair \<Rightarrow> error + rstr" where
  "private_b64 L kp =
     rbind (map_err (\<lambda>e. Key (lit ''encode SEC1 private key: '' @ e)) (to_sec1_der L (secret kp)))
       (\<lambda>doc. Inr (b64_encode L doc))"

definition public_spki_b64 :: "('sk, 'pk, 'z) key_lib_scheme \<Rightarrow> 'sk device_keypair \<Rightarrow> error + rstr" where
  "public_spki_b64 L kp =
     rbind (map_err (\<lambda>e. Key (lit ''encode SPKI public key: '' @ e))
              (to_spki_der L (public_of L (secret kp))))
       (\<lambda>der. Inr (b64_encode L der))"

definition random_wg_pubkey_b64 :: "('sk, 'pk, 'z) key_lib_scheme \<Rightarrow> bytes \<Rightarrow> rstr" where
  "random_wg_pubkey_b64 L buf = b64_encode L buf"

definition random_android_serial :: "bytes \<Rightarrow> rstr" where
  "random_android_serial buf = concat (map hex_byte buf)"

lemma length_random_android_serial: "length (random_android_serial buf) = 2 * length buf"
  by (induction buf) (simp_all add: random_android_serial_def)

text \<open>
  The documented laws of the libraries that the stored key relies on: decoding inverts encoding, and
  the base64 alphabet has no whitespace for \<open>trim\<close> to remove.
\<close>

definition key_lib_laws :: "('sk, 'pk, 'z) key_lib_scheme \<Rightarrow> bool" where
  "key_lib_laws L \<longleftrightarrow>
     (\<forall>bs. b64_decode L (b64_encode L bs) = Inr bs \<and> trim (b64_encode L bs) = b64_encode L bs) \<and>
     (\<forall>s der. to_sec1_der L s = Inr der \<longrightarrow> from_sec1_der L der = Inr s) \<and>
     (\<forall>p der. to_spki_der L p = Inr der \<longrightarrow> from_spki_der L der = Inr p)"

lemma private_key_roundtrip:
  assumes "key_lib_laws L" and "private_b64 L kp = Inr s"
  shows "from_private_b64 L s = Inr kp"
proof -
  from assms(2) obtain der where d: "to_sec1_der L (secret kp) = Inr der" "s = b64_encode L der"
    by (auto simp: private_b64_def result_simps)
  moreover have "from_sec1_der L der = Inr (secret kp)" "b64_decode L (trim s) = Inr der"
    using assms(1) d by (auto simp: key_lib_laws_def)
  ultimately show ?thesis
    by (simp add: from_private_b64_def)
qed

lemma public_key_roundtrip:
  assumes "key_lib_laws L" and "public_spki_b64 L kp = Inr s"
  shows "\<exists>der. b64_decode L s = Inr der \<and> from_spki_der L der = Inr (public_of L (secret kp))"
proof -
  from assms(2) obtain der where "to_spki_der L (public_of L (secret kp)) = Inr der" "s = b64_encode L der"
    by (auto simp: public_spki_b64_def result_simps)
  with assms(1) show ?thesis by (auto simp: key_lib_laws_def)
qed

text \<open>A small key library, for concrete runs: keys are numbers, DER is the bare byte.\<close>

definition toy_keys :: "(u8, u8) key_lib" where
  "toy_keys = \<lparr>b64_encode = (\<lambda>bs. concat (map hex_byte bs)),
     b64_decode = (\<lambda>s. Inr (if s = [] then [] else [of_nat (the (digits_val 16 s))])),
     from_sec1_der = (\<lambda>bs. case bs of [b] \<Rightarrow> Inr b | _ \<Rightarrow> Inl []), to_sec1_der = (\<lambda>b. Inr [b]),
     public_of = (\<lambda>b. b + 1), to_spki_der = (\<lambda>b. Inr [b]),
     from_spki_der = (\<lambda>bs. case bs of [b] \<Rightarrow> Inr b | _ \<Rightarrow> Inl []),
     from_spki_pem = (\<lambda>s. case s of [c] \<Rightarrow> Inr (of_nat c) | _ \<Rightarrow> Inl [])\<rparr>"

end
