(* ===== verification/Tls.thy ===== *)
theory Tls
  imports Keys
begin

text \<open>
  The mTLS identity and the endpoint pinning of \<open>crates/warp-masque/src/tls.rs\<close>. The X.509 parser,
  the certificate generator and the handshake signature checks are parameters (\<open>tls_lib\<close>); times are
  seconds, and \<open>rustls::Error::General\<close> is its message.
\<close>

record ('sk, 'pk, 'cert) tls_lib = "('sk, 'pk) key_lib" +
  to_pkcs8_der :: "'sk \<Rightarrow> rstr + bytes"
  rcgen_key :: "bytes \<Rightarrow> rstr + bytes"
  rcgen_params :: "rstr + unit"
  self_sign :: "bytes \<Rightarrow> int \<Rightarrow> int \<Rightarrow> rstr + bytes"
  cert_from_der :: "bytes \<Rightarrow> rstr + 'cert"
  cert_spki_der :: "'cert \<Rightarrow> rstr + bytes"
  tls13_versions :: "rstr + unit"
  accept_identity :: "bytes list \<Rightarrow> bytes \<Rightarrow> rstr + unit"
  check_signature :: "bool \<Rightarrow> bytes \<Rightarrow> bytes \<Rightarrow> bytes \<Rightarrow> rstr + unit"

section \<open>The client identity\<close>

record client_identity =
  cert_der :: bytes
  key_der :: bytes

definition self_signed_identity :: "('sk, 'pk, 'cert) tls_lib \<Rightarrow> int \<Rightarrow> 'sk device_keypair
    \<Rightarrow> error + client_identity" where
  "self_signed_identity L now kp =
     rbind (map_err (\<lambda>e. Key (lit ''pkcs8 encode: '' @ e)) (to_pkcs8_der L (secret kp))) (\<lambda>pkcs8.
     rbind (map_err (\<lambda>e. Key (lit ''rcgen key: '' @ e)) (rcgen_key L pkcs8)) (\<lambda>k.
     rbind (map_err Key (rcgen_params L)) (\<lambda>_.
     let not_before = now - 3600; not_after = now + 24 * 3600 in
     rbind (map_err (\<lambda>e. Key (lit ''self-sign: '' @ e)) (self_sign L k not_before not_after)) (\<lambda>cert.
     Inr \<lparr>cert_der = cert, key_der = pkcs8\<rparr>))))"

section \<open>The verifiers\<close>

datatype 'pk verifier = PinnedVerifier (pinned: 'pk) | AcceptAny

fun verify_server_cert :: "('sk, 'pk, 'cert) tls_lib \<Rightarrow> 'pk verifier \<Rightarrow> bytes \<Rightarrow> bytes list \<Rightarrow> rstr
    \<Rightarrow> bytes \<Rightarrow> int \<Rightarrow> rstr + unit" where
  "verify_server_cert L (PinnedVerifier pin) end_entity intermediates server_name ocsp now =
     rbind (map_err (\<lambda>e. lit ''parse server cert: '' @ e) (cert_from_der L end_entity)) (\<lambda>cert.
     rbind (map_err (\<lambda>e. lit ''encode server spki: '' @ e) (cert_spki_der L cert)) (\<lambda>spki_der.
     rbind (map_err (\<lambda>e. lit ''server key not P-256: '' @ e) (from_spki_der L spki_der)) (\<lambda>got.
     if got = pin then Inr () else Inl (lit ''endpoint public key mismatch (pin failed)''))))"
| "verify_server_cert L AcceptAny end_entity intermediates server_name ocsp now = Inr ()"

definition verify_tls12_signature :: "('sk, 'pk, 'cert) tls_lib \<Rightarrow> 'pk verifier \<Rightarrow> bytes \<Rightarrow> bytes
    \<Rightarrow> bytes \<Rightarrow> rstr + unit" where
  "verify_tls12_signature L v message cert dss = check_signature L False message cert dss"

definition verify_tls13_signature :: "('sk, 'pk, 'cert) tls_lib \<Rightarrow> 'pk verifier \<Rightarrow> bytes \<Rightarrow> bytes
    \<Rightarrow> bytes \<Rightarrow> rstr + unit" where
  "verify_tls13_signature L v message cert dss = check_signature L True message cert dss"

text \<open>
  The trait \<open>ServerCertVerifier\<close> as the record of its methods, and its two implementations; \<open>schemes\<close> is
  what the algorithms of the crypto provider support.
\<close>

record server_cert_verifier =
  sv_server_cert :: "bytes \<Rightarrow> bytes list \<Rightarrow> rstr \<Rightarrow> bytes \<Rightarrow> int \<Rightarrow> rstr + unit"
  sv_tls12_signature :: "bytes \<Rightarrow> bytes \<Rightarrow> bytes \<Rightarrow> rstr + unit"
  sv_tls13_signature :: "bytes \<Rightarrow> bytes \<Rightarrow> bytes \<Rightarrow> rstr + unit"
  sv_schemes :: "nat list"

definition accept_any_impl :: "('sk, 'pk, 'cert) tls_lib \<Rightarrow> nat list \<Rightarrow> server_cert_verifier" where
  "accept_any_impl L schemes =
     \<lparr>sv_server_cert = (\<lambda>end_entity intermediates server_name ocsp now. Inr ()),
      sv_tls12_signature = check_signature L False, sv_tls13_signature = check_signature L True,
      sv_schemes = schemes\<rparr>"

definition pinned_impl :: "('sk, 'pk, 'cert) tls_lib \<Rightarrow> nat list \<Rightarrow> 'pk \<Rightarrow> server_cert_verifier" where
  "pinned_impl L schemes pin =
     \<lparr>sv_server_cert = verify_server_cert L (PinnedVerifier pin),
      sv_tls12_signature = check_signature L False, sv_tls13_signature = check_signature L True,
      sv_schemes = schemes\<rparr>"

fun verifier_impl :: "('sk, 'pk, 'cert) tls_lib \<Rightarrow> nat list \<Rightarrow> 'pk verifier \<Rightarrow> server_cert_verifier" where
  "verifier_impl L schemes (PinnedVerifier pin) = pinned_impl L schemes pin"
| "verifier_impl L schemes AcceptAny = accept_any_impl L schemes"

text \<open>
  Dispatch through the trait object is dispatch on the verifier. Only the certificate is judged
  differently: both check the handshake signature, with the same algorithms.
\<close>

lemma verifier_impl_server_cert: "sv_server_cert (verifier_impl L schemes v) = verify_server_cert L v"
  by (cases v) (auto simp: pinned_impl_def accept_any_impl_def intro!: ext)

lemma verifier_impl_signatures:
  "sv_tls12_signature (verifier_impl L schemes v) = verify_tls12_signature L v"
  "sv_tls13_signature (verifier_impl L schemes v) = verify_tls13_signature L v"
  "sv_schemes (verifier_impl L schemes v) = schemes"
  by (cases v; auto simp: pinned_impl_def accept_any_impl_def verify_tls12_signature_def
      verify_tls13_signature_def intro!: ext)+

section \<open>Client configurations\<close>

record 'pk client_config =
  cert_verifier :: "'pk verifier"
  client_auth :: "(bytes list \<times> bytes) option"
  alpn_protocols :: "bytes list"

definition tunnel_client_config :: "('sk, 'pk, 'cert) tls_lib \<Rightarrow> int \<Rightarrow> warp_config
    \<Rightarrow> 'sk device_keypair \<Rightarrow> bytes list \<Rightarrow> error + 'pk client_config" where
  "tunnel_client_config L now cfg kp alpn =
     rbind (map_err (\<lambda>e. Config (lit ''endpoint_pub_key not P-256 PEM: '' @ e))
              (from_spki_pem L (trim (endpoint_pub_key cfg)))) (\<lambda>pin.
     rbind (self_signed_identity L now kp) (\<lambda>identity.
     rbind (map_err (\<lambda>e. Config (lit ''rustls versions: '' @ e)) (tls13_versions L)) (\<lambda>_.
     rbind (map_err (\<lambda>e. Config (lit ''client auth cert: '' @ e))
              (accept_identity L [cert_der identity] (key_der identity))) (\<lambda>_.
     Inr \<lparr>cert_verifier = PinnedVerifier pin,
          client_auth = Some ([cert_der identity], key_der identity),
          alpn_protocols = alpn\<rparr>))))"

definition insecure_client_config :: "('sk, 'pk, 'cert) tls_lib \<Rightarrow> bytes list
    \<Rightarrow> error + 'pk client_config" where
  "insecure_client_config L alpn =
     rbind (map_err (\<lambda>e. Config (lit ''rustls versions: '' @ e)) (tls13_versions L)) (\<lambda>_.
     Inr \<lparr>cert_verifier = AcceptAny, client_auth = None, alpn_protocols = alpn\<rparr>)"

text \<open>The key a server certificate carries, as the verifier extracts it.\<close>

definition cert_key :: "('sk, 'pk, 'cert) tls_lib \<Rightarrow> bytes \<Rightarrow> 'pk option" where
  "cert_key L der =
     (case cert_from_der L der of
        Inl _ \<Rightarrow> None
      | Inr cert \<Rightarrow>
          (case cert_spki_der L cert of
             Inl _ \<Rightarrow> None
           | Inr spki \<Rightarrow> ok (from_spki_der L spki)))"

lemma verify_pinned_iff:
  "verify_server_cert L (PinnedVerifier pin) der ints name ocsp t = Inr () \<longleftrightarrow> cert_key L der = Some pin"
  by (auto simp: cert_key_def result_simps split: sum.splits if_splits)

lemma tunnel_client_config_ok:
  assumes "tunnel_client_config L now cfg kp alpn = Inr c"
  obtains pin identity where "from_spki_pem L (trim (endpoint_pub_key cfg)) = Inr pin"
    and "self_signed_identity L now kp = Inr identity"
    and "c = \<lparr>cert_verifier = PinnedVerifier pin,
      client_auth = Some ([cert_der identity], key_der identity), alpn_protocols = alpn\<rparr>"
  using assms by (auto simp: tunnel_client_config_def result_simps)

lemma self_signed_identity_ok:
  assumes "self_signed_identity L now kp = Inr identity"
  obtains k where "to_pkcs8_der L (secret kp) = Inr (key_der identity)"
    and "rcgen_key L (key_der identity) = Inr k"
    and "self_sign L k (now - 3600) (now + 86400) = Inr (cert_der identity)"
  using assms by (auto simp: self_signed_identity_def result_simps)

text \<open>
  The tunnel trusts exactly the enrolled endpoint key: under every configuration that
  \<open>tunnel_client_config\<close> builds, a server certificate is accepted if and only if it parses and
  carries the public key of \<open>endpoint_pub_key\<close>, whatever name, intermediates, OCSP response or time
  come with it; the client authenticates with a certificate made from the device's own key.
\<close>

theorem tunnel_config_pins_endpoint:
  assumes "tunnel_client_config L now cfg kp alpn = Inr c"
  shows "(verify_server_cert L (cert_verifier c) der ints name ocsp t = Inr () \<longleftrightarrow>
       (\<exists>pin. from_spki_pem L (trim (endpoint_pub_key cfg)) = Inr pin \<and> cert_key L der = Some pin))
    \<and> (\<exists>cert pkcs8. client_auth c = Some ([cert], pkcs8) \<and> to_pkcs8_der L (secret kp) = Inr pkcs8)"
  using assms
  by (elim tunnel_client_config_ok self_signed_identity_ok)
    (simp add: verify_pinned_iff del: verify_server_cert.simps)

definition toy_tls :: "(u8, u8, u8) tls_lib" where
  "toy_tls = key_lib.extend toy_keys
     \<lparr>to_pkcs8_der = (\<lambda>k. Inr [k]), rcgen_key = Inr, rcgen_params = Inr (),
      self_sign = (\<lambda>k a b. Inr (k @ [1])),
      cert_from_der = (\<lambda>bs. case bs of [b] \<Rightarrow> Inr b | _ \<Rightarrow> Inl []), cert_spki_der = (\<lambda>b. Inr [b]),
      tls13_versions = Inr (), accept_identity = (\<lambda>_ _. Inr ()),
      check_signature = (\<lambda>_ _ _ _. Inr ())\<rparr>"

lemma tunnel_config_pins_endpoint_witness:
  "(\<exists>c. tunnel_client_config toy_tls 0 (sample_config\<lparr>endpoint_pub_key := [32, 65, 10]\<rparr>) \<lparr>secret = 7\<rparr>
        [[104, 51]] = Inr c \<and> verify_server_cert toy_tls (cert_verifier c) [65] [] [] [] 9 = Inr ()
     \<and> verify_server_cert toy_tls (cert_verifier c) [66] [] [] [] 9 \<noteq> Inr ())"
proof -
  let ?cfg = "sample_config\<lparr>endpoint_pub_key := [32, 65, 10]\<rparr>"
  let ?c = "\<lparr>cert_verifier = PinnedVerifier 65, client_auth = Some ([[7, 1]], [7]),
    alpn_protocols = [[104, 51]]\<rparr>"
  have pin: "from_spki_pem toy_tls (trim (endpoint_pub_key ?cfg)) = Inr 65"
    by (simp add: toy_tls_def toy_keys_def key_lib.defs trim_def trim_start_def trim_end_def
        is_whitespace_def)
  then have c: "tunnel_client_config toy_tls 0 ?cfg \<lparr>secret = 7\<rparr> [[104, 51]] = Inr ?c"
    by (simp add: tunnel_client_config_def self_signed_identity_def toy_tls_def toy_keys_def
        key_lib.defs)
  have key: "cert_key toy_tls [b] = Some b" for b
    by (simp add: cert_key_def toy_tls_def toy_keys_def key_lib.defs)
  show ?thesis
    using tunnel_config_pins_endpoint [OF c, of "[65]" "[]" "[]" "[]" 9]
      tunnel_config_pins_endpoint [OF c, of "[66]" "[]" "[]" "[]" 9]
    by (intro exI [of _ ?c]) (use c pin key in \<open>simp del: verify_server_cert.simps\<close>)
qed

end
