(* ===== verification/Tunnel.thy ===== *)
theory Tunnel
  imports Ip_Addr Tls H2Tunnel
begin

text \<open>
  The CONNECT-IP tunnel of \<open>crates/warp-masque/src/tunnel.rs\<close> and the handshake \<open>connect_h2\<close> of
  \<open>h2tunnel.rs\<close>: endpoint selection, both handshakes as sequences of fallible steps, and the
  HTTP/3 datagram framing with its receive loop. \<open>quinn\<close>, \<open>h3\<close>, \<open>h2\<close> and the operating system
  are the fields of \<open>net_env\<close>: each gives the result of one call from the arguments the program
  passes to it.
\<close>

section \<open>Constants\<close>

definition MASQUE_PORT :: u16 where "MASQUE_PORT = 443"
definition CONNECT_SNI :: rstr where "CONNECT_SNI = lit ''consumer-masque.cloudflareclient.com''"
definition CONNECT_PROTOCOL :: rstr where "CONNECT_PROTOCOL = lit ''cf-connect-ip''"
definition CONNECT_URI :: rstr where "CONNECT_URI = lit ''https://cloudflareaccess.com''"
definition QUIC_CONNECTION_ID_LEN :: nat where "QUIC_CONNECTION_ID_LEN = 20"
definition H3_SETTING_DATAGRAM_00 :: u64 where "H3_SETTING_DATAGRAM_00 = 0x276"
definition TUNNEL_MTU :: nat where "TUNNEL_MTU = 1280"
definition CONTEXT_ID_FULL_PACKET :: u64 where "CONTEXT_ID_FULL_PACKET = 0"

datatype transport = Http3 | Http2

type_synonym sock_addr = "ip_addr \<times> u16"

section \<open>Addresses\<close>

definition quic_endpoint :: "warp_config \<Rightarrow> error + sock_addr" where
  "quic_endpoint cfg =
     (case parse_ipv4 (trim (endpoint_v4 cfg)) of
        Some v4 \<Rightarrow> Inr (V4 v4, MASQUE_PORT)
      | None \<Rightarrow>
          (case parse_ipv6 (trim (endpoint_v6 cfg)) of
             Some v6 \<Rightarrow> Inr (V6 v6, MASQUE_PORT)
           | None \<Rightarrow> Inl (Config (lit ''no usable endpoint (v4='' @ debug_str (endpoint_v4 cfg)
               @ lit '', v6='' @ debug_str (endpoint_v6 cfg) @ lit '')''))))"

definition h2_endpoint :: "warp_config \<Rightarrow> error + sock_addr" where
  "h2_endpoint cfg =
     (let v4 = (if trim (endpoint_h2_v4 cfg) = [] then DEFAULT_ENDPOINT_H2_V4
                else trim (endpoint_h2_v4 cfg)) in
      case parse_ipv4 v4 of
        Some ip \<Rightarrow> Inr (V4 ip, MASQUE_PORT)
      | None \<Rightarrow> Inl (Config (lit ''endpoint_h2_v4 '' @ debug_str v4
          @ lit '': invalid IPv4 address syntax'')))"

definition parse_assigned_v4 :: "rstr \<Rightarrow> error + ipv4" where
  "parse_assigned_v4 s =
     (case parse_ipv4 (trim (hd (split_char 47 (trim s)))) of
        Some a \<Rightarrow> Inr a
      | None \<Rightarrow> Inl (Config (lit ''assigned ipv4 '' @ debug_str s
          @ lit '': invalid IPv4 address syntax'')))"

definition parse_assigned_v6 :: "rstr \<Rightarrow> ipv6 option" where
  "parse_assigned_v6 s = parse_ipv6 (trim (hd (split_char 47 (trim s))))"

section \<open>Handshakes\<close>

record http_request =
  req_method :: rstr
  req_uri :: rstr
  req_headers :: "(rstr \<times> rstr) list"
  req_protocol :: "rstr option"

record 'pk net_env =
  quic_tls :: "'pk client_config \<Rightarrow> rstr + unit"
  idle_timeout :: "nat \<Rightarrow> rstr + unit"
  bind_udp :: "sock_addr \<Rightarrow> rstr + unit"
  endpoint_new :: "nat \<Rightarrow> rstr + unit"
  quic_connect :: "sock_addr \<Rightarrow> rstr \<Rightarrow> rstr + unit"
  quic_handshake :: "'pk client_config \<Rightarrow> sock_addr \<Rightarrow> rstr \<Rightarrow> rstr + unit"
  h3_build :: "bool \<Rightarrow> bool \<Rightarrow> rstr + unit"
  build_request :: "http_request \<Rightarrow> rstr + unit"
  h3_send_request :: "http_request \<Rightarrow> rstr + u64"
  h3_response :: "rstr + nat"
  tcp_connect :: "sock_addr \<Rightarrow> rstr + unit"
  server_name :: "rstr \<Rightarrow> rstr + unit"
  tls_connect :: "'pk client_config \<Rightarrow> sock_addr \<Rightarrow> rstr \<Rightarrow> rstr + unit"
  h2_handshake :: "rstr + unit"
  h2_send_request :: "http_request \<Rightarrow> rstr + unit"
  h2_response :: "rstr + nat"

text \<open>The keep-alive resources a tunnel owns (\<open>_keep\<close>), by what they are.\<close>

datatype resource = Endpoint | DriverTask | RequestStream u64 | SendRequest | PumpTask

datatype tunnel_io = H3 u64 | H2

record tunnel =
  tun_io :: tunnel_io
  tun_status :: nat
  tun_assigned_v4 :: ipv4
  tun_assigned_v6 :: "ipv6 option"
  tun_dead :: bool
  tun_keep :: "resource list"

definition from_parts :: "tunnel_io \<Rightarrow> nat \<Rightarrow> ipv4 \<Rightarrow> ipv6 option \<Rightarrow> bool \<Rightarrow> resource list \<Rightarrow> tunnel" where
  [simp]: "from_parts io st v4 v6 dead keep =
     \<lparr>tun_io = io, tun_status = st, tun_assigned_v4 = v4, tun_assigned_v6 = v6, tun_dead = dead, tun_keep = keep\<rparr>"

definition dial_quic :: "('sk, 'pk, 'cert) tls_lib \<Rightarrow> int \<Rightarrow> 'pk net_env \<Rightarrow> warp_config
    \<Rightarrow> 'sk device_keypair \<Rightarrow> error + unit" where
  "dial_quic L now E cfg kp =
     rbind (quic_endpoint cfg) (\<lambda>addr.
     rbind (tunnel_client_config L now cfg kp [utf8 (lit ''h3'')]) (\<lambda>crypto.
     rbind (map_err (\<lambda>e. Tunnel (lit ''quic tls config: '' @ e)) (quic_tls E crypto)) (\<lambda>_.
     rbind (map_err (\<lambda>e. Tunnel (lit ''idle timeout: '' @ e)) (idle_timeout E 30)) (\<lambda>_.
     let bind_addr = (case fst addr of
            V6 _ \<Rightarrow> (V6 (Ipv6 (replicate 8 0)), 0)
          | V4 _ \<Rightarrow> (V4 (Ipv4 0 0 0 0), 0)) in
     rbind (map_err Io (bind_udp E bind_addr)) (\<lambda>_.
     rbind (map_err (\<lambda>e. Tunnel (lit ''quic endpoint: '' @ e))
              (endpoint_new E QUIC_CONNECTION_ID_LEN)) (\<lambda>_.
     rbind (map_err (\<lambda>e. Tunnel (lit ''connect: '' @ e)) (quic_connect E addr CONNECT_SNI)) (\<lambda>_.
     map_err (\<lambda>e. Tunnel (lit ''handshake: '' @ e)) (quic_handshake E crypto addr CONNECT_SNI))))))))"

definition h3_request :: http_request where
  "h3_request =
     \<lparr>req_method = lit ''CONNECT'', req_uri = CONNECT_URI,
      req_headers = [(lit ''capsule-protocol'', lit ''?1''), (lit ''user-agent'', [])],
      req_protocol = Some CONNECT_PROTOCOL\<rparr>"

definition h2_request :: http_request where
  "h2_request =
     \<lparr>req_method = lit ''CONNECT'', req_uri = CONNECT_URI,
      req_headers = [(lit ''user-agent'', []), (lit ''cf-connect-proto'', lit ''cf-connect-ip''),
        (lit ''pq-enabled'', lit ''false''), (lit ''capsule-protocol'', lit ''?1'')],
      req_protocol = None\<rparr>"

definition connect_h3 :: "('sk, 'pk, 'cert) tls_lib \<Rightarrow> int \<Rightarrow> 'pk net_env \<Rightarrow> warp_config
    \<Rightarrow> 'sk device_keypair \<Rightarrow> error + tunnel" where
  "connect_h3 L now E cfg kp =
     rbind (dial_quic L now E cfg kp) (\<lambda>_.
     rbind (map_err (\<lambda>e. Tunnel (lit ''h3 connect: '' @ e)) (h3_build E True True)) (\<lambda>_.
     rbind (map_err (\<lambda>e. Tunnel (lit ''build request: '' @ e)) (build_request E h3_request)) (\<lambda>_.
     rbind (map_err (\<lambda>e. Tunnel (lit ''send extended CONNECT: '' @ e))
              (h3_send_request E h3_request)) (\<lambda>stream_id.
     rbind (map_err (\<lambda>e. Tunnel (lit ''recv response: '' @ e)) (h3_response E)) (\<lambda>status.
     let quarter_stream_id = stream_id div 4 in
     rbind (parse_assigned_v4 (cfg_ipv4 cfg)) (\<lambda>v4.
     let v6 = parse_assigned_v6 (cfg_ipv6 cfg) in
     Inr (from_parts (H3 quarter_stream_id) status v4 v6 False
       [Endpoint, DriverTask, RequestStream stream_id, SendRequest])))))))"

definition connect_h2 :: "('sk, 'pk, 'cert) tls_lib \<Rightarrow> int \<Rightarrow> 'pk net_env \<Rightarrow> warp_config
    \<Rightarrow> 'sk device_keypair \<Rightarrow> error + tunnel" where
  "connect_h2 L now E cfg kp =
     rbind (h2_endpoint cfg) (\<lambda>ep.
     rbind (map_err Io (tcp_connect E ep)) (\<lambda>_.
     rbind (tunnel_client_config L now cfg kp [utf8 (lit ''h2'')]) (\<lambda>tls_cfg.
     rbind (map_err (\<lambda>e. Tunnel (lit ''sni: '' @ e)) (server_name E CONNECT_SNI)) (\<lambda>_.
     rbind (map_err (\<lambda>e. Tunnel (lit ''h2 tls handshake: '' @ e))
              (tls_connect E tls_cfg ep CONNECT_SNI)) (\<lambda>_.
     rbind (map_err (\<lambda>e. Tunnel (lit ''h2 handshake: '' @ e)) (h2_handshake E)) (\<lambda>_.
     rbind (map_err (\<lambda>e. Tunnel (lit ''build request: '' @ e)) (build_request E h2_request)) (\<lambda>_.
     rbind (map_err (\<lambda>e. Tunnel (lit ''send extended CONNECT: '' @ e))
              (h2_send_request E h2_request)) (\<lambda>_.
     rbind (map_err (\<lambda>e. Tunnel (lit ''recv response: '' @ e)) (h2_response E)) (\<lambda>status.
     rbind (parse_assigned_v4 (cfg_ipv4 cfg)) (\<lambda>v4.
     let v6 = parse_assigned_v6 (cfg_ipv6 cfg) in
     Inr (from_parts H2 status v4 v6 False [DriverTask, PumpTask, PumpTask])))))))))))"

fun connect_with :: "('sk, 'pk, 'cert) tls_lib \<Rightarrow> int \<Rightarrow> 'pk net_env \<Rightarrow> warp_config
    \<Rightarrow> 'sk device_keypair \<Rightarrow> transport \<Rightarrow> error + tunnel" where
  "connect_with L now E cfg kp Http3 = connect_h3 L now E cfg kp"
| "connect_with L now E cfg kp Http2 = connect_h2 L now E cfg kp"

text \<open>\<open>Tunnel::connect\<close>: the default transport.\<close>

definition connect_default :: "('sk, 'pk, 'cert) tls_lib \<Rightarrow> int \<Rightarrow> 'pk net_env \<Rightarrow> warp_config
    \<Rightarrow> 'sk device_keypair \<Rightarrow> error + tunnel" where
  [simp]: "connect_default L now E cfg kp = connect_with L now E cfg kp Http3"

section \<open>HTTP/3 datagrams\<close>

text \<open>
  The QUIC connection as \<open>H3Io\<close> uses it: the datagrams accepted so far, the current
  \<open>max_datagram_size\<close>, the verdict on a datagram and the close reason.
\<close>

record quic_conn =
  dg_sent :: "bytes list"
  max_datagram_size :: "nat option"
  dg_refuse :: "bytes \<Rightarrow> rstr option"
  close_reason :: "rstr option"

definition h3_max_ip_packet :: "u64 \<Rightarrow> quic_conn \<Rightarrow> nat" where
  "h3_max_ip_packet qsid q =
     (let overhead = varint_len qsid + varint_len 0 in
      case max_datagram_size q of Some m \<Rightarrow> m - overhead | None \<Rightarrow> 0)"

definition h3_frame :: "u64 \<Rightarrow> bytes \<Rightarrow> bytes" where
  "h3_frame qsid packet =
     encode_varint (encode_varint [] qsid) CONTEXT_ID_FULL_PACKET @ packet"

definition h3_send_ip :: "u64 \<Rightarrow> bytes \<Rightarrow> quic_conn \<Rightarrow> (error + unit) \<times> quic_conn" where
  "h3_send_ip qsid packet q =
     (let buf = h3_frame qsid packet in
      case dg_refuse q buf of
        None \<Rightarrow> (Inr (), q\<lparr>dg_sent := dg_sent q @ [buf]\<rparr>)
      | Some e \<Rightarrow>
          (let reason = (case close_reason q of
                 Some r \<Rightarrow> lit '' (close reason: '' @ r @ lit '')'' | None \<Rightarrow> []) in
           (Inl (Tunnel (lit ''send datagram: '' @ e @ reason)), q)))"

text \<open>
  \<open>recv_ip\<close> on the results of the next calls to \<open>read_datagram\<close>: \<open>None\<close> is a call still waiting
  after all of them, otherwise the result and the events left.
\<close>

fun h3_recv_ip :: "u64 \<Rightarrow> (rstr + bytes) list \<Rightarrow> ((error + bytes) \<times> (rstr + bytes) list) option" where
  "h3_recv_ip qsid [] = None"
| "h3_recv_ip qsid (Inl e # evs) = Some (Inl (Tunnel (lit ''read datagram: '' @ e)), evs)"
| "h3_recv_ip qsid (Inr dg # evs) =
     (case decode_varint dg of
        None \<Rightarrow> h3_recv_ip qsid evs
      | Some (q, rest) \<Rightarrow>
          (case decode_varint rest of
             None \<Rightarrow> h3_recv_ip qsid evs
           | Some (ctx, rest) \<Rightarrow>
               if q \<noteq> qsid \<or> ctx \<noteq> CONTEXT_ID_FULL_PACKET then h3_recv_ip qsid evs
               else Some (Inr rest, evs)))"

text \<open>A whole capsule stream or datagram, from the flow, context and packet it carries.\<close>

definition datagram :: "u64 \<Rightarrow> u64 \<Rightarrow> bytes \<Rightarrow> bytes" where
  "datagram qsid ctx packet = encode_varint [] qsid @ encode_varint [] ctx @ packet"

lemma h3_frame_eq: "h3_frame qsid packet = datagram qsid CONTEXT_ID_FULL_PACKET packet"
  by (simp add: h3_frame_def datagram_def encode_varint_append [of "encode_varint [] qsid"])

lemma length_h3_frame:
  "length (h3_frame qsid packet) = varint_len qsid + varint_len 0 + length packet"
  by (simp add: h3_frame_def CONTEXT_ID_FULL_PACKET_def)

lemma context_62 [simp]: "CONTEXT_ID_FULL_PACKET < 2 ^ 62"
  by (simp add: CONTEXT_ID_FULL_PACKET_def)

lemma h3_recv_datagram:
  assumes "q < 2 ^ 62" and "ctx < 2 ^ 62"
  shows "h3_recv_ip qsid (Inr (datagram q ctx p) # evs) =
    (if q = qsid \<and> ctx = CONTEXT_ID_FULL_PACKET then Some (Inr p, evs) else h3_recv_ip qsid evs)"
  using vi.dec_two [OF assms, of p] by (simp add: datagram_def)

text \<open>The loop reads on only past datagrams that carry no packet of this flow.\<close>

definition carries :: "u64 \<Rightarrow> bytes \<Rightarrow> bytes option" where
  "carries qsid dg =
     (case decode_varint dg of
        Some (q, rest) \<Rightarrow>
          (case decode_varint rest of
             Some (ctx, p) \<Rightarrow> if q = qsid \<and> ctx = CONTEXT_ID_FULL_PACKET then Some p else None
           | None \<Rightarrow> None)
      | None \<Rightarrow> None)"

lemma h3_recv_ip_step:
  "h3_recv_ip qsid (Inr dg # evs) =
     (case carries qsid dg of Some p \<Rightarrow> Some (Inr p, evs) | None \<Rightarrow> h3_recv_ip qsid evs)"
  by (auto simp: carries_def split: option.splits)

lemma carries_frame [simp]: "qsid < 2 ^ 62 \<Longrightarrow> carries qsid (h3_frame qsid p) = Some p"
  using vi.dec_two [OF _ context_62, of qsid p]
  by (simp add: carries_def h3_frame_eq datagram_def)

section \<open>Draining a receiver\<close>

text \<open>
  The caller of \<open>recv_ip\<close> is the feeder task of \<open>netstack::spawn\<close>, which calls it until the first
  error. \<open>h3_recv_all\<close> are the packets it gets.
\<close>

function h3_recv_all :: "u64 \<Rightarrow> (rstr + bytes) list \<Rightarrow> bytes list" where
  "h3_recv_all qsid evs =
     (case h3_recv_ip qsid evs of
        Some (Inr p, evs') \<Rightarrow> p # h3_recv_all qsid evs'
      | _ \<Rightarrow> [])"
  by pat_completeness auto

lemma h3_recv_ip_shorter: "h3_recv_ip qsid evs = Some (r, evs') \<Longrightarrow> length evs' < length evs"
  by (induction qsid evs rule: h3_recv_ip.induct)
    (auto split: option.splits if_splits simp: less_SucI)

termination h3_recv_all
  by (relation "measure (\<lambda>(qsid, evs). length evs)") (auto dest: h3_recv_ip_shorter)

declare h3_recv_all.simps [simp del]

lemma h3_recv_all_simps:
  "h3_recv_all qsid [] = []"
  "h3_recv_all qsid (Inl e # evs) = []"
  "h3_recv_all qsid (Inr dg # evs) =
     (case carries qsid dg of Some p \<Rightarrow> p # h3_recv_all qsid evs | None \<Rightarrow> h3_recv_all qsid evs)"
proof -
  show "h3_recv_all qsid [] = []" "h3_recv_all qsid (Inl e # evs) = []"
    by (simp_all add: h3_recv_all.simps)
  show "h3_recv_all qsid (Inr dg # evs) =
     (case carries qsid dg of Some p \<Rightarrow> p # h3_recv_all qsid evs | None \<Rightarrow> h3_recv_all qsid evs)"
    by (subst h3_recv_all.simps, simp only: h3_recv_ip_step)
      (simp add: h3_recv_all.simps [of qsid evs] split: option.split)
qed

lemma h3_recv_all_map: "h3_recv_all qsid (map Inr dgs) = List.map_filter (carries qsid) dgs"
  by (induction dgs) (simp_all add: h3_recv_all_simps map_filter_simps split: option.split)

section \<open>Facts about the handshakes\<close>

lemma default_endpoint_h2: "DEFAULT_ENDPOINT_H2_V4 = show_ipv4 (Ipv4 162 159 198 2)"
  by (simp add: DEFAULT_ENDPOINT_H2_V4_def lit_simps show_radix.simps digit_char_def)

text \<open>An assigned address may carry a prefix length, as the registration API sends it.\<close>

lemma parse_assigned_v4_show:
  assumes "\<forall>c \<in> set len. \<not> is_whitespace c"
  shows "parse_assigned_v4 (show_ipv4 a) = Inr a"
    and "parse_assigned_v4 (show_ipv4 a @ 47 # len) = Inr a"
proof -
  have c: "47 \<notin> set (show_ipv4 a)" and w: "\<forall>c \<in> set (show_ipv4 a). \<not> is_whitespace c"
    by (auto dest!: show_ipv4_ip_char ip_char_ascii simp: ip_char_def)
  then have "trim (show_ipv4 a) = show_ipv4 a" "trim (show_ipv4 a @ 47 # len) = show_ipv4 a @ 47 # len"
    using assms by (auto intro!: trim_id simp: is_whitespace_def [of 47])
  with c show "parse_assigned_v4 (show_ipv4 a) = Inr a"
    "parse_assigned_v4 (show_ipv4 a @ 47 # len) = Inr a"
    by (simp_all add: parse_assigned_v4_def split_char_none split_char_Cons)
qed

lemma quic_endpoint_port: "quic_endpoint cfg = Inr a \<Longrightarrow> snd a = 443"
  by (auto simp: quic_endpoint_def MASQUE_PORT_def split: option.splits)

lemma h2_endpoint_port: "h2_endpoint cfg = Inr a \<Longrightarrow> snd a = 443"
  by (auto simp: h2_endpoint_def MASQUE_PORT_def Let_def split: option.splits)

lemma dial_quic_ok:
  assumes "dial_quic L now E cfg kp = Inr ()"
  obtains c pin ip where "from_spki_pem L (trim (endpoint_pub_key cfg)) = Inr pin"
    and "cert_verifier c = PinnedVerifier pin" and "quic_endpoint cfg = Inr (ip, 443)"
    and "alpn_protocols c = [utf8 (lit ''h3'')]"
    and "quic_handshake E c (ip, 443) CONNECT_SNI = Inr ()"
proof -
  from assms obtain a c where d: "quic_endpoint cfg = Inr a"
    "tunnel_client_config L now cfg kp [utf8 (lit ''h3'')] = Inr c"
    "quic_handshake E c a CONNECT_SNI = Inr ()"
    by (auto simp: dial_quic_def result_simps Let_def)
  obtain ip where "a = (ip, 443)"
    using quic_endpoint_port [OF d(1)] by (cases a) auto
  with d(2) d(3) show thesis
    by (elim tunnel_client_config_ok) (rule that, use d(1) \<open>a = (ip, 443)\<close> in auto)
qed

section \<open>Properties\<close>



text \<open>
  \<open>max_ip_packet\<close> is exactly the largest payload: whenever a datagram can hold the header at all,
  a packet fits the current datagram size if and only if it is at most \<open>max_ip_packet\<close> long, and
  without datagram support the limit is 0.
\<close>

theorem h3_max_ip_packet_exact:
  assumes "case max_datagram_size q of Some m \<Rightarrow> varint_len qsid + varint_len 0 \<le> m | None \<Rightarrow> True"
  shows "case max_datagram_size q of
      Some m \<Rightarrow> length (h3_frame qsid packet) \<le> m \<longleftrightarrow> length packet \<le> h3_max_ip_packet qsid q
    | None \<Rightarrow> h3_max_ip_packet qsid q = 0"
  using assms by (auto simp: h3_max_ip_packet_def length_h3_frame split: option.splits)

theorem h3_max_ip_packet_exact_witness:
  "length (h3_frame 0 (replicate 1198 0)) \<le> 1200"
  using h3_max_ip_packet_exact [where qsid = 0 and packet = "replicate 1198 0" and
      q = "\<lparr>dg_sent = [], max_datagram_size = Some 1200, dg_refuse = (\<lambda>_. None), close_reason = None\<rparr>"]
  by (simp add: h3_max_ip_packet_def varint_len_def)

text \<open>
  C17. A tunnel exists only after an authenticated handshake with the configured endpoint: whatever
  the transport, \<open>connect_with\<close> succeeds only if a handshake succeeded to the address of the
  configuration on port 443, under a verifier that pins \<open>endpoint_pub_key\<close>, with the ALPN of that
  transport; the tunnel reports the addresses of the configuration and the status of the response.
\<close>

theorem connect_authenticates_endpoint:
  assumes "connect_with L now E cfg kp tr = Inr t"
  shows "\<exists>c pin ip. from_spki_pem L (trim (endpoint_pub_key cfg)) = Inr pin
    \<and> cert_verifier c = PinnedVerifier pin
    \<and> (case tr of
         Http3 \<Rightarrow> quic_endpoint cfg = Inr (ip, 443) \<and> alpn_protocols c = [utf8 (lit ''h3'')]
           \<and> quic_handshake E c (ip, 443) CONNECT_SNI = Inr () \<and> h3_response E = Inr (tun_status t)
           \<and> (\<exists>sid. h3_send_request E h3_request = Inr sid \<and> tun_io t = H3 (sid div 4))
       | Http2 \<Rightarrow> h2_endpoint cfg = Inr (ip, 443) \<and> alpn_protocols c = [utf8 (lit ''h2'')]
           \<and> tls_connect E c (ip, 443) CONNECT_SNI = Inr () \<and> h2_response E = Inr (tun_status t)
           \<and> tun_io t = H2)
    \<and> parse_assigned_v4 (cfg_ipv4 cfg) = Inr (tun_assigned_v4 t)
    \<and> tun_assigned_v6 t = parse_assigned_v6 (cfg_ipv6 cfg) \<and> \<not> tun_dead t"
proof (cases tr)
  case Http3
  with assms obtain sid where d: "dial_quic L now E cfg kp = Inr ()"
    and t: "h3_send_request E h3_request = Inr sid" "tun_io t = H3 (sid div 4)"
      "h3_response E = Inr (tun_status t)" "parse_assigned_v4 (cfg_ipv4 cfg) = Inr (tun_assigned_v4 t)"
      "tun_assigned_v6 t = parse_assigned_v6 (cfg_ipv6 cfg)" "\<not> tun_dead t"
    by (auto simp: connect_h3_def result_simps Let_def)
  from dial_quic_ok [OF d] obtain c pin ip where
    "from_spki_pem L (trim (endpoint_pub_key cfg)) = Inr pin" "cert_verifier c = PinnedVerifier pin"
    "quic_endpoint cfg = Inr (ip, 443)" "alpn_protocols c = [utf8 (lit ''h3'')]"
    "quic_handshake E c (ip, 443) CONNECT_SNI = Inr ()" .
  with Http3 t show ?thesis
    by (intro exI [of _ c] exI [of _ pin] exI [of _ ip]) simp
next
  case Http2
  with assms obtain ep c where d: "h2_endpoint cfg = Inr ep"
    "tunnel_client_config L now cfg kp [utf8 (lit ''h2'')] = Inr c"
    "tls_connect E c ep CONNECT_SNI = Inr ()"
    and t: "h2_response E = Inr (tun_status t)" "tun_io t = H2"
      "parse_assigned_v4 (cfg_ipv4 cfg) = Inr (tun_assigned_v4 t)"
      "tun_assigned_v6 t = parse_assigned_v6 (cfg_ipv6 cfg)" "\<not> tun_dead t"
    by (auto simp: connect_h2_def result_simps Let_def)
  obtain ip where "ep = (ip, 443)"
    using h2_endpoint_port [OF d(1)] by (cases ep) auto
  moreover obtain pin where "from_spki_pem L (trim (endpoint_pub_key cfg)) = Inr pin"
    "cert_verifier c = PinnedVerifier pin" "alpn_protocols c = [utf8 (lit ''h2'')]"
    using d(2) by (auto elim: tunnel_client_config_ok)
  ultimately show ?thesis
    using Http2 d t by (intro exI [of _ c] exI [of _ pin] exI [of _ ip]) simp
qed

text \<open>An environment in which every step succeeds, with a given response status.\<close>

definition toy_env :: "nat \<Rightarrow> u8 net_env" where
  "toy_env status = \<lparr>quic_tls = (\<lambda>_. Inr ()), idle_timeout = (\<lambda>_. Inr ()), bind_udp = (\<lambda>_. Inr ()),
     endpoint_new = (\<lambda>_. Inr ()), quic_connect = (\<lambda>_ _. Inr ()), quic_handshake = (\<lambda>_ _ _. Inr ()),
     h3_build = (\<lambda>_ _. Inr ()), build_request = (\<lambda>_. Inr ()), h3_send_request = (\<lambda>_. Inr 8),
     h3_response = Inr status, tcp_connect = (\<lambda>_. Inr ()), server_name = (\<lambda>_. Inr ()),
     tls_connect = (\<lambda>_ _ _. Inr ()), h2_handshake = Inr (), h2_send_request = (\<lambda>_. Inr ()),
     h2_response = Inr status\<rparr>"

definition toy_config :: warp_config where
  "toy_config = sample_config\<lparr>endpoint_pub_key := [65], cfg_ipv4 := lit ''172.16.0.2/32''\<rparr>"

lemma toy_connect_any: "is_ok (connect_with toy_tls 0 (toy_env st) (toy_config\<lparr>private_key := k\<rparr>) kp Http2)"
proof -
  let ?cfg = "toy_config\<lparr>private_key := k\<rparr>"
  have "h2_endpoint ?cfg = Inr (V4 (Ipv4 162 159 198 2), 443)"
    by (simp add: h2_endpoint_def toy_config_def sample_config_def trim_id default_endpoint_h2
        MASQUE_PORT_def del: show_ipv4.simps)
  moreover have "parse_assigned_v4 (cfg_ipv4 ?cfg) = Inr (Ipv4 172 16 0 2)"
    using parse_assigned_v4_show(2) [of "lit ''32''" "Ipv4 172 16 0 2"]
    by (simp add: toy_config_def lit_simps show_radix.simps digit_char_def is_whitespace_def)
  moreover have "is_ok (tunnel_client_config toy_tls 0 ?cfg kp alpn)" for alpn
    by (simp add: tunnel_client_config_def self_signed_identity_def toy_tls_def toy_keys_def
        key_lib.defs toy_config_def sample_config_def trim_id is_whitespace_def)
  then obtain c where "tunnel_client_config toy_tls 0 ?cfg kp [utf8 (lit ''h2'')] = Inr c"
    by (cases "tunnel_client_config toy_tls 0 ?cfg kp [utf8 (lit ''h2'')]")
      (metis is_ok_simps(1))+
  ultimately show ?thesis
    by (simp add: connect_h2_def toy_env_def Let_def)
qed

lemma toy_connect: "is_ok (connect_with toy_tls 0 (toy_env st) toy_config kp Http2)"
  using toy_connect_any [of st "private_key toy_config" kp] by simp

theorem connect_authenticates_endpoint_witness:
  "\<exists>t. connect_with toy_tls 0 (toy_env 403) toy_config \<lparr>secret = 7\<rparr> Http2 = Inr t
     \<and> tun_status t = 403 \<and> tun_io t = H2"
proof -
  obtain t where t: "connect_with toy_tls 0 (toy_env 403) toy_config \<lparr>secret = 7\<rparr> Http2 = Inr t"
    using toy_connect [of 403 "\<lparr>secret = 7\<rparr>"]
    by (cases "connect_with toy_tls 0 (toy_env 403) toy_config \<lparr>secret = 7\<rparr> Http2") auto
  from connect_authenticates_endpoint [OF t] show ?thesis
    using t by (auto simp: toy_env_def)
qed

text \<open>
  The response status never decides whether a tunnel comes up: if connecting succeeds, it succeeds
  just the same for every other status of the response, a refusal included, and the tunnel only
  records it.
\<close>

theorem connect_ignores_status:
  assumes "connect_with L now E cfg kp tr = Inr t"
  shows "connect_with L now (E\<lparr>h3_response := Inr st, h2_response := Inr st\<rparr>) cfg kp tr
    = Inr (t\<lparr>tun_status := st\<rparr>)"
proof -
  have dial: "dial_quic L now (E\<lparr>h3_response := Inr st, h2_response := Inr st\<rparr>) cfg kp
      = dial_quic L now E cfg kp"
    by (simp add: dial_quic_def)
  show ?thesis
    using assms by (cases tr) (auto simp: connect_h3_def connect_h2_def dial result_simps Let_def)
qed

theorem connect_ignores_status_witness:
  "\<exists>t. connect_with toy_tls 0 (toy_env 403\<lparr>h3_response := Inr 500, h2_response := Inr 500\<rparr>)
       toy_config \<lparr>secret = 7\<rparr> Http2 = Inr t \<and> tun_status t = 500"
proof -
  obtain t where t: "connect_with toy_tls 0 (toy_env 403) toy_config \<lparr>secret = 7\<rparr> Http2 = Inr t"
    using toy_connect [of 403 "\<lparr>secret = 7\<rparr>"]
    by (cases "connect_with toy_tls 0 (toy_env 403) toy_config \<lparr>secret = 7\<rparr> Http2") auto
  from connect_ignores_status [OF t, of 500] show ?thesis by auto
qed

end
