(* ===== verification/Pipe.thy ===== *)
theory Pipe
  imports Prelude
begin

text \<open>
  The interface of the byte pipes of the program: a state that takes data at one end and gives it out
  at the other, in pieces of any size. The outbound buffer of a netstack connection, the channel with
  the read buffer behind \<open>TcpConn::poll_read\<close> and the buffer lists of the HTTP/3 framing are pipes;
  each interprets the locale and gets the order of its data from the lemmas proved here once.
\<close>

datatype ('x, 'p) pipe_op = Push "'x list" | Pull 'p

text \<open>
  Running a sequence of operations: what was accepted by the pushes, what was given out by the pulls
  and the final state. A push may be refused.
\<close>

fun run_pipe :: "('x list \<Rightarrow> 's \<Rightarrow> 's option) \<Rightarrow> ('p \<Rightarrow> 's \<Rightarrow> 'x list \<times> 's) \<Rightarrow> ('x, 'p) pipe_op list
    \<Rightarrow> 's \<Rightarrow> 'x list \<times> 'x list \<times> 's" where
  "run_pipe push pull [] s = ([], [], s)"
| "run_pipe push pull (Push xs # ops) s =
     (case push xs s of
        None \<Rightarrow> run_pipe push pull ops s
      | Some s' \<Rightarrow> (case run_pipe push pull ops s' of (acc, out, t) \<Rightarrow> (xs @ acc, out, t)))"
| "run_pipe push pull (Pull p # ops) s =
     (case pull p s of (ys, s') \<Rightarrow>
        (case run_pipe push pull ops s' of (acc, out, t) \<Rightarrow> (acc, ys @ out, t)))"

locale fifo_pipe =
  fixes contents :: "'s \<Rightarrow> 'x list"
    and push :: "'x list \<Rightarrow> 's \<Rightarrow> 's option"
    and pull :: "'p \<Rightarrow> 's \<Rightarrow> 'x list \<times> 's"
  assumes contents_push: "push xs s = Some s' \<Longrightarrow> contents s' = contents s @ xs"
    and contents_pull: "pull p s = (ys, s') \<Longrightarrow> contents s = ys @ contents s'"
begin

text \<open>Nothing is lost, invented or reordered: what went in is what came out and what is left.\<close>

lemma run_pipe_conserves:
  "run_pipe push pull ops s = (acc, out, t) \<Longrightarrow> contents s @ acc = out @ contents t"
proof (induction ops arbitrary: s acc out)
  case Nil
  then show ?case by simp
next
  case (Cons op ops)
  show ?case
  proof (cases op)
    case (Push xs)
    show ?thesis
    proof (cases "push xs s")
      case None
      with Cons Push show ?thesis by simp
    next
      case (Some s')
      with Cons.prems Push obtain acc' where "run_pipe push pull ops s' = (acc', out, t)" "acc = xs @ acc'"
        by (auto split: prod.splits)
      with Cons.IH [of s' acc' out] contents_push [OF Some] show ?thesis by simp
    qed
  next
    case (Pull p)
    obtain ys s' where p: "pull p s = (ys, s')" by (cases "pull p s")
    with Cons.prems Pull obtain out' where "run_pipe push pull ops s' = (acc, out', t)" "out = ys @ out'"
      by (auto split: prod.splits)
    with Cons.IH [of s' acc out'] contents_pull [OF p] show ?thesis by simp
  qed
qed

lemma run_pipe_prefix:
  assumes "run_pipe push pull ops s = (acc, out, t)" and "contents s = []"
  shows "out = take (length out) acc"
proof -
  have "acc = out @ contents t"
    using run_pipe_conserves [OF assms(1)] assms(2) by simp
  then show ?thesis by simp
qed

lemma run_pipe_drained:
  assumes "run_pipe push pull ops s = (acc, out, t)" and "contents s = []" and "contents t = []"
  shows "out = acc"
  using run_pipe_conserves [OF assms(1)] assms(2,3) by simp

end

end
