(* ===== verification/Netstack.thy ===== *)
theory Netstack
  imports Tunnel Pipe "HOL-Library.Multiset"
begin

text \<open>
  The userspace netstack of \<open>crates/warp-masque/src/netstack.rs\<close>: the actor with its command loop,
  the servicing of TCP and DNS sockets, and the async side (\<open>TcpConn\<close>). \<open>smoltcp\<close> is a parameter:
  \<open>tcp_ops\<close> are the socket methods the actor calls, \<open>net_ops\<close> adds the interface, the socket set's
  allocator and the DNS socket. A panic of the actor thread is the result \<open>None\<close>.
\<close>

section \<open>Constants and commands\<close>

definition SOCK_BUF :: nat where "SOCK_BUF = 64 * 1024"
definition RECV_CHUNK :: nat where "RECV_CHUNK = 8 * 1024"
definition CHAN_DEPTH :: nat where "CHAN_DEPTH = 64"

text \<open>Channels and reply slots are named by numbers; the values they hold are in the actor's state.\<close>

datatype cmd =
    Inbound bytes
  | Connect sock_addr nat nat
  | Send nat bytes
  | Close nat
  | Resolve rstr nat

datatype tcp_state = Established | Closed | Other_State

record 's tcp_ops =
  tcp_new :: 's
  sock_connect :: "sock_addr \<Rightarrow> u16 \<Rightarrow> 's \<Rightarrow> rstr + 's"
  sock_state :: "'s \<Rightarrow> tcp_state"
  is_active :: "'s \<Rightarrow> bool"
  can_send :: "'s \<Rightarrow> bool"
  can_recv :: "'s \<Rightarrow> bool"
  send_slice :: "bytes \<Rightarrow> 's \<Rightarrow> (nat \<times> 's) option"
  recv_slice :: "nat \<Rightarrow> 's \<Rightarrow> (bytes \<times> 's) option"
  sock_close :: "'s \<Rightarrow> 's"

datatype dns_result = DnsOk "ip_addr list" | DnsPending | DnsFailed

record ('s, 'd) net_ops = "'s tcp_ops" +
  set_alloc :: "(nat \<rightharpoonup> 's) \<Rightarrow> nat"
  iface_poll :: "nat \<Rightarrow> bytes list \<Rightarrow> (nat \<rightharpoonup> 's) \<Rightarrow> 'd \<Rightarrow> bytes list \<times> bytes list \<times> (nat \<rightharpoonup> 's) \<times> 'd"
  start_query :: "rstr \<Rightarrow> 'd \<Rightarrow> rstr + nat \<times> 'd"
  get_query_result :: "nat \<Rightarrow> 'd \<Rightarrow> dns_result \<times> 'd"

section \<open>Bounded channels\<close>

record bchan =
  chan_q :: "bytes list"
  chan_tx :: bool
  chan_rx :: bool

definition new_chan :: bchan where
  "new_chan = \<lparr>chan_q = [], chan_tx = True, chan_rx = True\<rparr>"

definition try_reserve :: "bchan \<Rightarrow> bool" where
  "try_reserve c \<longleftrightarrow> chan_rx c \<and> length (chan_q c) < CHAN_DEPTH"

definition permit_send :: "bytes \<Rightarrow> bchan \<Rightarrow> bchan" where
  "permit_send bs c = c\<lparr>chan_q := chan_q c @ [bs]\<rparr>"

section \<open>The actor's state\<close>

record conn =
  from_net :: nat
  out_buf :: bytes
  connect_reply :: "nat option"
  closing :: bool

record ('s, 'd) actor =
  dev_rx :: "bytes list"
  dev_tx :: "bytes list"
  dev_mtu :: nat
  to_tunnel :: "bytes list"
  sockets :: "nat \<rightharpoonup> 's"
  dns_sock :: 'd
  next_port :: u16
  conns :: "nat \<rightharpoonup> conn"
  dns_pending :: "(nat \<times> nat) list"
  chans :: "nat \<Rightarrow> bchan"
  connect_replies :: "(nat \<times> (rstr + nat)) list"
  dns_replies :: "(nat \<times> (rstr + ip_addr)) list"

definition actor_new :: "'d \<Rightarrow> nat \<Rightarrow> ('s, 'd) actor" where
  "actor_new d mtu =
     \<lparr>dev_rx = [], dev_tx = [], dev_mtu = mtu, to_tunnel = [], sockets = Map.empty, dns_sock = d,
      next_port = 49152, conns = Map.empty, dns_pending = [], chans = (\<lambda>_. new_chan),
      connect_replies = [], dns_replies = []\<rparr>"

definition spawn_mtu :: "nat \<Rightarrow> nat" where
  "spawn_mtu max_ip = (if max_ip < 576 then 576 else if max_ip > 1280 then 1280 else max_ip)"

text \<open>The TUN device: the stack takes packets from \<open>rx\<close> and leaves packets in \<open>tx\<close>.\<close>

definition dev_receive :: "('s, 'd) actor \<Rightarrow> (bytes \<times> ('s, 'd) actor) option" where
  "dev_receive a = (case dev_rx a of [] \<Rightarrow> None | p # ps \<Rightarrow> Some (p, a\<lparr>dev_rx := ps\<rparr>))"

definition dev_transmit :: "nat \<Rightarrow> (bytes \<Rightarrow> bytes) \<Rightarrow> ('s, 'd) actor \<Rightarrow> ('s, 'd) actor" where
  "dev_transmit len f a = a\<lparr>dev_tx := dev_tx a @ [f (replicate len 0)]\<rparr>"

section \<open>Commands\<close>

definition next_ephemeral_port :: "('s, 'd) actor \<Rightarrow> u16 \<times> ('s, 'd) actor" where
  "next_ephemeral_port a =
     (let p = next_port a in
      (p, a\<lparr>next_port := (if next_port a = 65535 then 49152 else next_port a + 1)\<rparr>))"

definition handle_connect :: "('s, 'd) net_ops \<Rightarrow> sock_addr \<Rightarrow> nat \<Rightarrow> nat \<Rightarrow> ('s, 'd) actor
    \<Rightarrow> ('s, 'd) actor" where
  "handle_connect N remote ch reply a =
     (let h = set_alloc N (sockets a);
          (local_port, a) = next_ephemeral_port a in
      case sock_connect N remote local_port (tcp_new N) of
        Inr s \<Rightarrow> a\<lparr>sockets := (sockets a)(h \<mapsto> s),
          conns := (conns a)(h \<mapsto> \<lparr>from_net = ch, out_buf = [], connect_reply = Some reply,
            closing = False\<rparr>)\<rparr>
      | Inl e \<Rightarrow> a\<lparr>sockets := (sockets a)(h := None),
          chans := (chans a)(ch := (chans a ch)\<lparr>chan_tx := False\<rparr>),
          connect_replies := connect_replies a @ [(reply, Inl (lit ''connect: '' @ e))]\<rparr>)"

definition handle_resolve :: "('s, 'd) net_ops \<Rightarrow> rstr \<Rightarrow> nat \<Rightarrow> ('s, 'd) actor \<Rightarrow> ('s, 'd) actor" where
  "handle_resolve N name reply a =
     (case parse_ip name of
        Some ip \<Rightarrow> a\<lparr>dns_replies := dns_replies a @ [(reply, Inr ip)]\<rparr>
      | None \<Rightarrow>
          (case start_query N name (dns_sock a) of
             Inr (q, d) \<Rightarrow> a\<lparr>dns_sock := d, dns_pending := dns_pending a @ [(q, reply)]\<rparr>
           | Inl e \<Rightarrow> a\<lparr>dns_replies := dns_replies a @ [(reply, Inl (lit ''dns query: '' @ e))]\<rparr>))"

fun handle_cmd :: "('s, 'd) net_ops \<Rightarrow> cmd \<Rightarrow> ('s, 'd) actor \<Rightarrow> ('s, 'd) actor" where
  "handle_cmd N (Inbound pkt) a = a\<lparr>dev_rx := dev_rx a @ [pkt]\<rparr>"
| "handle_cmd N (Connect remote ch reply) a = handle_connect N remote ch reply a"
| "handle_cmd N (Send h data) a =
     (case conns a h of
        Some c \<Rightarrow> a\<lparr>conns := (conns a)(h \<mapsto> c\<lparr>out_buf := out_buf c @ data\<rparr>)\<rparr>
      | None \<Rightarrow> a)"
| "handle_cmd N (Close h) a =
     (case conns a h of
        Some c \<Rightarrow> a\<lparr>conns := (conns a)(h \<mapsto> c\<lparr>closing := True\<rparr>)\<rparr>
      | None \<Rightarrow> a)"
| "handle_cmd N (Resolve name reply) a = handle_resolve N name reply a"

section \<open>Servicing sockets\<close>

text \<open>
  The outbound loop hands the first contiguous slice of the ring buffer to the socket (\<open>hd_len\<close> gives
  its length, which depends on where the ring wraps), the inbound loop moves chunks to the channel
  while it has room.
\<close>

function send_loop :: "('s, 'z) tcp_ops_scheme \<Rightarrow> (bytes \<Rightarrow> nat) \<Rightarrow> 's \<Rightarrow> bytes \<Rightarrow> 's \<times> bytes" where
  "send_loop T hd_len s out =
     (if can_send T s \<and> out \<noteq> [] then
        (case send_slice T (take (hd_len out) out) s of
           None \<Rightarrow> (s, out)
         | Some (0, s') \<Rightarrow> (s', out)
         | Some (Suc n, s') \<Rightarrow> send_loop T hd_len s' (drop (Suc n) out))
      else (s, out))"
  by pat_completeness auto
termination
  by (relation "measure (\<lambda>(T, hd_len, s, out). length out)") auto

declare send_loop.simps [simp del]

function recv_loop :: "('s, 'z) tcp_ops_scheme \<Rightarrow> 's \<Rightarrow> bchan \<Rightarrow> 's \<times> bchan" where
  "recv_loop T s c =
     (if can_recv T s \<and> try_reserve c then
        (case recv_slice T RECV_CHUNK s of
           None \<Rightarrow> (s, c)
         | Some (bs, s') \<Rightarrow> if bs = [] then (s', c) else recv_loop T s' (permit_send bs c))
      else (s, c))"
  by pat_completeness auto
termination
  by (relation "measure (\<lambda>(T, s, c). CHAN_DEPTH - length (chan_q c))")
    (auto simp: try_reserve_def permit_send_def)

declare recv_loop.simps [simp del]

text \<open>
  One connection: the pending connect is resolved, both loops run, a drained closing connection is
  closed, and a dead one is to be removed. The results are the reply sent, whether to remove it, the
  socket, the connection and its channel.
\<close>

definition resolve_connect :: "('s, 'z) tcp_ops_scheme \<Rightarrow> nat \<Rightarrow> 's \<Rightarrow> nat option
    \<Rightarrow> (nat \<times> (rstr + nat)) list \<times> nat option \<times> bool" where
  "resolve_connect N h s pending =
     (case pending of
        None \<Rightarrow> ([], None, False)
      | Some r \<Rightarrow>
          if sock_state N s = Established then ([(r, Inr h)], None, False)
          else if \<not> is_active N s then ([(r, Inl (lit ''connection refused''))], None, True)
          else ([], Some r, False))"

definition service_conn :: "('s, 'z) tcp_ops_scheme \<Rightarrow> (bytes \<Rightarrow> nat) \<Rightarrow> nat \<Rightarrow> 's \<Rightarrow> conn \<Rightarrow> bchan
    \<Rightarrow> (nat \<times> (rstr + nat)) list \<times> bool \<times> 's \<times> conn \<times> bchan" where
  "service_conn N hd_len h s c ch =
     (let (replied, pending, refused) = resolve_connect N h s (connect_reply c);
          (s, out) = send_loop N hd_len s (out_buf c);
          (s, ch) = recv_loop N s ch;
          s = (if closing c \<and> out = [] then sock_close N s else s) in
      (replied, refused \<or> sock_state N s = Closed, s, c\<lparr>connect_reply := pending, out_buf := out\<rparr>, ch))"

text \<open>
  Removing a connection drops \<open>from_net\<close>, which ends the reader's stream. The \<open>expect\<close> and \<open>get_mut\<close>
  of a handle without entry panic.
\<close>

definition service_socket :: "('s, 'd) net_ops \<Rightarrow> (bytes \<Rightarrow> nat) \<Rightarrow> nat \<Rightarrow> ('s, 'd) actor
    \<Rightarrow> ('s, 'd) actor option" where
  "service_socket N hd_len h a =
     (case (sockets a h, conns a h) of
        (Some s, Some c) \<Rightarrow>
          (case service_conn N hd_len h s c (chans a (from_net c)) of
             (replied, remove, s, c, ch) \<Rightarrow>
               Some (if remove then
                   a\<lparr>sockets := (sockets a)(h := None), conns := (conns a)(h := None),
                     chans := (chans a)(from_net c := ch\<lparr>chan_tx := False\<rparr>),
                     connect_replies := connect_replies a @ replied\<rparr>
                 else
                   a\<lparr>sockets := (sockets a)(h \<mapsto> s), conns := (conns a)(h \<mapsto> c),
                     chans := (chans a)(from_net c := ch),
                     connect_replies := connect_replies a @ replied\<rparr>))
      | _ \<Rightarrow> None)"

text \<open>
  \<open>hs\<close> are the keys of \<open>conns\<close> in the iteration order of the hash map.
\<close>

fun service_sockets :: "('s, 'd) net_ops \<Rightarrow> (bytes \<Rightarrow> nat) \<Rightarrow> nat list \<Rightarrow> ('s, 'd) actor
    \<Rightarrow> ('s, 'd) actor option" where
  "service_sockets N hd_len [] a = Some a"
| "service_sockets N hd_len (h # hs) a =
     Option.bind (service_socket N hd_len h a) (service_sockets N hd_len hs)"

section \<open>Servicing DNS\<close>

text \<open>
  The index loop over \<open>dns_pending\<close>: what is kept, the DNS socket and the replies, in order.
\<close>

fun dns_answer :: "dns_result \<Rightarrow> (rstr + ip_addr) option" where
  "dns_answer (DnsOk (a # as)) = Some (Inr a)"
| "dns_answer (DnsOk []) = Some (Inl (lit ''no address''))"
| "dns_answer DnsPending = None"
| "dns_answer DnsFailed = Some (Inl (lit ''resolution failed''))"

fun dns_loop :: "('s, 'd) net_ops \<Rightarrow> (nat \<times> nat) list \<Rightarrow> 'd
    \<Rightarrow> (nat \<times> nat) list \<times> 'd \<times> (nat \<times> (rstr + ip_addr)) list" where
  "dns_loop N [] d = ([], d, [])"
| "dns_loop N ((q, reply) # ps) d =
     (case get_query_result N q d of (r, d') \<Rightarrow>
       (case dns_loop N ps d' of (kept, d'', replies) \<Rightarrow>
         (case dns_answer r of
            None \<Rightarrow> ((q, reply) # kept, d'', replies)
          | Some ans \<Rightarrow> (kept, d'', (reply, ans) # replies))))"

definition service_dns :: "('s, 'd) net_ops \<Rightarrow> ('s, 'd) actor \<Rightarrow> ('s, 'd) actor" where
  "service_dns N a =
     (case dns_loop N (dns_pending a) (dns_sock a) of (kept, d, replies) \<Rightarrow>
        a\<lparr>dns_pending := kept, dns_sock := d, dns_replies := dns_replies a @ replies\<rparr>)"

section \<open>The loop of the actor thread\<close>

text \<open>
  One turn: poll the interface, flush what it produced, service the sockets, then handle the commands
  received before the next poll (none when the wait times out). \<open>turn\<close> holds what the world decides
  about it: the time, the order of the keys, the ring layout and the commands.
\<close>

record turn =
  t_now :: nat
  t_keys :: "nat set \<Rightarrow> nat list"
  t_ring :: "bytes \<Rightarrow> nat"
  t_cmds :: "cmd list"

definition poll_egress :: "('s, 'd) net_ops \<Rightarrow> nat \<Rightarrow> ('s, 'd) actor \<Rightarrow> ('s, 'd) actor" where
  "poll_egress N now a =
     (case iface_poll N now (dev_rx a) (sockets a) (dns_sock a) of (rx, tx, ss, d) \<Rightarrow>
        a\<lparr>dev_rx := rx, dev_tx := [], sockets := ss, dns_sock := d,
          to_tunnel := to_tunnel a @ dev_tx a @ tx\<rparr>)"

definition actor_turn :: "('s, 'd) net_ops \<Rightarrow> turn \<Rightarrow> ('s, 'd) actor \<Rightarrow> ('s, 'd) actor option" where
  "actor_turn N t a =
     (let a = poll_egress N (t_now t) a in
      Option.bind (service_sockets N (t_ring t) (t_keys t (dom (conns a))) a) (\<lambda>a.
      Some (fold (handle_cmd N) (t_cmds t) (service_dns N a))))"

fun actor_run :: "('s, 'd) net_ops \<Rightarrow> turn list \<Rightarrow> ('s, 'd) actor \<Rightarrow> ('s, 'd) actor option" where
  "actor_run N [] a = Some a"
| "actor_run N (t # ts) a = Option.bind (actor_turn N t a) (actor_run N ts)"

definition loop_delay :: "nat option \<Rightarrow> nat" where
  "loop_delay poll_delay =
     (let d = (case poll_delay of Some us \<Rightarrow> us | None \<Rightarrow> 500000) in
      if d < 1000 then 1000 else if d > 500000 then 500000 else d)"

section \<open>The async side\<close>

record tcp_conn =
  read_buf :: bytes
  read_pos :: nat

datatype poll_read_result = ReadPending | ReadReady bytes

text \<open>\<open>poll_read\<close> with room for \<open>n\<close> bytes; no byte delivered with room left is the end of file.\<close>

definition poll_read :: "nat \<Rightarrow> tcp_conn \<times> bchan \<Rightarrow> poll_read_result \<times> tcp_conn \<times> bchan" where
  "poll_read n st =
     (case st of (me, ch) \<Rightarrow>
       (let deliver = (\<lambda>me ch.
              let k = min n (length (read_buf me) - read_pos me) in
              (ReadReady (take k (drop (read_pos me) (read_buf me))),
               me\<lparr>read_pos := read_pos me + k\<rparr>, ch)) in
        if read_pos me \<ge> length (read_buf me) then
          (case chan_q ch of
             v # q \<Rightarrow> deliver (me\<lparr>read_buf := v, read_pos := 0\<rparr>) (ch\<lparr>chan_q := q\<rparr>)
           | [] \<Rightarrow> if chan_tx ch then (ReadPending, me, ch) else (ReadReady [], me, ch))
        else deliver me ch))"

text \<open>\<open>poll_write\<close> and \<open>poll_shutdown\<close> send a command; \<open>alive\<close> says whether the actor still runs.\<close>

definition poll_write :: "bool \<Rightarrow> nat \<Rightarrow> bytes \<Rightarrow> (rstr + nat) \<times> cmd list" where
  "poll_write alive h data =
     (if alive then (Inr (length data), [Send h data]) else (Inl (lit ''broken pipe''), []))"

definition poll_shutdown :: "bool \<Rightarrow> nat \<Rightarrow> cmd list" where
  "poll_shutdown alive h = (if alive then [Close h] else [])"

section \<open>Invariant\<close>

text \<open>
  What the actor relies on from \<open>smoltcp\<close> and the hash map: a fresh handle for a new socket, a poll
  that neither adds nor removes sockets, no more bytes than asked for, and every key once.
\<close>

definition smoltcp_ok :: "('s, 'd) net_ops \<Rightarrow> bool" where
  "smoltcp_ok N \<longleftrightarrow>
     (\<forall>ss. finite (dom ss) \<longrightarrow> set_alloc N ss \<notin> dom ss) \<and>
     (\<forall>now rx ss d rx' tx ss' d'. iface_poll N now rx ss d = (rx', tx, ss', d') \<longrightarrow> dom ss' = dom ss) \<and>
     (\<forall>n s bs s'. recv_slice N n s = Some (bs, s') \<longrightarrow> length bs \<le> n)"

definition turn_ok :: "turn \<Rightarrow> bool" where
  "turn_ok t \<longleftrightarrow> (\<forall>K. finite K \<longrightarrow> distinct (t_keys t K) \<and> set (t_keys t K) = K)"

definition chan_ok :: "bchan \<Rightarrow> bool" where
  "chan_ok c \<longleftrightarrow> length (chan_q c) \<le> CHAN_DEPTH
     \<and> (\<forall>bs \<in> set (chan_q c). bs \<noteq> [] \<and> length bs \<le> RECV_CHUNK)"

definition actor_inv :: "('s, 'd) actor \<Rightarrow> bool" where
  "actor_inv a \<longleftrightarrow> finite (dom (sockets a)) \<and> dom (conns a) \<subseteq> dom (sockets a)
     \<and> 49152 \<le> next_port a \<and> (\<forall>c. chan_ok (chans a c))"

lemma smoltcp_alloc:
  assumes "smoltcp_ok N" and "finite (dom ss)"
  shows "set_alloc N ss \<notin> dom ss"
proof -
  from assms(1) have "\<forall>ss. finite (dom ss) \<longrightarrow> set_alloc N ss \<notin> dom ss"
    unfolding smoltcp_ok_def by (elim conjE)
  with assms(2) show ?thesis by blast
qed

lemma smoltcp_poll:
  assumes "smoltcp_ok N" and "iface_poll N now rx ss d = (rx', tx, ss', d')"
  shows "dom ss' = dom ss"
proof -
  from assms(1) have "\<forall>now rx ss d rx' tx ss' d'.
      iface_poll N now rx ss d = (rx', tx, ss', d') \<longrightarrow> dom ss' = dom ss"
    unfolding smoltcp_ok_def by (elim conjE)
  with assms(2) show ?thesis by blast
qed

lemma smoltcp_recv:
  assumes "smoltcp_ok N" and "recv_slice N n s = Some (bs, s')"
  shows "length bs \<le> n"
proof -
  from assms(1) have "\<forall>n s bs s'. recv_slice N n s = Some (bs, s') \<longrightarrow> length bs \<le> n"
    unfolding smoltcp_ok_def by (elim conjE)
  with assms(2) show ?thesis by blast
qed

lemma recv_loop_inv:
  assumes "P c" and "\<And>s c bs s'. P c \<Longrightarrow> try_reserve c \<Longrightarrow> recv_slice T RECV_CHUNK s = Some (bs, s')
    \<Longrightarrow> bs \<noteq> [] \<Longrightarrow> P (permit_send bs c)"
  shows "P (snd (recv_loop T s c))"
  using assms
proof (induction T s c rule: recv_loop.induct)
  case (1 T s c)
  show ?case
  proof (cases "can_recv T s \<and> try_reserve c")
    case True
    show ?thesis
    proof (cases "recv_slice T RECV_CHUNK s")
      case None
      with 1 True show ?thesis by (simp add: recv_loop.simps [of T s c])
    next
      case (Some r)
      obtain bs s' where r: "r = (bs, s')" by (cases r)
      show ?thesis
      proof (cases "bs = []")
        case False
        have "P (permit_send bs c)"
          using 1(2,3) True Some r False by blast
        then have "P (snd (recv_loop T s' (permit_send bs c)))"
          by (rule "1.IH" [OF True Some [unfolded r] refl False]) (rule 1(3))
        with Some r True False show ?thesis by (simp add: recv_loop.simps [of T s c])
      qed (use 1(2) True Some r in \<open>simp add: recv_loop.simps [of T s c]\<close>)
    qed
  next
    case False
    with 1(2) show ?thesis by (auto simp add: recv_loop.simps [of T s c])
  qed
qed

lemma recv_loop_ok:
  assumes "smoltcp_ok N" and "chan_ok c"
  shows "chan_ok (snd (recv_loop N s c))"
  using assms(2)
proof (rule recv_loop_inv)
  fix s c bs s'
  assume "chan_ok c" "try_reserve c" "recv_slice N RECV_CHUNK s = Some (bs, s')" "bs \<noteq> []"
  moreover have "length bs \<le> RECV_CHUNK"
    using assms(1) calculation(3) by (rule smoltcp_recv)
  ultimately show "chan_ok (permit_send bs c)"
    by (simp add: chan_ok_def try_reserve_def permit_send_def ball_Un)
qed

lemma recv_loop_flags:
  "chan_rx (snd (recv_loop T s c)) = chan_rx c \<and> chan_tx (snd (recv_loop T s c)) = chan_tx c"
  by (rule recv_loop_inv [where P = "\<lambda>d. chan_rx d = chan_rx c \<and> chan_tx d = chan_tx c"])
    (simp_all add: permit_send_def)

lemma chan_ok_drop_tx [simp]: "chan_ok (c\<lparr>chan_tx := b\<rparr>) = chan_ok c"
  by (simp add: chan_ok_def)

lemma service_conn_chan:
  assumes "smoltcp_ok N" and "chan_ok ch" and "service_conn N hd_len h s c ch = (rep, rem, s', c', ch')"
  shows "chan_ok ch' \<and> from_net c' = from_net c"
proof -
  obtain t out where t: "send_loop N hd_len s (out_buf c) = (t, out)"
    by (cases "send_loop N hd_len s (out_buf c)")
  obtain u ch2 where u: "recv_loop N t ch = (u, ch2)"
    by (cases "recv_loop N t ch")
  have "ch2 = ch'" "from_net c' = from_net c"
    using assms(3) t u by (auto simp: service_conn_def Let_def split: prod.splits)
  then show ?thesis
    using recv_loop_ok [OF assms(1,2), of t] u by simp
qed

text \<open>Servicing a connection that exists never panics and touches only that connection.\<close>

lemma service_socket_ok:
  assumes "smoltcp_ok N" and "actor_inv a" and "h \<in> dom (conns a)"
  obtains a' where "service_socket N hd_len h a = Some a'" and "actor_inv a'"
    and "dom (conns a) - {h} \<subseteq> dom (conns a')" and "dom (conns a') \<subseteq> dom (conns a)"
    and "dns_pending a' = dns_pending a" and "dns_replies a' = dns_replies a"
proof -
  from assms(2,3) obtain s c where sc: "sockets a h = Some s" "conns a h = Some c"
    by (auto simp: actor_inv_def dom_def subset_iff)
  obtain rep rem s' c' ch' where
    v: "service_conn N hd_len h s c (chans a (from_net c)) = (rep, rem, s', c', ch')"
    by (cases "service_conn N hd_len h s c (chans a (from_net c))")
  have "chan_ok (chans a (from_net c))"
    using assms(2) by (simp add: actor_inv_def)
  from service_conn_chan [OF assms(1) this v] have ch: "chan_ok ch'" by simp
  obtain a' where a': "service_socket N hd_len h a = Some a'"
    using sc v by (simp add: service_socket_def)
  show thesis
  proof (rule that [OF a'])
    show "actor_inv a'"
      unfolding actor_inv_def
    proof (intro conjI)
      show "finite (dom (sockets a'))" "49152 \<le> next_port a'" "\<forall>c. chan_ok (chans a' c)"
        using assms(2) a' sc ch v by (auto simp: service_socket_def actor_inv_def split: if_splits)
      show "dom (conns a') \<subseteq> dom (sockets a')"
        using assms(2) a' sc v
        by (auto simp: service_socket_def actor_inv_def dom_def subset_iff split: if_splits)
    qed
  qed (use a' sc v in \<open>auto simp: service_socket_def split: if_splits\<close>)
qed

lemma service_sockets_ok:
  assumes "smoltcp_ok N" and "actor_inv a" and "set hs \<subseteq> dom (conns a)" and "distinct hs"
  obtains a' where "service_sockets N hd_len hs a = Some a'" and "actor_inv a'"
    and "dom (conns a') \<subseteq> dom (conns a)"
    and "dns_pending a' = dns_pending a" and "dns_replies a' = dns_replies a"
  using assms(2-)
proof (induction hs arbitrary: a thesis)
  case Nil
  then show ?case by simp
next
  case (Cons h hs)
  then have "h \<in> dom (conns a)" by simp
  from service_socket_ok [OF assms(1) Cons.prems(2) this, of hd_len] obtain b where
    b: "service_socket N hd_len h a = Some b" "actor_inv b" "dom (conns a) - {h} \<subseteq> dom (conns b)"
      "dom (conns b) \<subseteq> dom (conns a)" "dns_pending b = dns_pending a" "dns_replies b = dns_replies a" .
  have "set hs \<subseteq> dom (conns a) - {h}" and "distinct hs"
    using Cons.prems(3,4) by auto
  then have "set hs \<subseteq> dom (conns b)" "distinct hs"
    using b(3) by blast+
  from Cons.IH [OF _ b(2) this] obtain a' where
    "service_sockets N hd_len hs b = Some a'" "actor_inv a'" "dom (conns a') \<subseteq> dom (conns b)"
    "dns_pending a' = dns_pending b" "dns_replies a' = dns_replies b" .
  with b Cons.prems(1) show ?case by auto
qed

lemma next_port_ok:
  assumes "49152 \<le> next_port a"
  shows "49152 \<le> next_port (snd (next_ephemeral_port a))"
proof (cases "next_port a = 65535")
  case False
  then have "unat (next_port a) \<noteq> unat (65535 :: u16)"
    by (simp only: word_unat_eq_iff not_False_eq_True)
  moreover have "unat (next_port a) < 2 ^ 16"
    using unsigned_less [of "next_port a", where ?'a = nat] by simp
  ultimately have "unat (next_port a + 1) = unat (next_port a) + 1"
    by (simp add: unat_word_ariths)
  with assms show ?thesis
    by (simp add: next_ephemeral_port_def False word_le_nat_alt)
qed (simp add: next_ephemeral_port_def)

lemma handle_cmd_ok:
  assumes "smoltcp_ok N" and "actor_inv a"
  shows "actor_inv (handle_cmd N c a)"
proof (cases c)
  case (Connect remote ch reply)
  let ?h = "set_alloc N (sockets a)"
  have "?h \<notin> dom (conns a)"
    using smoltcp_alloc [OF assms(1), of "sockets a"] assms(2) by (auto simp: actor_inv_def)
  then have "dom (conns a) \<subseteq> dom ((sockets a)(?h := None))"
    using assms(2) by (auto simp: actor_inv_def dom_def subset_iff)
  then show ?thesis
    using assms(2) next_port_ok [of a] Connect
    by (auto simp: handle_connect_def next_ephemeral_port_def actor_inv_def Let_def split: sum.splits)
qed (use assms(2) in \<open>auto simp: actor_inv_def handle_resolve_def split: option.splits sum.splits\<close>)

lemma handle_cmds_ok: "smoltcp_ok N \<Longrightarrow> actor_inv a \<Longrightarrow> actor_inv (fold (handle_cmd N) cs a)"
  by (induction cs arbitrary: a) (simp_all add: handle_cmd_ok)

lemma poll_egress_ok:
  assumes "smoltcp_ok N" and "actor_inv a"
  shows "actor_inv (poll_egress N now a)"
proof -
  obtain rx tx ss d where p: "iface_poll N now (dev_rx a) (sockets a) (dns_sock a) = (rx, tx, ss, d)"
    by (cases "iface_poll N now (dev_rx a) (sockets a) (dns_sock a)")
  show ?thesis
    using assms(2) smoltcp_poll [OF assms(1) p] by (simp add: poll_egress_def p actor_inv_def)
qed

lemma service_dns_ok: "actor_inv a \<Longrightarrow> actor_inv (service_dns N a)"
  by (simp add: service_dns_def actor_inv_def split: prod.split)

lemma turn_keys:
  assumes "turn_ok t" and "finite K"
  shows "set (t_keys t K) \<subseteq> K" and "distinct (t_keys t K)"
  using assms by (simp_all add: turn_ok_def)

lemma actor_turn_ok:
  assumes "smoltcp_ok N" and "turn_ok t" and "actor_inv a"
  obtains a' where "actor_turn N t a = Some a'" and "actor_inv a'"
proof -
  define b where "b = poll_egress N (t_now t) a"
  have b: "actor_inv b"
    unfolding b_def by (rule poll_egress_ok [OF assms(1,3)])
  have fin: "finite (dom (conns b))"
    by (rule finite_subset [of _ "dom (sockets b)"]) (use b in \<open>simp_all add: actor_inv_def\<close>)
  obtain c where c: "service_sockets N (t_ring t) (t_keys t (dom (conns b))) b = Some c" "actor_inv c"
    using service_sockets_ok [OF assms(1) b turn_keys [OF assms(2) fin], of "t_ring t"] by metis
  have "actor_inv (fold (handle_cmd N) (t_cmds t) (service_dns N c))"
    by (rule handle_cmds_ok [OF assms(1) service_dns_ok [OF c(2)]])
  with c(1) that show thesis
    by (simp add: actor_turn_def Let_def b_def [symmetric])
qed

lemma actor_run_ok:
  "smoltcp_ok N \<Longrightarrow> \<forall>t \<in> set ts. turn_ok t \<Longrightarrow> actor_inv a \<Longrightarrow>
   \<exists>a'. actor_run N ts a = Some a' \<and> actor_inv a'"
proof (induction ts arbitrary: a)
  case (Cons t ts)
  then obtain b where b: "actor_turn N t a = Some b" "actor_inv b"
    using actor_turn_ok [of N t a] by auto
  with Cons show ?case by simp
qed simp

section \<open>DNS accounting\<close>

text \<open>The reply slots of a batch of commands, and those the actor still owes or has answered.\<close>

fun resolve_ids :: "cmd list \<Rightarrow> nat list" where
  "resolve_ids [] = []"
| "resolve_ids (Resolve name reply # cs) = reply # resolve_ids cs"
| "resolve_ids (c # cs) = resolve_ids cs"

definition dns_slots :: "('s, 'd) actor \<Rightarrow> nat multiset" where
  "dns_slots a = mset (map snd (dns_pending a)) + mset (map fst (dns_replies a))"

lemma dns_loop_slots:
  "dns_loop N ps d = (kept, d', replies) \<Longrightarrow>
   mset (map snd ps) = mset (map snd kept) + mset (map fst replies)"
proof (induction N ps d arbitrary: kept d' replies rule: dns_loop.induct)
  case (2 N q reply ps d)
  obtain r e where r: "get_query_result N q d = (r, e)" by (cases "get_query_result N q d")
  obtain k e' rs where l: "dns_loop N ps e = (k, e', rs)" by (cases "dns_loop N ps e")
  from 2(1) [OF r [symmetric] l] 2(2) r l show ?case
    by (auto split: option.splits)
qed simp

lemma service_dns_slots [simp]: "dns_slots (service_dns N a) = dns_slots a"
proof -
  obtain k d rs where l: "dns_loop N (dns_pending a) (dns_sock a) = (k, d, rs)"
    by (cases "dns_loop N (dns_pending a) (dns_sock a)")
  from dns_loop_slots [OF l] show ?thesis
    by (simp add: dns_slots_def service_dns_def l)
qed

lemma handle_cmd_slots: "dns_slots (handle_cmd N c a) = dns_slots a + mset (resolve_ids [c])"
  by (cases c) (auto simp: dns_slots_def handle_connect_def next_ephemeral_port_def handle_resolve_def
      Let_def split: option.splits sum.splits)

lemma resolve_ids_Cons: "resolve_ids (c # cs) = resolve_ids [c] @ resolve_ids cs"
  by (cases c) simp_all

lemma handle_cmds_slots:
  "dns_slots (fold (handle_cmd N) cs a) = dns_slots a + mset (resolve_ids cs)"
proof (induction cs arbitrary: a)
  case (Cons c cs)
  then show ?case
    by (subst resolve_ids_Cons) (simp add: handle_cmd_slots)
qed simp

lemma service_sockets_dns:
  "service_sockets N hd_len hs a = Some a' \<Longrightarrow> dns_slots a' = dns_slots a"
proof (induction hs arbitrary: a)
  case (Cons h hs)
  then obtain b where b: "service_socket N hd_len h a = Some b" "service_sockets N hd_len hs b = Some a'"
    by (auto split: bind_splits)
  have "dns_slots b = dns_slots a"
    using b(1) by (auto simp: service_socket_def dns_slots_def split: option.splits prod.splits if_splits)
  with Cons.IH [OF b(2)] show ?case by simp
qed simp

lemma actor_turn_slots:
  assumes "actor_turn N t a = Some a'"
  shows "dns_slots a' = dns_slots a + mset (resolve_ids (t_cmds t))"
proof -
  have p: "dns_slots (poll_egress N (t_now t) a) = dns_slots a"
    by (simp add: poll_egress_def dns_slots_def split: prod.split)
  from assms obtain b where
    b: "service_sockets N (t_ring t) (t_keys t (dom (conns (poll_egress N (t_now t) a))))
          (poll_egress N (t_now t) a) = Some b"
    and a': "a' = fold (handle_cmd N) (t_cmds t) (service_dns N b)"
    by (auto simp: actor_turn_def Let_def split: bind_splits)
  show ?thesis
    by (simp add: a' handle_cmds_slots service_sockets_dns [OF b] p)
qed

lemma actor_run_slots:
  "actor_run N ts a = Some a' \<Longrightarrow>
   dns_slots a' = dns_slots a + mset (concat (map (resolve_ids \<circ> t_cmds) ts))"
proof (induction ts arbitrary: a)
  case (Cons t ts)
  then obtain b where "actor_turn N t a = Some b" "actor_run N ts b = Some a'"
    by (auto split: bind_splits)
  with Cons.IH [of b] actor_turn_slots [of N t a b] show ?case by simp
qed simp

section \<open>Order of the data\<close>

text \<open>
  Both directions of a connection are pipes. Outbound: commands append to \<open>out_buf\<close>, the send loop
  takes from its front what the socket accepts. Inbound: the actor sends chunks into the bounded
  channel, \<open>poll_read\<close> gives out bytes of the chunk at its front.
\<close>

definition conn_push :: "bytes \<Rightarrow> conn \<Rightarrow> conn option" where
  "conn_push data c = Some (c\<lparr>out_buf := out_buf c @ data\<rparr>)"

definition conn_pull :: "('s, 'z) tcp_ops_scheme \<times> (bytes \<Rightarrow> nat) \<times> 's \<Rightarrow> conn \<Rightarrow> bytes \<times> conn" where
  "conn_pull p c =
     (case p of (T, hd_len, s) \<Rightarrow>
        (let out = snd (send_loop T hd_len s (out_buf c)) in
         (take (length (out_buf c) - length out) (out_buf c), c\<lparr>out_buf := out\<rparr>)))"

lemma send_loop_suffix: "\<exists>k. snd (send_loop T hd_len s out) = drop k out"
proof (induction T hd_len s out rule: send_loop.induct)
  case (1 T hd_len s out)
  show ?case
  proof (cases "can_send T s \<and> out \<noteq> []")
    case True
    show ?thesis
    proof (cases "send_slice T (take (hd_len out) out) s")
      case (Some r)
      obtain n s' where r: "r = (n, s')" by (cases r)
      show ?thesis
      proof (cases n)
        case 0
        then show ?thesis
          using True Some r by (intro exI [of _ 0]) (simp add: send_loop.simps [of T hd_len s out])
      next
        case (Suc m)
        from "1.IH" [OF True Some [unfolded r] refl Suc]
        obtain k where "snd (send_loop T hd_len s' (drop (Suc m) out)) = drop k (drop (Suc m) out)" ..
        then show ?thesis
          using True Some r Suc
          by (intro exI [of _ "k + Suc m"]) (simp add: send_loop.simps [of T hd_len s out])
      qed
    qed (use True in \<open>simp add: send_loop.simps [of T hd_len s out] exI [of _ 0]\<close>)
  qed (auto simp add: send_loop.simps [of T hd_len s out] intro: exI [of _ 0])
qed

lemma conn_pull_contents:
  assumes "conn_pull p c = (ys, c')"
  shows "out_buf c = ys @ out_buf c'"
proof -
  obtain T hd_len s where p: "p = (T, hd_len, s)" by (cases p)
  obtain k where "snd (send_loop T hd_len s (out_buf c)) = drop k (out_buf c)"
    using send_loop_suffix [of T hd_len s "out_buf c"] by blast
  moreover have "xs = take (length xs - length (drop k xs)) xs @ drop k xs" for xs :: bytes
    by (cases "k \<le> length xs") simp_all
  ultimately show ?thesis
    using assms p by (auto simp: conn_pull_def Let_def simp del: length_drop)
qed

interpretation out_pipe: fifo_pipe out_buf conn_push conn_pull
  by unfold_locales (auto simp: conn_push_def conn_pull_contents)

definition rd_contents :: "tcp_conn \<times> bchan \<Rightarrow> bytes" where
  "rd_contents st = (case st of (me, ch) \<Rightarrow> drop (read_pos me) (read_buf me) @ concat (chan_q ch))"

definition rd_push :: "bytes \<Rightarrow> tcp_conn \<times> bchan \<Rightarrow> (tcp_conn \<times> bchan) option" where
  "rd_push bs st = (case st of (me, ch) \<Rightarrow> if try_reserve ch then Some (me, permit_send bs ch) else None)"

definition rd_pull :: "nat \<Rightarrow> tcp_conn \<times> bchan \<Rightarrow> bytes \<times> tcp_conn \<times> bchan" where
  "rd_pull n st =
     (case poll_read n st of (ReadReady bs, st') \<Rightarrow> (bs, st') | (ReadPending, st') \<Rightarrow> ([], st'))"

interpretation in_pipe: fifo_pipe rd_contents rd_push rd_pull
proof
  fix bs st st'
  assume "rd_push bs st = Some st'"
  then show "rd_contents st' = rd_contents st @ bs"
    by (auto simp: rd_push_def rd_contents_def permit_send_def split: prod.splits if_splits)
next
  fix n :: nat and st ys st'
  assume pull: "rd_pull n st = (ys, st')"
  obtain me ch where st: "st = (me, ch)" by (cases st)
  show "rd_contents st = ys @ rd_contents st'"
  proof (cases "read_pos me \<ge> length (read_buf me)")
    case True
    show ?thesis
    proof (cases "chan_q ch")
      case (Cons v q)
      have "v = take (min n (length v)) v @ drop (min n (length v)) v" by simp
      with True Cons pull st show ?thesis
        by (auto simp: rd_pull_def rd_contents_def poll_read_def Let_def)
    qed (use True pull st in \<open>auto simp: rd_pull_def rd_contents_def poll_read_def split: if_splits\<close>)
  next
    case False
    let ?k = "min n (length (read_buf me) - read_pos me)"
    have "drop (read_pos me) (read_buf me)
        = take ?k (drop (read_pos me) (read_buf me)) @ drop (read_pos me + ?k) (read_buf me)"
      by (metis append_take_drop_id drop_drop add.commute)
    with False pull st show ?thesis
      by (auto simp: rd_pull_def rd_contents_def poll_read_def Let_def)
  qed
qed

section \<open>Ephemeral ports\<close>

fun ports :: "nat \<Rightarrow> ('s, 'd) actor \<Rightarrow> u16 list" where
  "ports 0 a = []"
| "ports (Suc n) a = (case next_ephemeral_port a of (p, a') \<Rightarrow> p # ports n a')"

lemma unat_next_port:
  assumes "49152 \<le> next_port a"
  shows "unat (next_port (snd (next_ephemeral_port a))) = 49152 + Suc (unat (next_port a) - 49152) mod 16384"
proof (cases "next_port a = 65535")
  case True
  then show ?thesis by (simp add: next_ephemeral_port_def)
next
  case False
  then have "unat (next_port a) \<noteq> unat (65535 :: u16)"
    by (simp only: word_unat_eq_iff not_False_eq_True)
  moreover have "unat (next_port a) < 2 ^ 16"
    using unsigned_less [of "next_port a", where ?'a = nat] by simp
  moreover have "49152 \<le> unat (next_port a)"
    using assms by (simp add: word_le_nat_alt)
  moreover from calculation have "unat (next_port a + 1) = unat (next_port a) + 1"
    by (simp add: unat_word_ariths)
  ultimately show ?thesis
    by (simp add: next_ephemeral_port_def False)
qed

lemma ports_from:
  assumes "49152 \<le> next_port a"
  shows "map unat (ports n a) = map (\<lambda>i. 49152 + (unat (next_port a) - 49152 + i) mod 16384) [0..<n]"
  using assms
proof (induction n arbitrary: a)
  case (Suc n)
  let ?b = "snd (next_ephemeral_port a)" and ?k = "unat (next_port a) - 49152"
  have b: "49152 \<le> next_port ?b" by (rule next_port_ok [OF Suc.prems])
  have k: "?k < 16384" and p: "unat (next_port a) = 49152 + ?k mod 16384"
    using Suc.prems unsigned_less [of "next_port a", where ?'a = nat]
    by (simp_all add: word_le_nat_alt)
  have "unat (next_port ?b) - 49152 = Suc ?k mod 16384"
    using unat_next_port [OF Suc.prems] by simp
  then have "map unat (ports n ?b) = map (\<lambda>i. 49152 + (?k + Suc i) mod 16384) [0..<n]"
    using Suc.IH [OF b] by (simp add: mod_simps)
  moreover have "ports (Suc n) a = next_port a # ports n ?b"
    by (simp add: next_ephemeral_port_def Let_def)
  moreover have "map (\<lambda>i. 49152 + (?k + i) mod 16384) [0..<Suc n]
      = (49152 + ?k mod 16384) # map (\<lambda>i. 49152 + (?k + Suc i) mod 16384) [0..<n]"
    by (simp add: upt_conv_Cons map_Suc_upt [symmetric] o_def del: upt_Suc)
  ultimately show ?case
    using p by simp
qed simp

section \<open>Properties\<close>

lemma actor_new_inv: "actor_inv (actor_new d mtu)"
  by (simp add: actor_inv_def actor_new_def chan_ok_def new_chan_def)


text \<open>
  C28. Every name resolution is accounted for: after any run, each \<open>Resolve\<close> command ever handled is
  either still pending or has been answered, exactly once; no reply is sent twice and none is dropped.
\<close>

theorem resolve_answered_once:
  assumes "actor_run N ts (actor_new d mtu) = Some a"
  shows "mset (map snd (dns_pending a)) + mset (map fst (dns_replies a))
    = mset (concat (map (resolve_ids \<circ> t_cmds) ts))"
  using actor_run_slots [OF assms] by (simp add: dns_slots_def actor_new_def)

text \<open>
  Bytes arrive in order: however the actor's chunks and the reader's calls of \<open>poll_read\<close>, with
  buffers of any size, interleave, what the reader has got is a prefix of what the actor sent, all of
  it once the channel and the read buffer are empty; and while chunks are non-empty a read that
  reports the end of file to a non-empty buffer means that everything was read and the sender is gone.
\<close>

theorem poll_read_in_order:
  assumes "run_pipe rd_push rd_pull ops (\<lparr>read_buf = [], read_pos = 0\<rparr>, new_chan) = (sent, got, st)"
  shows "sent = got @ rd_contents st
    \<and> (\<forall>n me ch st'. st = (me, ch) \<longrightarrow> 0 < n \<longrightarrow> (\<forall>bs \<in> set (chan_q ch). bs \<noteq> [])
         \<longrightarrow> poll_read n st = (ReadReady [], st') \<longrightarrow> got = sent \<and> \<not> chan_tx ch)"
proof -
  have "rd_contents (\<lparr>read_buf = [], read_pos = 0\<rparr>, new_chan) = []"
    by (simp add: rd_contents_def new_chan_def)
  with in_pipe.run_pipe_conserves [OF assms] have sent: "sent = got @ rd_contents st" by simp
  have eof: "rd_contents (me, ch) = [] \<and> \<not> chan_tx ch"
    if "0 < n" "\<forall>bs \<in> set (chan_q ch). bs \<noteq> []" "poll_read n (me, ch) = (ReadReady [], st')"
    for n me ch st'
    using that
    by (auto simp: poll_read_def rd_contents_def Let_def min_def split: list.splits if_splits)
  show ?thesis
    using sent eof by auto
qed

theorem poll_read_in_order_witness:
  "\<exists>st. run_pipe rd_push rd_pull [Push [1, 2, 3], Pull 2, Push [4], Pull 9, Pull 9]
      (\<lparr>read_buf = [], read_pos = 0\<rparr>, new_chan) = ([1, 2, 3, 4], [1, 2, 3, 4], st)
    \<and> rd_contents st = []"
proof -
  have r: "run_pipe rd_push rd_pull [Push [1, 2, 3], Pull 2, Push [4], Pull 9, Pull 9]
      (\<lparr>read_buf = [], read_pos = 0\<rparr>, new_chan)
    = ([1, 2, 3, 4], [1, 2, 3, 4], \<lparr>read_buf = [4], read_pos = 1\<rparr>, new_chan)"
    by (simp add: rd_push_def rd_pull_def poll_read_def new_chan_def try_reserve_def permit_send_def
        CHAN_DEPTH_def Let_def)
  from poll_read_in_order [OF r] show ?thesis
    using r by auto
qed

text \<open>A small network: sockets count the polls they have seen, the handle is the first free one.\<close>

definition toy_alloc :: "(nat \<rightharpoonup> nat) \<Rightarrow> nat" where
  "toy_alloc ss = (if ss 0 = None then 0 else Suc (Max (dom ss)))"

definition toy_net :: "(nat, unit) net_ops" where
  "toy_net = \<lparr>tcp_new = 0, sock_connect = (\<lambda>_ _ s. Inr s),
     sock_state = (\<lambda>s. if s = 1 then Established else if s = 0 then Other_State else Closed),
     is_active = (\<lambda>s. s \<le> 1), can_send = (\<lambda>s. False), can_recv = (\<lambda>s. False),
     send_slice = (\<lambda>bs s. None), recv_slice = (\<lambda>n s. None), sock_close = (\<lambda>s. s),
     set_alloc = toy_alloc, iface_poll = (\<lambda>now rx ss d. ([], [], \<lambda>h. map_option Suc (ss h), d)),
     start_query = (\<lambda>name d. Inr (7, d)), get_query_result = (\<lambda>q d. (DnsPending, d))\<rparr>"

definition toy_turn :: "cmd list \<Rightarrow> turn" where
  "toy_turn cs = \<lparr>t_now = 0, t_keys = sorted_list_of_set, t_ring = length, t_cmds = cs\<rparr>"

lemma toy_net_ok: "smoltcp_ok toy_net"
proof -
  have "toy_alloc ss \<notin> dom ss" if "finite (dom ss)" for ss
  proof (cases "ss 0")
    case (Some s)
    have "Suc (Max (dom ss)) \<notin> dom ss"
      using Max_ge [OF that, of "Suc (Max (dom ss))"] by auto
    with Some show ?thesis by (simp add: toy_alloc_def)
  qed (auto simp: toy_alloc_def)
  then show ?thesis
    by (auto simp: smoltcp_ok_def toy_net_def dom_def)
qed

lemma toy_turn_ok: "turn_ok (toy_turn cs)"
  by (simp add: turn_ok_def toy_turn_def)


lemma toy_net_simps [simp]:
  "tcp_new toy_net = 0" "sock_connect toy_net remote p s = Inr s"
  "sock_state toy_net s = (if s = 1 then Established else if s = 0 then Other_State else Closed)"
  "is_active toy_net s = (s \<le> 1)" "can_send toy_net s = False" "can_recv toy_net s = False"
  "set_alloc toy_net = toy_alloc"
  by (simp_all add: toy_net_def)

lemma toy_poll [simp]:
  "(\<lambda>h. map_option Suc (Map.empty h)) = Map.empty"
  "(\<lambda>h. map_option Suc ([0 \<mapsto> n] h)) = [0 \<mapsto> Suc n]"
  "(\<lambda>h. map_option Suc (if h = 0 then Some n else None)) = [0 \<mapsto> Suc n]"
  by auto

lemma toy_turn_simps [simp]:
  "iface_poll toy_net now rx ss d = ([], [], \<lambda>h. map_option Suc (ss h), d)"
  "t_keys (toy_turn cs) = sorted_list_of_set" "t_cmds (toy_turn cs) = cs"
  by (simp_all add: toy_net_def toy_turn_def)

theorem resolve_answered_once_witness:
  "\<exists>a. actor_run toy_net [toy_turn [Resolve (lit ''a.b'') 5, Resolve (show_ip (V4 (Ipv4 1 1 1 1))) 6]]
      (actor_new () 1280) = Some a
    \<and> mset (map snd (dns_pending a)) + mset (map fst (dns_replies a)) = {#5, 6#}"
proof -
  let ?ts = "[toy_turn [Resolve (lit ''a.b'') 5, Resolve (show_ip (V4 (Ipv4 1 1 1 1))) 6]]"
  obtain a where a: "actor_run toy_net ?ts (actor_new () 1280) = Some a"
    using actor_run_ok [OF toy_net_ok _ actor_new_inv, of ?ts] toy_turn_ok by auto
  from resolve_answered_once [OF a] a show ?thesis by auto
qed

text \<open>
  Handles outlive their connections: \<open>Send\<close> and \<open>Close\<close> are routed by the socket handle alone, and
  the socket set hands out freed handles again. So the holder of a finished connection whose handle
  was given to a later one writes into that later connection, and closes it: here the first
  connection (channel 0) ends and is removed, the second (channel 1, another remote) gets handle 0,
  and data queued through the first one's \<open>TcpConn\<close> lands in the second one's outbound buffer.
\<close>

lemma stale_handle_reaches_next_connection:
  "\<exists>a c. actor_run toy_net
       [toy_turn [Connect (V4 (Ipv4 1 1 1 1), 80) 0 0], toy_turn [], toy_turn [],
        toy_turn [Connect (V4 (Ipv4 9 9 9 9), 443) 1 1], toy_turn [Send 0 [83], Close 0]]
       (actor_new () 1280) = Some a
     \<and> connect_replies a = [(0, Inr 0), (1, Inr 0)]
     \<and> conns a 0 = Some c \<and> from_net c = 1 \<and> out_buf c = [83] \<and> closing c"
proof -
  define st where "st ss cs ch reps p = \<lparr>dev_rx = [], dev_tx = [], dev_mtu = 1280, to_tunnel = [],
      sockets = ss, dns_sock = (), next_port = p, conns = cs, dns_pending = [], chans = ch,
      connect_replies = reps, dns_replies = []\<rparr>"
    for ss :: "nat \<rightharpoonup> nat" and cs ch reps p
  note turn = actor_turn_def poll_egress_def handle_connect_def next_ephemeral_port_def
    service_dns_def service_socket_def service_conn_def resolve_connect_def send_loop.simps
    recv_loop.simps Let_def toy_alloc_def
  let ?c = "\<lambda>n reply. \<lparr>from_net = n, out_buf = [], connect_reply = reply, closing = False\<rparr>"
  let ?ch0 = "(\<lambda>_. new_chan)(0 := new_chan\<lparr>chan_tx := False\<rparr>)"
  have "actor_new () 1280 = st Map.empty Map.empty (\<lambda>_. new_chan) [] 49152"
    by (simp add: actor_new_def st_def)
  moreover have "actor_turn toy_net (toy_turn [Connect (V4 (Ipv4 1 1 1 1), 80) 0 0])
      (st Map.empty Map.empty (\<lambda>_. new_chan) [] 49152)
    = Some (st [0 \<mapsto> 0] [0 \<mapsto> ?c 0 (Some 0)] (\<lambda>_. new_chan) [] 49153)"
    by (simp add: turn st_def)
  moreover have "actor_turn toy_net (toy_turn []) (st [0 \<mapsto> 0] [0 \<mapsto> ?c 0 (Some 0)] (\<lambda>_. new_chan) [] 49153)
    = Some (st [0 \<mapsto> 1] [0 \<mapsto> ?c 0 None] (\<lambda>_. new_chan) [(0, Inr 0)] 49153)"
    by (simp add: turn st_def fun_upd_idem)
  moreover have "actor_turn toy_net (toy_turn []) (st [0 \<mapsto> 1] [0 \<mapsto> ?c 0 None] (\<lambda>_. new_chan) [(0, Inr 0)] 49153)
    = Some (st Map.empty Map.empty ?ch0 [(0, Inr 0)] 49153)"
    by (simp add: turn st_def)
  moreover have "actor_turn toy_net (toy_turn [Connect (V4 (Ipv4 9 9 9 9), 443) 1 1])
      (st Map.empty Map.empty ?ch0 [(0, Inr 0)] 49153)
    = Some (st [0 \<mapsto> 0] [0 \<mapsto> ?c 1 (Some 1)] ?ch0 [(0, Inr 0)] 49154)"
    by (simp add: turn st_def)
  moreover have "actor_turn toy_net (toy_turn [Send 0 [83], Close 0])
      (st [0 \<mapsto> 0] [0 \<mapsto> ?c 1 (Some 1)] ?ch0 [(0, Inr 0)] 49154)
    = Some (st [0 \<mapsto> 1] [0 \<mapsto> \<lparr>from_net = 1, out_buf = [83], connect_reply = None, closing = True\<rparr>]
        ?ch0 [(0, Inr 0), (1, Inr 0)] 49154)"
    by (simp add: turn st_def fun_upd_idem)
  ultimately show ?thesis
    by (simp add: st_def)
qed

end
