(* ===== verification/Tunnel_Io.thy ===== *)
theory Tunnel_Io
  imports Netstack "HOL-Library.Sublist"
begin

text \<open>
  The packet interface of a tunnel, \<open>TunnelIo\<close> of \<open>tunnel.rs\<close> with the \<open>H2Io\<close> of \<open>h2tunnel.rs\<close>, and the
  two users of it in \<open>netstack.rs\<close>: the feeder task and the handles \<open>NetHandle\<close> and \<open>TcpConn\<close> that send
  commands to the actor. What a user relies on is the locale \<open>packet_link\<close>; both transports and their
  sum interpret it.
\<close>

section \<open>The interface\<close>

text \<open>Sending a list of packets, whatever becomes of each: the ones accepted and the final state.\<close>

fun send_all :: "(bytes \<Rightarrow> 's \<Rightarrow> (error + unit) \<times> 's) \<Rightarrow> bytes list \<Rightarrow> 's \<Rightarrow> bytes list \<times> 's" where
  "send_all send [] s = ([], s)"
| "send_all send (p # ps) s =
     (case send p s of
        (Inl e, s') \<Rightarrow> send_all send ps s'
      | (Inr _, s') \<Rightarrow> (case send_all send ps s' of (acc, t) \<Rightarrow> (p # acc, t)))"

text \<open>Receiving until the first error or the end of what has arrived, at most \<open>n\<close> packets.\<close>

fun recv_upto :: "nat \<Rightarrow> ('r \<Rightarrow> ((error + bytes) \<times> 'r) option) \<Rightarrow> 'r \<Rightarrow> bytes list" where
  "recv_upto 0 recv r = []"
| "recv_upto (Suc n) recv r =
     (case recv r of Some (Inr p, r') \<Rightarrow> p # recv_upto n recv r' | _ \<Rightarrow> [])"

locale packet_link =
  fixes send :: "bytes \<Rightarrow> 's \<Rightarrow> (error + unit) \<times> 's"
    and outgoing :: "'s \<Rightarrow> bytes list"
    and recv :: "'r \<Rightarrow> ((error + bytes) \<times> 'r) option"
    and incoming :: "'r \<Rightarrow> bytes list"
  assumes send_accepted: "send p s = (Inr u, s') \<Longrightarrow> outgoing s' = outgoing s @ [p]"
    and send_refused: "send p s = (Inl e, s') \<Longrightarrow> outgoing s' = outgoing s"
    and recv_packet: "recv r = Some (Inr p, r') \<Longrightarrow> incoming r = p # incoming r'"
    and recv_nothing: "recv r = None \<or> recv r = Some (Inl e, r') \<Longrightarrow> incoming r = []"
begin

lemma recv_none: "recv r = None \<Longrightarrow> incoming r = []"
  using recv_nothing by blast

lemma recv_error: "recv r = Some (Inl e, r') \<Longrightarrow> incoming r = []"
  using recv_nothing by blast

text \<open>What is accepted goes out, in order and nothing else.\<close>

lemma send_all_outgoing: "send_all send ps s = (acc, t) \<Longrightarrow> outgoing t = outgoing s @ acc \<and> subseq acc ps"
proof (induction ps arbitrary: s acc)
  case (Cons p ps)
  obtain r s' where s: "send p s = (r, s')" by (cases "send p s")
  show ?case
  proof (cases r)
    case (Inl e)
    with Cons s send_refused [of p s e s'] show ?thesis by auto
  next
    case (Inr u)
    with Cons.prems s obtain acc' where "send_all send ps s' = (acc', t)" "acc = p # acc'"
      by (auto split: prod.splits)
    with Cons.IH [of s' acc'] send_accepted [of p s u s'] s Inr show ?thesis by simp
  qed
qed simp

text \<open>What arrives is received, in order.\<close>

lemma recv_upto_incoming: "recv_upto n recv r = take n (incoming r)"
proof (induction n arbitrary: r)
  case (Suc n)
  show ?case
  proof (cases "recv r")
    case None
    with recv_nothing [of r] show ?thesis by simp
  next
    case (Some res)
    then obtain x r' where x: "recv r = Some (x, r')" by (cases res) simp
    show ?thesis
    proof (cases x)
      case (Inl e)
      with x recv_nothing [of r e r'] show ?thesis by simp
    next
      case (Inr p)
      with x recv_packet [of r p r'] Suc show ?thesis by simp
    qed
  qed
qed simp

end

section \<open>HTTP/2\<close>

text \<open>
  The two ends of \<open>H2Io\<close>: the channel to \<open>writer_loop\<close>, and the channel from \<open>reader_loop\<close> as the packets
  queued with whether the sender is gone.
\<close>

type_synonym h2_in = "bytes list \<times> bool"

definition h2_max_ip_packet :: nat where "h2_max_ip_packet = H2_MTU"

definition h2_send_ip :: "bytes \<Rightarrow> bytes sender \<Rightarrow> (error + unit) \<times> bytes sender" where
  "h2_send_ip packet out =
     (case chan_send out packet of
        None \<Rightarrow> (Inl (Tunnel (lit ''h2 tunnel closed'')), out)
      | Some out' \<Rightarrow> (Inr (), out'))"

fun h2_recv_ip :: "h2_in \<Rightarrow> ((error + bytes) \<times> h2_in) option" where
  "h2_recv_ip (p # ps, closed) = Some (Inr p, ps, closed)"
| "h2_recv_ip ([], True) = Some (Inl (Tunnel (lit ''h2 tunnel closed'')), [], True)"
| "h2_recv_ip ([], False) = None"

interpretation h2_link: packet_link h2_send_ip queued h2_recv_ip fst
proof
  fix p s u s'
  assume "h2_send_ip p s = (Inr u, s')"
  then show "queued s' = queued s @ [p]"
    by (auto simp: h2_send_ip_def dest: chan_send_SomeD split: option.splits)
next
  fix p s e s'
  assume "h2_send_ip p s = (Inl e, s')"
  then show "queued s' = queued s"
    by (auto simp: h2_send_ip_def split: option.splits)
next
  fix r p r'
  assume "h2_recv_ip r = Some (Inr p, r')"
  then show "fst r = p # fst r'" by (cases r rule: h2_recv_ip.cases) auto
next
  fix r e r'
  assume "h2_recv_ip r = None \<or> h2_recv_ip r = Some (Inl e, r')"
  then show "fst r = []" by (cases r rule: h2_recv_ip.cases) auto
qed

section \<open>HTTP/3\<close>

text \<open>
  The packets of this flow among the datagrams sent. The quarter stream id of \<open>connect_h3\<close> is below
  \<open>2\<^sup>6\<^sup>2\<close> whatever the stream id.
\<close>

definition h3_outgoing :: "u64 \<Rightarrow> quic_conn \<Rightarrow> bytes list" where
  "h3_outgoing sid q = List.map_filter (carries (sid div 4)) (dg_sent q)"

lemma quarter_less: "(sid :: u64) div 4 < 2 ^ 62"
proof -
  have "unat sid div 4 < 2 ^ 62"
    using unsigned_less [of sid, where 'a = nat] by (simp add: less_mult_imp_div_less)
  then show ?thesis
    by (simp add: word_less_nat_alt unat_div)
qed

lemma map_filter_snoc: "List.map_filter f (xs @ [x]) = List.map_filter f xs @ (case f x of None \<Rightarrow> [] | Some y \<Rightarrow> [y])"
  by (simp add: List.map_filter_def split: option.split)

interpretation h3_link: packet_link "h3_send_ip (sid div 4)" "h3_outgoing sid"
  "h3_recv_ip (sid div 4)" "h3_recv_all (sid div 4)" for sid :: u64
proof
  fix p s u s'
  assume "h3_send_ip (sid div 4) p s = (Inr u, s')"
  then show "h3_outgoing sid s' = h3_outgoing sid s @ [p]"
    by (auto simp: h3_send_ip_def h3_outgoing_def map_filter_snoc carries_frame [OF quarter_less] Let_def split: option.splits)
next
  fix p s e s'
  assume "h3_send_ip (sid div 4) p s = (Inl e, s')"
  then show "h3_outgoing sid s' = h3_outgoing sid s"
    by (auto simp: h3_send_ip_def Let_def split: option.splits)
next
  fix r p r'
  assume "h3_recv_ip (sid div 4) r = Some (Inr p, r')"
  then show "h3_recv_all (sid div 4) r = p # h3_recv_all (sid div 4) r'"
    by (simp add: h3_recv_all.simps [of _ r])
next
  fix r e r'
  assume "h3_recv_ip (sid div 4) r = None \<or> h3_recv_ip (sid div 4) r = Some (Inl e, r')"
  then show "h3_recv_all (sid div 4) r = []"
    by (auto simp: h3_recv_all.simps [of _ r])
qed

section \<open>The sum\<close>

text \<open>\<open>TunnelIo\<close> with the state of its transport, in each direction.\<close>

datatype io_out = OutH3 u64 quic_conn | OutH2 "bytes sender"
datatype io_in = InH3 u64 "(rstr + bytes) list" | InH2 h2_in

fun io_max_ip_packet :: "io_out \<Rightarrow> nat" where
  "io_max_ip_packet (OutH3 sid q) = h3_max_ip_packet (sid div 4) q"
| "io_max_ip_packet (OutH2 out) = h2_max_ip_packet"

fun io_send_ip :: "bytes \<Rightarrow> io_out \<Rightarrow> (error + unit) \<times> io_out" where
  "io_send_ip packet (OutH3 sid q) = map_prod id (OutH3 sid) (h3_send_ip (sid div 4) packet q)"
| "io_send_ip packet (OutH2 out) = map_prod id OutH2 (h2_send_ip packet out)"

fun io_recv_ip :: "io_in \<Rightarrow> ((error + bytes) \<times> io_in) option" where
  "io_recv_ip (InH3 sid evs) = map_option (map_prod id (InH3 sid)) (h3_recv_ip (sid div 4) evs)"
| "io_recv_ip (InH2 i) = map_option (map_prod id InH2) (h2_recv_ip i)"

fun io_outgoing :: "io_out \<Rightarrow> bytes list" where
  "io_outgoing (OutH3 sid q) = h3_outgoing sid q"
| "io_outgoing (OutH2 out) = queued out"

fun io_incoming :: "io_in \<Rightarrow> bytes list" where
  "io_incoming (InH3 sid evs) = h3_recv_all (sid div 4) evs"
| "io_incoming (InH2 i) = fst i"

interpretation io_link: packet_link io_send_ip io_outgoing io_recv_ip io_incoming
proof
  fix p s u s'
  assume "io_send_ip p s = (Inr u, s')"
  then show "io_outgoing s' = io_outgoing s @ [p]"
    by (cases s) (auto dest: h3_link.send_accepted h2_link.send_accepted simp: map_prod_def split: prod.splits)
next
  fix p s e s'
  assume "io_send_ip p s = (Inl e, s')"
  then show "io_outgoing s' = io_outgoing s"
    by (cases s) (auto dest: h3_link.send_refused h2_link.send_refused simp: map_prod_def split: prod.splits)
next
  fix r p r'
  assume "io_recv_ip r = Some (Inr p, r')"
  then show "io_incoming r = p # io_incoming r'"
    by (cases r) (auto dest: h3_link.recv_packet h2_link.recv_packet)
next
  fix r e r'
  assume "io_recv_ip r = None \<or> io_recv_ip r = Some (Inl e, r')"
  then show "io_incoming r = []"
    by (cases r) (auto dest: h3_link.recv_none h2_link.recv_none h3_link.recv_error h2_link.recv_error)
qed

section \<open>The feeder\<close>

fun io_pending :: "io_in \<Rightarrow> nat" where
  "io_pending (InH3 sid evs) = length evs"
| "io_pending (InH2 i) = length (fst i)"

lemma io_recv_pending: "io_recv_ip r = Some (Inr p, r') \<Longrightarrow> io_pending r' < io_pending r"
proof (cases r)
  case (InH2 i)
  then show "io_recv_ip r = Some (Inr p, r') \<Longrightarrow> ?thesis"
    by (cases i rule: h2_recv_ip.cases) auto
qed (auto dest: h3_recv_ip_shorter)

text \<open>
  The feeder task of \<open>spawn\<close> moves packets from the tunnel to the actor until the tunnel fails or the
  actor is gone.
\<close>

function feeder :: "io_in \<Rightarrow> cmd sender \<Rightarrow> io_in \<times> cmd sender" where
  "feeder io tx =
     (case io_recv_ip io of
        Some (Inr pkt, io') \<Rightarrow>
          (case chan_send tx (Inbound pkt) of
             None \<Rightarrow> (io', tx)
           | Some tx' \<Rightarrow> feeder io' tx')
      | Some (Inl e, io') \<Rightarrow> (io', tx)
      | None \<Rightarrow> (io, tx))"
  by pat_completeness auto
termination
  by (relation "measure (\<lambda>(io, tx). io_pending io)") (auto dest: io_recv_pending)

declare feeder.simps [simp del]

lemma chan_send_None_iff: "chan_send c x = None \<longleftrightarrow> open_for c = Some 0"
  by (simp add: chan_send_def)

lemma chan_send_open_for:
  "chan_send c x = Some c' \<Longrightarrow> open_for c' = map_option (\<lambda>n. n - 1) (open_for c)"
  by (auto simp: chan_send_def split: if_splits)

lemma feeder_queued:
  "queued (snd (feeder io tx)) = queued tx @ map Inbound
     (case open_for tx of None \<Rightarrow> io_incoming io | Some n \<Rightarrow> take n (io_incoming io))"
proof (induction io tx rule: feeder.induct)
  case (1 io tx)
  show ?case
  proof (cases "\<exists>pkt io'. io_recv_ip io = Some (Inr pkt, io')")
    case False
    then consider "io_recv_ip io = None" | e io' where "io_recv_ip io = Some (Inl e, io')"
      by (cases "io_recv_ip io") (auto, metis old.sum.exhaust)
    then have "io_incoming io = []" "snd (feeder io tx) = tx"
      by (cases; auto simp: feeder.simps [of io tx] dest: io_link.recv_none io_link.recv_error)+
    then show ?thesis by (simp split: option.split)
  next
    case True
    then obtain pkt io' where r: "io_recv_ip io = Some (Inr pkt, io')" by blast
    note inc = io_link.recv_packet [OF r]
    show ?thesis
    proof (cases "chan_send tx (Inbound pkt)")
      case None
      then have "open_for tx = Some 0" by (simp only: chan_send_None_iff)
      with r None show ?thesis
        by (simp add: feeder.simps [of io tx])
    next
      case (Some tx')
      then have "open_for tx \<noteq> Some 0" using chan_send_None_iff [of tx "Inbound pkt"] by auto
      with Some r 1 [OF r refl refl Some] chan_send_SomeD [OF Some] chan_send_open_for [OF Some] inc show ?thesis
        by (auto simp: feeder.simps [of io tx] take_Cons' split: option.split)
    qed
  qed
qed

section \<open>Handles\<close>

text \<open>
  \<open>NetHandle::connect\<close>: the command sent and the connection made of the answer. \<open>alive\<close> says whether the
  actor still takes commands, \<open>answer\<close> is what arrives on the reply slot (\<open>None\<close>: it was dropped).
\<close>

definition net_connect :: "bool \<Rightarrow> (rstr + nat) option \<Rightarrow> sock_addr \<Rightarrow> nat \<Rightarrow> nat
    \<Rightarrow> (rstr + nat \<times> tcp_conn) \<times> cmd list" where
  "net_connect alive answer remote ch slot =
     (if \<not> alive then (Inl (lit ''netstack stopped''), [])
      else
        (case answer of
           None \<Rightarrow> Inl (lit ''netstack dropped'')
         | Some (Inl e) \<Rightarrow> Inl e
         | Some (Inr h) \<Rightarrow> Inr (h, \<lparr>read_buf = [], read_pos = 0\<rparr>),
         [Connect remote ch slot]))"

text \<open>\<open>recv\<close> of a connection or its reader half (\<open>None\<close>: it waits; the inner \<open>None\<close> is the end).\<close>

definition conn_recv :: "bchan \<Rightarrow> (bytes option \<times> bchan) option" where
  "conn_recv ch =
     (case chan_q ch of
        v # q \<Rightarrow> Some (Some v, ch\<lparr>chan_q := q\<rparr>)
      | [] \<Rightarrow> if chan_tx ch then None else Some (None, ch))"

definition conn_send :: "bool \<Rightarrow> nat \<Rightarrow> bytes \<Rightarrow> cmd list" where
  "conn_send alive h data = (if alive then [Send h data] else [])"

definition conn_close :: "bool \<Rightarrow> nat \<Rightarrow> cmd list" where
  "conn_close alive h = (if alive then [Close h] else [])"

text \<open>\<open>into_split\<close> and the drop of the writer half, which closes.\<close>

definition into_split :: "nat \<times> bchan \<Rightarrow> bchan \<times> nat" where
  "into_split hc = (case hc of (h, ch) \<Rightarrow> (ch, h))"

definition writer_drop :: "bool \<Rightarrow> nat \<Rightarrow> cmd list" where
  "writer_drop alive h = conn_close alive h"

definition writer_session :: "nat \<Rightarrow> bytes list \<Rightarrow> cmd list" where
  "writer_session h datas = concat (map (conn_send True h) datas) @ writer_drop True h"

lemma send_cmds:
  assumes "conns a h = Some c"
  shows "fold (handle_cmd N) (concat (map (conn_send True h) datas)) a
    = a\<lparr>conns := (conns a)(h \<mapsto> c\<lparr>out_buf := out_buf c @ concat datas\<rparr>)\<rparr>"
  using assms
proof (induction datas arbitrary: a c)
  case Nil
  then show ?case by (simp add: fun_upd_idem)
next
  case (Cons d datas)
  then show ?case by (simp add: conn_send_def fun_upd_same del: fun_upd_apply)
qed

section \<open>Properties\<close>

text \<open>
  C29. The feeder hands the actor exactly what the tunnel delivers: over either transport, the commands
  it sends are the packets received up to the first error, in order, each once, and when the actor
  stops taking commands, the first of them.
\<close>

theorem feeder_delivers:
  "queued (snd (feeder io tx)) = queued tx @ map Inbound
     (case open_for tx of None \<Rightarrow> io_incoming io | Some n \<Rightarrow> take n (io_incoming io))
   \<and> io_incoming (InH3 sid (map (Inr \<circ> h3_frame (sid div 4)) packets)) = packets"
proof -
  have "io_incoming (InH3 sid (map (Inr \<circ> h3_frame (sid div 4)) packets)) = packets"
    by (induction packets) (simp_all add: h3_recv_all_simps carries_frame [OF quarter_less])
  then show ?thesis using feeder_queued by blast
qed

text \<open>
  What is written to a connection reaches its socket's buffer: the commands of a writer that sends
  some chunks and is dropped append exactly those bytes, in order, to the outbound buffer of its
  connection, mark it as closing, and change nothing else of the actor.
\<close>

theorem writer_reaches_actor:
  assumes "conns a h = Some c"
  shows "fold (handle_cmd N) (writer_session h datas) a
    = a\<lparr>conns := (conns a)(h \<mapsto> c\<lparr>out_buf := out_buf c @ concat datas, closing := True\<rparr>)\<rparr>"
  by (simp add: writer_session_def send_cmds [OF assms] writer_drop_def conn_close_def)

theorem writer_reaches_actor_witness:
  "\<exists>c. conns (fold (handle_cmd toy_net) (writer_session 3 [[1, 2], [3]])
      ((actor_new () 1280)\<lparr>conns := [3 \<mapsto> \<lparr>from_net = 0, out_buf = [9], connect_reply = None, closing = False\<rparr>]\<rparr>)) 3
    = Some c \<and> out_buf c = [9, 1, 2, 3] \<and> closing c"
proof -
  let ?a = "(actor_new () 1280 :: (nat, unit) actor)\<lparr>conns := [3 \<mapsto>
      \<lparr>from_net = 0, out_buf = [9], connect_reply = None, closing = False\<rparr>]\<rparr>"
  have "conns ?a 3 = Some \<lparr>from_net = 0, out_buf = [9], connect_reply = None, closing = False\<rparr>"
    by simp
  from writer_reaches_actor [OF this, of toy_net "[[1, 2], [3]]"] show ?thesis by simp
qed

end
