(* ===== verification/Socks.thy ===== *)
theory Socks
  imports Netstack
begin

text \<open>
  The SOCKS5 server of \<open>crates/warp-masque/src/socks.rs\<close>: the greeting and request parser, the routing
  decision between the direct path and the tunnel, and the relay. A client connection is the bytes it
  will still send before closing, what was written to it, and how many writes succeed; the netstack a
  worker offers is a \<open>net_handle\<close>. What the server does on the network is a list of events.
\<close>

section \<open>Client connections\<close>

record client =
  c_in :: bytes
  c_out :: bytes
  c_writes :: "nat option"

type_synonym 'a io = "client \<Rightarrow> (rstr + 'a) \<times> client"

definition io_return :: "'a \<Rightarrow> 'a io" where
  "io_return a c = (Inr a, c)"

definition io_bind :: "'a io \<Rightarrow> ('a \<Rightarrow> 'b io) \<Rightarrow> 'b io" where
  "io_bind m f c = (case m c of (Inl e, c') \<Rightarrow> (Inl e, c') | (Inr a, c') \<Rightarrow> f a c')"

definition read_exact :: "nat \<Rightarrow> bytes io" where
  "read_exact n c =
     (if n \<le> length (c_in c) then (Inr (take n (c_in c)), c\<lparr>c_in := drop n (c_in c)\<rparr>)
      else (Inl (lit ''early eof''), c\<lparr>c_in := []\<rparr>))"

definition write_all :: "bytes \<Rightarrow> unit io" where
  "write_all bs c =
     (if c_writes c = Some 0 then (Inl (lit ''broken pipe''), c)
      else (Inr (), c\<lparr>c_out := c_out c @ bs, c_writes := map_option (\<lambda>n. n - 1) (c_writes c)\<rparr>))"

section \<open>The request parser\<close>

definition VER :: u8 where "VER = 5"
definition CMD_CONNECT :: u8 where "CMD_CONNECT = 1"
definition ATYP_V4 :: u8 where "ATYP_V4 = 1"
definition ATYP_DOMAIN :: u8 where "ATYP_DOMAIN = 3"
definition ATYP_V6 :: u8 where "ATYP_V6 = 4"

definition reply :: "u8 \<Rightarrow> bytes" where
  "reply status = [VER, status, 0, ATYP_V4, 0, 0, 0, 0, 0, 0]"

definition read_host :: "u8 \<Rightarrow> rstr option io" where
  "read_host atyp =
     (if atyp = ATYP_V4 then
        io_bind (read_exact 4) (\<lambda>a. io_return (Some (show_ip (V4 (ipv4_from a)))))
      else if atyp = ATYP_V6 then
        io_bind (read_exact 16) (\<lambda>a. io_return (Some (show_ip (V6 (ipv6_from a)))))
      else if atyp = ATYP_DOMAIN then
        io_bind (read_exact 1) (\<lambda>len.
        io_bind (read_exact (unat (len ! 0))) (\<lambda>d. io_return (Some (from_utf8_lossy d))))
      else io_bind (write_all (reply 0x08)) (\<lambda>_. io_return None))"

definition read_request :: "(rstr \<times> u16) option io" where
  "read_request =
     io_bind (read_exact 2) (\<lambda>head.
     if head ! 0 \<noteq> VER then io_return None else
     io_bind (read_exact (unat (head ! 1))) (\<lambda>methods.
     io_bind (write_all [VER, 0]) (\<lambda>_.
     io_bind (read_exact 4) (\<lambda>req.
     if req ! 0 \<noteq> VER then io_return None
     else if req ! 1 \<noteq> CMD_CONNECT then io_bind (write_all (reply 0x07)) (\<lambda>_. io_return None)
     else
       io_bind (read_host (req ! 3)) (\<lambda>host.
       case host of
         None \<Rightarrow> io_return None
       | Some host \<Rightarrow>
           io_bind (read_exact 2) (\<lambda>pb. io_return (Some (host, from_be_bytes pb))))))))"

section \<open>Routing\<close>

definition is_loopback_host :: "rstr \<Rightarrow> bool" where
  "is_loopback_host host \<longleftrightarrow>
     (if host = lit ''localhost'' \<or> ends_with host (lit ''.localhost'') then True
      else case parse_ip host of Some ip \<Rightarrow> is_loopback ip | None \<Rightarrow> False)"

text \<open>
  A worker's netstack as the server uses it: its account, the DNS lookup through the tunnel and the
  outcome of a connection attempt. \<open>net_resolve\<close> is \<open>NetHandle::resolve\<close> with the netstack's
  \<open>handle_resolve\<close> behind it.
\<close>

record net_handle =
  nh_id :: nat
  nh_lookup :: "rstr \<Rightarrow> rstr + ip_addr"
  nh_connect :: "sock_addr \<Rightarrow> rstr + unit"

datatype socks_event =
    Dial_Direct rstr u16
  | Relay_Direct
  | Tunnel_Lookup nat rstr
  | Tunnel_Connect nat sock_addr
  | Relay_Tunnel nat

definition net_resolve :: "net_handle \<Rightarrow> rstr \<Rightarrow> (rstr + ip_addr) \<times> socks_event list" where
  "net_resolve net name =
     (case parse_ip name of
        Some ip \<Rightarrow> (Inr ip, [])
      | None \<Rightarrow> (nh_lookup net name, [Tunnel_Lookup (nh_id net) name]))"

definition via_netstack :: "net_handle \<Rightarrow> rstr \<Rightarrow> u16 \<Rightarrow> client
    \<Rightarrow> (rstr + unit) \<times> client \<times> socks_event list" where
  "via_netstack net host port c =
     (case net_resolve net host of (ip, evs) \<Rightarrow>
       (case ip of
          Inl _ \<Rightarrow> (case write_all (reply 0x04) c of (r, c) \<Rightarrow> (r, c, evs))
        | Inr ip \<Rightarrow>
            (let evs = evs @ [Tunnel_Connect (nh_id net) (ip, port)] in
             case nh_connect net (ip, port) of
               Inl _ \<Rightarrow> (case write_all (reply 0x05) c of (r, c) \<Rightarrow> (r, c, evs))
             | Inr _ \<Rightarrow>
                 (case write_all (reply 0x00) c of
                    (Inl e, c) \<Rightarrow> (Inl e, c, evs)
                  | (Inr _, c) \<Rightarrow> (Inr (), c, evs @ [Relay_Tunnel (nh_id net)])))))"

definition handle_single :: "net_handle \<Rightarrow> client \<Rightarrow> (rstr + unit) \<times> client \<times> socks_event list" where
  "handle_single net c =
     (case read_request c of
        (Inl e, c) \<Rightarrow> (Inl e, c, [])
      | (Inr None, c) \<Rightarrow> (Inr (), c, [])
      | (Inr (Some (host, port)), c) \<Rightarrow> via_netstack net host port c)"

text \<open>
  \<open>enabled\<close>, \<open>pick\<close> and \<open>dial\<close> are what \<open>Pool::enabled\<close>, \<open>Pool::pick\<close> and \<open>TcpStream::connect\<close>
  give when they are called.
\<close>

definition handle_pool :: "bool \<Rightarrow> net_handle option \<Rightarrow> (rstr \<Rightarrow> u16 \<Rightarrow> rstr + unit) \<Rightarrow> client
    \<Rightarrow> (rstr + unit) \<times> client \<times> socks_event list" where
  "handle_pool enabled pick dial c =
     (case read_request c of
        (Inl e, c) \<Rightarrow> (Inl e, c, [])
      | (Inr None, c) \<Rightarrow> (Inr (), c, [])
      | (Inr (Some (host, port)), c) \<Rightarrow>
          if \<not> enabled \<or> is_loopback_host host then
            (case dial host port of
               Inr _ \<Rightarrow>
                 (case write_all (reply 0x00) c of
                    (Inl e, c) \<Rightarrow> (Inl e, c, [Dial_Direct host port])
                  | (Inr _, c) \<Rightarrow> (Inr (), c, [Dial_Direct host port, Relay_Direct]))
             | Inl _ \<Rightarrow> (case write_all (reply 0x05) c of (r, c) \<Rightarrow> (r, c, [Dial_Direct host port])))
          else
            (case pick of
               None \<Rightarrow> (case write_all (reply 0x01) c of (r, c) \<Rightarrow> (r, c, []))
             | Some net \<Rightarrow> via_netstack net host port c))"

section \<open>The relay\<close>

text \<open>
  The splice of \<open>relay\<close>, cut at its awaits. Towards the client: the reader's \<open>recv\<close> gives a chunk or the
  end; \<open>write_all\<close> then hands the chunk to the client's socket in pieces, and only when it is through, or has
  failed, does the direction go on. Towards the net: reads of the client of at most 8192 bytes, or its
  end. \<open>select!\<close> ends with the first direction that ends and drops the other wherever it is, with what is
  left of a chunk that is being written (\<open>writing\<close>). \<open>None\<close>: the event cannot happen.
\<close>

datatype relay_event =
    Net_Chunk bytes
  | Net_Eof
  | Client_Took nat
  | Client_Broken
  | From_Client bytes
  | Client_End

record relay_state =
  to_client :: bytes
  writing :: "bytes option"
  to_net :: "bytes list"
  client_shut :: bool
  net_closed :: bool

definition relay_start :: relay_state where
  "relay_start = \<lparr>to_client = [], writing = None, to_net = [], client_shut = False, net_closed = False\<rparr>"

fun relay_await :: "relay_event \<Rightarrow> relay_state \<Rightarrow> relay_state option" where
  "relay_await (Net_Chunk v) r =
     (if writing r = None then Some (r\<lparr>writing := (if v = [] then None else Some v)\<rparr>) else None)"
| "relay_await Net_Eof r =
     (if writing r = None then Some (r\<lparr>client_shut := True, net_closed := True\<rparr>) else None)"
| "relay_await (Client_Took n) r =
     (case writing r of
        Some v \<Rightarrow>
          if 0 < n \<and> n \<le> length v then
            Some (r\<lparr>to_client := to_client r @ take n v,
              writing := (if n = length v then None else Some (drop n v))\<rparr>)
          else None
      | None \<Rightarrow> None)"
| "relay_await Client_Broken r =
     (if writing r \<noteq> None then Some (r\<lparr>client_shut := True, net_closed := True\<rparr>) else None)"
| "relay_await (From_Client bs) r =
     (if 0 < length bs \<and> length bs \<le> 8192 then Some (r\<lparr>to_net := to_net r @ [bs]\<rparr>) else None)"
| "relay_await Client_End r = Some (r\<lparr>net_closed := True\<rparr>)"

definition relay :: "relay_event \<Rightarrow> relay_state \<Rightarrow> relay_state option" where
  "relay e r = (if net_closed r then None else relay_await e r)"

text \<open>What is left of the chunk being written.\<close>

definition unwritten :: "relay_state \<Rightarrow> bytes" where
  "unwritten r = (case writing r of Some v \<Rightarrow> v | None \<Rightarrow> [])"

lemma relay_appends:
  assumes "relay e r = Some r'"
  shows "\<exists>bs. to_client r' = to_client r @ bs" "\<exists>vs. to_net r' = to_net r @ vs"
  using assms by (cases e; auto simp: relay_def split: if_splits option.splits)+

lemma relay_unwritten:
  assumes "relay e r = Some r'"
  shows "to_client r' @ unwritten r'
    = to_client r @ unwritten r @ (case e of Net_Chunk v \<Rightarrow> v | _ \<Rightarrow> [])"
  using assms by (cases e) (auto simp: relay_def unwritten_def split: if_splits option.splits)

lemma relay_open: "relay e r = Some r' \<Longrightarrow> \<not> net_closed r"
  by (simp add: relay_def split: if_splits)

section \<open>Facts about requests\<close>

lemmas io_defs = io_bind_def io_return_def read_exact_def write_all_def

lemma pairs_be_words: "pairs_be (concat (map (be_bytes 2) gs)) = (gs :: u16 list)"
proof (induction gs)
  case (Cons g gs)
  have "be_bytes 2 g = [ucast (drop_bit 8 g), ucast g]"
    by (simp add: be_bytes_def upt_rec)
  moreover have "from_be_bytes (be_bytes 2 g) = g"
    by (rule from_be_bytes_be_bytes) simp
  ultimately show ?case
    using Cons by simp
qed simp

text \<open>The address part of a request for a literal address: type and bytes.\<close>

fun addr_bytes :: "ip_addr \<Rightarrow> u8 \<times> bytes" where
  "addr_bytes (V4 a) = (ATYP_V4, octets a)"
| "addr_bytes (V6 (Ipv6 gs)) = (ATYP_V6, concat (map (be_bytes 2) gs))"

lemma length_words: "length (concat (map (be_bytes 2) (gs :: u16 list))) = 2 * length gs"
  by (induction gs) simp_all

lemma read_host_literal:
  assumes "ip_wf a" and "addr_bytes a = (t, bs)"
  shows "read_host t (c\<lparr>c_in := bs @ rest\<rparr>) = (Inr (Some (show_ip a)), c\<lparr>c_in := rest\<rparr>)"
proof (cases a)
  case (V4 b)
  obtain p q r s where "b = Ipv4 p q r s" by (cases b)
  with V4 assms(2) show ?thesis
    by (auto simp: read_host_def io_defs ATYP_V4_def ipv4_from_def simp del: show_ipv4.simps)
next
  case (V6 b)
  obtain gs where b: "b = Ipv6 gs" by (cases b)
  with V6 assms have "length gs = 8" "t = 4" "bs = concat (map (be_bytes 2) gs)"
    by (simp_all add: ipv6_wf_def ATYP_V6_def)
  then show ?thesis
    by (simp add: read_host_def io_defs ATYP_V4_def ATYP_V6_def V6 b ipv6_from_def pairs_be_words
        length_words del: show_ipv6.simps)
qed

text \<open>A well-formed \<open>CONNECT\<close> request, with any authentication methods offered.\<close>

definition connect_bytes :: "bytes \<Rightarrow> u8 \<Rightarrow> u8 \<Rightarrow> bytes \<Rightarrow> u16 \<Rightarrow> bytes" where
  "connect_bytes methods rsv atyp addr port =
     [VER, of_nat (length methods)] @ methods @ [VER, CMD_CONNECT, rsv, atyp] @ addr @ be_bytes 2 port"

lemma read_request_connect:
  assumes "length methods < 256" and "c_writes c \<noteq> Some 0"
    and host: "\<And>d r. read_host atyp (d\<lparr>c_in := addr @ r\<rparr>) = (Inr (Some h), d\<lparr>c_in := r\<rparr>)"
  shows "read_request (c\<lparr>c_in := connect_bytes methods rsv atyp addr port @ rest\<rparr>)
    = (Inr (Some (h, port)), c\<lparr>c_in := rest, c_out := c_out c @ [5, 0],
        c_writes := map_option (\<lambda>n. n - 1) (c_writes c)\<rparr>)"
proof -
  have len: "unat (of_nat (length methods) :: u8) = length methods"
    using assms(1) by (simp add: unsigned_of_nat take_bit_eq_mod)
  have port: "from_be_bytes (be_bytes 2 port) = port"
    by (rule from_be_bytes_be_bytes) simp
  show ?thesis
    using host [where r = "be_bytes 2 port @ rest" and
        d = "c\<lparr>c_out := c_out c @ [5, 0], c_writes := map_option (\<lambda>n. n - 1) (c_writes c)\<rparr>"] assms(2)
    by (simp add: read_request_def connect_bytes_def io_defs VER_def CMD_CONNECT_def len port)
qed

lemma read_request_literal:
  assumes "length methods < 256" and "c_writes c \<noteq> Some 0" and "ip_wf a" and "addr_bytes a = (t, bs)"
  shows "read_request (c\<lparr>c_in := connect_bytes methods rsv t bs port @ rest\<rparr>)
    = (Inr (Some (show_ip a, port)), c\<lparr>c_in := rest, c_out := c_out c @ [5, 0],
        c_writes := map_option (\<lambda>n. n - 1) (c_writes c)\<rparr>)"
  using assms(1,2) by (rule read_request_connect) (rule read_host_literal [OF assms(3,4)])

lemma read_request_domain:
  assumes "length methods < 256" and "c_writes c \<noteq> Some 0" and "length name < 256"
  shows "read_request (c\<lparr>c_in := connect_bytes methods rsv 3 (of_nat (length name) # name) port @ rest\<rparr>)
    = (Inr (Some (from_utf8_lossy name, port)), c\<lparr>c_in := rest, c_out := c_out c @ [5, 0],
        c_writes := map_option (\<lambda>n. n - 1) (c_writes c)\<rparr>)"
  using assms(1,2)
proof (rule read_request_connect)
  fix d r
  have "unat (of_nat (length name) :: u8) = length name"
    using assms(3) by (simp add: unsigned_of_nat take_bit_eq_mod)
  then show "read_host 3 (d\<lparr>c_in := (of_nat (length name) # name) @ r\<rparr>)
      = (Inr (Some (from_utf8_lossy name)), d\<lparr>c_in := r\<rparr>)"
    by (simp add: read_host_def io_defs ATYP_V4_def ATYP_V6_def ATYP_DOMAIN_def)
qed

text \<open>The resolution of a literal address in the netstack answers at once and asks no server.\<close>

lemma handle_resolve_literal:
  assumes "ip_wf a"
  shows "handle_resolve N (show_ip a) slot st = st\<lparr>dns_replies := dns_replies st @ [(slot, Inr a)]\<rparr>"
  by (simp add: handle_resolve_def parse_ip_show [OF assms])

lemma is_loopback_host_literal:
  assumes "ip_wf a"
  shows "is_loopback_host (show_ip a) = is_loopback a"
proof -
  have no: "c \<notin> set (show_ip a)" if "\<not> ip_char c" for c
    using that show_ip_ip_char by blast
  have l: "108 \<notin> set (show_ip a)"
    by (rule no) (simp add: ip_char_def)
  then have "show_ip a \<noteq> lit ''localhost''"
    by (auto simp: lit_simps)
  moreover have "\<not> ends_with (show_ip a) (lit ''.localhost'')"
  proof
    assume "ends_with (show_ip a) (lit ''.localhost'')"
    then have "set (lit ''.localhost'') \<subseteq> set (show_ip a)"
      using set_drop_subset [of _ "show_ip a"] unfolding ends_with_def by metis
    with l show False by (simp add: lit_simps)
  qed
  ultimately show ?thesis
    by (simp add: is_loopback_host_def parse_ip_show [OF assms])
qed

section \<open>Properties\<close>

fun is_direct :: "socks_event \<Rightarrow> bool" where
  "is_direct (Dial_Direct host port) = True"
| "is_direct Relay_Direct = True"
| "is_direct _ = False"

lemma write_all_cases:
  "write_all bs c = (Inl e, c') \<Longrightarrow> c' = c"
  "write_all bs c = (Inr u, c') \<Longrightarrow> c_out c' = c_out c @ bs"
  by (auto simp: write_all_def split: if_splits)

lemma via_netstack_events:
  "via_netstack net host port c = (r, c', evs) \<Longrightarrow> e \<in> set evs \<Longrightarrow> \<not> is_direct e"
  by (auto simp: via_netstack_def net_resolve_def Let_def split: prod.splits sum.splits option.splits)

text \<open>
  C12. Traffic never takes the other path: a connection dials out directly only when WARP is off or the
  requested host is a loopback one, and then to that host and nothing else; it uses the tunnel only
  when WARP is on, the host is not a loopback one and a worker was picked; and a connection never does
  both.
\<close>

theorem socks_paths_are_disjoint:
  assumes "handle_pool enabled pick dial c = (r, c', evs)" and "e \<in> set evs"
  shows "\<exists>host port c1. read_request c = (Inr (Some (host, port)), c1) \<and>
    (if is_direct e then (\<not> enabled \<or> is_loopback_host host) \<and> e \<in> {Dial_Direct host port, Relay_Direct}
     else enabled \<and> \<not> is_loopback_host host \<and> (\<exists>net. pick = Some net
       \<and> e \<in> {Tunnel_Lookup (nh_id net) host, Relay_Tunnel (nh_id net)}
             \<union> {Tunnel_Connect (nh_id net) (ip, port) |ip. True}))"
proof -
  obtain req c1 where rr: "read_request c = (req, c1)" by (cases "read_request c")
  from assms rr obtain host port where h: "req = Inr (Some (host, port))"
    by (cases req) (auto simp: handle_pool_def split: option.splits)
  show ?thesis
  proof (cases "\<not> enabled \<or> is_loopback_host host")
    case True
    with assms rr h show ?thesis
      by (auto simp: handle_pool_def split: prod.splits sum.splits)
  next
    case False
    with assms rr h obtain net where "pick = Some net" "via_netstack net host port c1 = (r, c', evs)"
      by (auto simp: handle_pool_def split: option.splits prod.splits)
    moreover from this False assms(2) rr h show ?thesis
      using via_netstack_events [OF calculation(2)]
      by (auto simp: via_netstack_def net_resolve_def Let_def split: prod.splits sum.splits option.splits)
  qed
qed

theorem socks_paths_are_disjoint_witness:
  "\<exists>host port c1. read_request \<lparr>c_in = [5, 0, 5, 1, 0, 1, 127, 0, 0, 1, 0, 80], c_out = [], c_writes = None\<rparr>
    = (Inr (Some (host, port)), c1) \<and> is_loopback_host host"
proof -
  let ?c = "\<lparr>c_in = [5, 0, 5, 1, 0, 1, 127, 0, 0, 1, 0, 80], c_out = [], c_writes = None\<rparr>"
  have len: "length [] < (256 :: nat)" "ip_wf (V4 (Ipv4 127 0 0 1))"
    "addr_bytes (V4 (Ipv4 127 0 0 1)) = (1, [127, 0, 0, 1])"
    by (simp_all add: ATYP_V4_def)
  have "read_request ?c = (Inr (Some (show_ip (V4 (Ipv4 127 0 0 1)), 80)),
      \<lparr>c_in = [], c_out = [5, 0], c_writes = None\<rparr>)"
    using read_request_literal [OF len(1) _ len(2,3), of "\<lparr>c_in = [], c_out = [], c_writes = None\<rparr>" 0 80 "[]"]
    by (simp add: connect_bytes_def VER_def CMD_CONNECT_def be_bytes_def upt_rec drop_bit_eq_div)
  then have h: "handle_pool True None (\<lambda>_ _. Inl []) ?c
      = (Inr (), \<lparr>c_in = [], c_out = [5, 0] @ reply 5, c_writes = None\<rparr>,
         [Dial_Direct (show_ip (V4 (Ipv4 127 0 0 1))) 80])"
    using is_loopback_host_literal [OF len(2)]
    by (simp add: handle_pool_def write_all_def del: show_ip.simps)
  show ?thesis
    using socks_paths_are_disjoint [OF h, of "Dial_Direct (show_ip (V4 (Ipv4 127 0 0 1))) 80"]
    by (auto simp del: show_ip.simps)
qed

text \<open>
  C11. A literal address is reached as it is, with no DNS lookup: a well-formed \<open>CONNECT\<close> to an IPv4 or
  IPv6 address that is not a loopback one, over a worker that can connect, opens exactly one tunnel
  connection, to exactly that address and port, answers the greeting and then success, and leaves the
  bytes after the request for the relay.
\<close>

theorem socks_literal_target:
  assumes "ip_wf a" and "addr_bytes a = (t, bs)" and "\<not> is_loopback a" and "length methods < 256"
    and "nh_connect net (a, port) = Inr ()"
  shows "handle_pool True (Some net) dial
      \<lparr>c_in = connect_bytes methods rsv t bs port @ rest, c_out = [], c_writes = None\<rparr>
    = (Inr (), \<lparr>c_in = rest, c_out = [5, 0] @ reply 0, c_writes = None\<rparr>,
       [Tunnel_Connect (nh_id net) (a, port), Relay_Tunnel (nh_id net)])"
proof -
  have "read_request \<lparr>c_in = connect_bytes methods rsv t bs port @ rest, c_out = [], c_writes = None\<rparr>
      = (Inr (Some (show_ip a, port)), \<lparr>c_in = rest, c_out = [5, 0], c_writes = None\<rparr>)"
    using read_request_literal [OF assms(4) _ assms(1,2), of "\<lparr>c_in = [], c_out = [], c_writes = None\<rparr>"]
    by simp
  then show ?thesis
    using assms(3,5)
    by (simp add: handle_pool_def is_loopback_host_literal [OF assms(1)] via_netstack_def
        net_resolve_def parse_ip_show [OF assms(1)] write_all_def)
qed

definition toy_handle :: net_handle where
  "toy_handle = \<lparr>nh_id = 3, nh_lookup = (\<lambda>_. Inr (V4 (Ipv4 10 0 0 1))), nh_connect = (\<lambda>_. Inr ())\<rparr>"

lemma toy_request:
  "connect_bytes [0, 2] 0 4 (concat (map (be_bytes 2) [0x2606, 0x4700, 0, 0, 0, 0, 0, 0x1111 :: u16])) 443
    = [5, 2, 0, 2, 5, 1, 0, 4, 0x26, 6, 0x47, 0, 0, 0, 0, 0, 0, 0, 0, 0, 0, 0, 0x11, 0x11, 1, 0xBB]"
  by (simp add: connect_bytes_def VER_def CMD_CONNECT_def be_bytes_def upt_rec drop_bit_eq_div)

theorem socks_literal_target_witness:
  "handle_pool True (Some toy_handle) (\<lambda>_ _. Inl [])
      \<lparr>c_in = [5, 2, 0, 2, 5, 1, 0, 4, 0x26, 6, 0x47, 0, 0, 0, 0, 0, 0, 0, 0, 0, 0, 0, 0x11, 0x11,
          1, 0xBB, 22, 3], c_out = [], c_writes = None\<rparr>
    = (Inr (), \<lparr>c_in = [22, 3], c_out = [5, 0, 5, 0, 0, 1, 0, 0, 0, 0, 0, 0], c_writes = None\<rparr>,
       [Tunnel_Connect 3 (V6 (Ipv6 [0x2606, 0x4700, 0, 0, 0, 0, 0, 0x1111]), 443), Relay_Tunnel 3])"
  using socks_literal_target [of "V6 (Ipv6 [0x2606, 0x4700, 0, 0, 0, 0, 0, 0x1111])" 4
      "concat (map (be_bytes 2) [0x2606, 0x4700, 0, 0, 0, 0, 0, 0x1111 :: u16])" "[0, 2]" toy_handle 443
      "\<lambda>_ _. Inl []" 0 "[22, 3]"]
  by (simp add: ipv6_wf_def ATYP_V6_def toy_handle_def toy_request reply_def VER_def ATYP_V4_def
      del: map_map concat.simps list.map)

fun is_relay :: "socks_event \<Rightarrow> bool" where
  "is_relay Relay_Direct = True"
| "is_relay (Relay_Tunnel n) = True"
| "is_relay _ = False"

lemma write_all_open:
  "c_writes c = None \<Longrightarrow> write_all bs c = (Inr (), c\<lparr>c_out := c_out c @ bs\<rparr>)"
  by (simp add: write_all_def)

lemma read_host_open:
  assumes "c_writes c = None" and "read_host atyp c = (x, c1)"
  shows "c_writes c1 = None \<and> (c_out c1 = c_out c \<and> x \<noteq> Inr None
    \<or> x = Inr None \<and> c_out c1 = c_out c @ reply 8)"
  using assms
  by (auto simp: read_host_def io_bind_def io_return_def read_exact_def write_all_open
      split: if_splits sum.splits)

lemma read_request_open:
  assumes "c_writes c = None" and "c_out c = []" and "read_request c = (x, c1)"
  shows "c_writes c1 = None \<and> (case x of
      Inr (Some _) \<Rightarrow> c_out c1 = [5, 0]
    | Inr None \<Rightarrow> c_out c1 \<in> {[], [5, 0], [5, 0] @ reply 7, [5, 0] @ reply 8}
    | Inl _ \<Rightarrow> c_out c1 \<in> {[], [5, 0]})"
  using assms
  by (auto simp: read_request_def io_bind_def io_return_def read_exact_def write_all_open VER_def
      split: if_splits sum.splits option.splits prod.splits dest!: read_host_open [rotated])

text \<open>
  C32. One answer per connection, and success means a relay: after the greeting reply a connection gets
  at most one of the six replies of the protocol, and the client is told that the connection succeeded
  exactly when its bytes are going to be relayed.
\<close>

theorem socks_one_reply:
  assumes "handle_pool enabled pick dial c = (r, c', evs)" and "c_out c = []" and "c_writes c = None"
  shows "(c_out c' \<in> {[], [5, 0]} \<or> (\<exists>status \<in> {0, 1, 4, 5, 7, 8}. c_out c' = [5, 0] @ reply status))
    \<and> (c_out c' = [5, 0] @ reply 0 \<longleftrightarrow> (\<exists>e \<in> set evs. is_relay e))"
proof -
  obtain req c1 where rr: "read_request c = (req, c1)" by (cases "read_request c")
  note open1 = read_request_open [OF assms(3,2) rr]
  have neq: "reply s = reply t \<longleftrightarrow> s = t" for s t
    by (simp add: reply_def)
  consider "\<exists>e. req = Inl e" | "req = Inr None" | host port where "req = Inr (Some (host, port))"
    by (cases req) (auto, metis option.exhaust surj_pair)
  then show ?thesis
  proof cases
    case 1
    with assms(1) rr open1 show ?thesis
      by (auto simp: handle_pool_def reply_def)
  next
    case 2
    with assms(1) rr open1 show ?thesis
      by (auto simp: handle_pool_def neq reply_def)
  next
    case 3
    with assms(1) rr open1 show ?thesis
      by (auto simp: handle_pool_def via_netstack_def net_resolve_def write_all_open neq Let_def
          split: if_splits sum.splits option.splits prod.splits)
  qed
qed

theorem socks_one_reply_witness:
  "c_out (fst (snd (handle_pool True None (\<lambda>_ _. Inl [])
      \<lparr>c_in = [5, 0, 5, 1, 0, 1, 8, 8, 8, 8, 0, 53], c_out = [], c_writes = None\<rparr>))) \<noteq> [5, 0] @ reply 0"
proof -
  let ?c = "\<lparr>c_in = [5, 0, 5, 1, 0, 1, 8, 8, 8, 8, 0, 53], c_out = [], c_writes = None\<rparr>"
  obtain r c' evs where h: "handle_pool True None (\<lambda>_ _. Inl []) ?c = (r, c', evs)"
    by (cases "handle_pool True None (\<lambda>_ _. Inl []) ?c")
  have e: "\<forall>e \<in> set evs. \<not> is_relay e"
    using h by (auto simp: handle_pool_def split: sum.splits option.splits if_splits prod.splits)
  show ?thesis
    using socks_one_reply [OF h] e by (auto simp: h)
qed

end
