(* ===== verification/Proxied_Conn.thy ===== *)
theory Proxied_Conn
  imports Tunnel_Io Socks
begin

text \<open>
  One proxied connection from end to end: the relay of \<open>socks.rs\<close>, the two halves of its \<open>TcpConn\<close>, the
  command channel to the actor thread of \<open>netstack.rs\<close>, the connection's entry there and its socket,
  while the actor serves any other connections and any other holder of a sender queues any commands,
  those for the same handle included: commands are routed by the handle alone, and a writer that outlives
  its connection still has it. Towards the client a chunk that was received is written in pieces, and what
  is left of it when the relay ends is lost. The actor runs as long as anyone holds the sender of its
  commands, as the connection does, so the sends of its halves never fail; an error of a read from the
  client is its end.
\<close>

section \<open>What a socket takes and gives\<close>

text \<open>The bytes that the calls of \<open>send_slice\<close> in the send loop take, and those \<open>recv_slice\<close> gives.\<close>

function accepted :: "('s, 'z) tcp_ops_scheme \<Rightarrow> (bytes \<Rightarrow> nat) \<Rightarrow> 's \<Rightarrow> bytes \<Rightarrow> bytes" where
  "accepted T hd_len s out =
     (if can_send T s \<and> out \<noteq> [] then
        (case send_slice T (take (hd_len out) out) s of
           None \<Rightarrow> []
         | Some (0, s') \<Rightarrow> []
         | Some (Suc n, s') \<Rightarrow> take (Suc n) (take (hd_len out) out) @ accepted T hd_len s' (drop (Suc n) out))
      else [])"
  by pat_completeness auto
termination
  by (relation "measure (\<lambda>(T, hd_len, s, out). length out)") auto

function received :: "('s, 'z) tcp_ops_scheme \<Rightarrow> 's \<Rightarrow> bchan \<Rightarrow> bytes" where
  "received T s c =
     (if can_recv T s \<and> try_reserve c then
        (case recv_slice T RECV_CHUNK s of
           None \<Rightarrow> []
         | Some (bs, s') \<Rightarrow> if bs = [] then [] else bs @ received T s' (permit_send bs c))
      else [])"
  by pat_completeness auto
termination
  by (relation "measure (\<lambda>(T, s, c). CHAN_DEPTH - length (chan_q c))")
    (auto simp: try_reserve_def permit_send_def)

declare accepted.simps [simp del] received.simps [simp del]

text \<open>A socket takes no more than it is offered.\<close>

definition takes_offered :: "('s, 'z) tcp_ops_scheme \<Rightarrow> bool" where
  "takes_offered T \<longleftrightarrow> (\<forall>bs s n s'. send_slice T bs s = Some (n, s') \<longrightarrow> n \<le> length bs)"

lemma send_loop_accepted:
  assumes "takes_offered T"
  shows "accepted T hd_len s out @ snd (send_loop T hd_len s out) = out"
  using assms
proof (induction T hd_len s out rule: send_loop.induct)
  case (1 T hd_len s out)
  note simps = accepted.simps [of T hd_len s out] send_loop.simps [of T hd_len s out]
  show ?case
  proof (cases "can_send T s \<and> out \<noteq> []")
    case True
    show ?thesis
    proof (cases "send_slice T (take (hd_len out) out) s")
      case (Some r)
      obtain n s' where r: "r = (n, s')" by (cases r)
      show ?thesis
      proof (cases n)
        case (Suc m)
        have "n \<le> length (take (hd_len out) out)"
          using 1(2) Some r unfolding takes_offered_def by blast
        then have "take (Suc m) (take (hd_len out) out) = take (Suc m) out"
          using Suc by (simp add: min_absorb1)
        then show ?thesis
          using True Some r Suc "1.IH" [OF True Some [unfolded r] refl Suc 1(2)] by (simp add: simps)
      qed (use True Some r in \<open>simp add: simps\<close>)
    qed (use True in \<open>simp add: simps\<close>)
  qed (auto simp: simps)
qed

lemma recv_loop_received:
  "concat (chan_q (snd (recv_loop T s c))) = concat (chan_q c) @ received T s c"
proof (induction T s c rule: recv_loop.induct)
  case (1 T s c)
  note simps = received.simps [of T s c] recv_loop.simps [of T s c]
  show ?case
  proof (cases "can_recv T s \<and> try_reserve c")
    case True
    show ?thesis
    proof (cases "recv_slice T RECV_CHUNK s")
      case (Some r)
      obtain bs s' where r: "r = (bs, s')" by (cases r)
      show ?thesis
        using True Some r "1.IH" [OF True Some [unfolded r] refl] by (simp add: simps permit_send_def)
    qed (use True in \<open>simp add: simps\<close>)
  qed (auto simp: simps)
qed

section \<open>The connection\<close>

text \<open>
  \<open>h\<close> is the handle of the connection, \<open>ch\<close> its channel from the actor to the reader and \<open>slot\<close> the
  reply slot of its \<open>connect\<close>. \<open>lk_queue\<close> is the command channel to the actor, which all clients share, and
  \<open>lk_log\<close> the commands for \<open>h\<close> that were ever put into it, each with whether the connection's own writer
  sent it: commands are routed by the handle alone, so the holder of an earlier connection that had the
  same handle can send to this one. \<open>lk_up\<close> and \<open>lk_down\<close> record what the connection's socket took and gave.
\<close>

datatype link_phase = Connecting | Relaying

record ('s, 'd) link =
  lk_actor :: "('s, 'd) actor"
  lk_queue :: "cmd list"
  lk_phase :: link_phase
  lk_relay :: relay_state
  lk_log :: "(bool \<times> cmd) list"
  lk_up :: bytes
  lk_down :: bytes

definition link_open :: "('s, 'd) link \<Rightarrow> bool" where
  "link_open l \<longleftrightarrow> lk_phase l = Relaying \<and> \<not> net_closed (lk_relay l)"

text \<open>The actor's entry for this connection; the handle may have passed on to another one.\<close>

definition current :: "nat \<Rightarrow> nat \<Rightarrow> ('s, 'd) actor \<Rightarrow> conn option" where
  "current h ch a =
     (case conns a h of Some c \<Rightarrow> if from_net c = ch then Some c else None | None \<Rightarrow> None)"

fun aimed :: "nat \<Rightarrow> cmd \<Rightarrow> bool" where
  "aimed h (Send h' data) \<longleftrightarrow> h' = h"
| "aimed h (Close h') \<longleftrightarrow> h' = h"
| "aimed h _ \<longleftrightarrow> False"

fun opens_chan :: "nat \<Rightarrow> cmd \<Rightarrow> bool" where
  "opens_chan ch (Connect remote ch' rp) \<longleftrightarrow> ch' = ch"
| "opens_chan ch _ \<longleftrightarrow> False"

section \<open>Its steps\<close>

definition enqueue :: "nat \<Rightarrow> bool \<Rightarrow> cmd list \<Rightarrow> ('s, 'd) link \<Rightarrow> ('s, 'd) link" where
  "enqueue h own cs l =
     l\<lparr>lk_queue := lk_queue l @ cs, lk_log := lk_log l @ map (Pair own) (filter (aimed h) cs)\<rparr>"

definition set_chan :: "nat \<Rightarrow> bchan \<Rightarrow> ('s, 'd) link \<Rightarrow> ('s, 'd) link" where
  "set_chan ch k l = l\<lparr>lk_actor := (lk_actor l)\<lparr>chans := (chans (lk_actor l))(ch := k)\<rparr>\<rparr>"

text \<open>The end of \<open>relay\<close> drops both halves: the writer closes, the channel has no receiver any more.\<close>

definition drop_halves :: "nat \<Rightarrow> nat \<Rightarrow> ('s, 'd) link \<Rightarrow> ('s, 'd) link" where
  "drop_halves h ch l =
     (if net_closed (lk_relay l) then
        enqueue h True (writer_drop True h) (set_chan ch ((chans (lk_actor l) ch)\<lparr>chan_rx := False\<rparr>) l)
      else l)"

definition relay_do :: "relay_event \<Rightarrow> ('s, 'd) link \<Rightarrow> ('s, 'd) link option" where
  "relay_do e l =
     (if lk_phase l = Relaying then map_option (\<lambda>r. l\<lparr>lk_relay := r\<rparr>) (relay e (lk_relay l)) else None)"

text \<open>
  The service of the connection in a turn of the actor, and with it what its socket takes and gives.
\<close>

definition link_service :: "('s, 'd) net_ops \<Rightarrow> nat \<Rightarrow> nat \<Rightarrow> turn \<Rightarrow> ('s, 'd) actor
    \<Rightarrow> ('s \<times> conn) option" where
  "link_service N h ch t a =
     (case (current h ch a, sockets (poll_egress N (t_now t) a) h) of
        (Some c, Some s) \<Rightarrow> Some (s, c)
      | _ \<Rightarrow> None)"

definition turn_up :: "('s, 'd) net_ops \<Rightarrow> nat \<Rightarrow> nat \<Rightarrow> turn \<Rightarrow> ('s, 'd) actor \<Rightarrow> bytes" where
  "turn_up N h ch t a =
     (case link_service N h ch t a of
        Some (s, c) \<Rightarrow> accepted N (t_ring t) s (out_buf c)
      | None \<Rightarrow> [])"

definition turn_down :: "('s, 'd) net_ops \<Rightarrow> nat \<Rightarrow> nat \<Rightarrow> turn \<Rightarrow> ('s, 'd) actor \<Rightarrow> bytes" where
  "turn_down N h ch t a =
     (case link_service N h ch t a of
        Some (s, c) \<Rightarrow> received N (fst (send_loop N (t_ring t) s (out_buf c))) (chans a ch)
      | None \<Rightarrow> [])"

text \<open>
  The events: \<open>connect\<close> returns; a read of the client gives bytes or its end; the reader's \<open>recv\<close> returns;
  the client's socket takes \<open>n\<close> bytes of the chunk being written, or the write fails; anyone else
  sends commands, whatever their handles, with the channels of their own; and the actor makes a turn,
  handling the first \<open>n\<close> commands of the queue.
\<close>

datatype link_event =
    Connected
  | Client_Data bytes
  | Client_Done
  | Net_Ready
  | Client_Writes nat
  | Client_Fails
  | Others "cmd list"
  | Turn turn nat

fun link_step :: "('s, 'd) net_ops \<Rightarrow> nat \<Rightarrow> nat \<Rightarrow> nat \<Rightarrow> link_event \<Rightarrow> ('s, 'd) link
    \<Rightarrow> ('s, 'd) link option" where
  "link_step N h ch slot Connected l =
     (if lk_phase l = Connecting \<and> (slot, Inr h) \<in> set (connect_replies (lk_actor l))
      then Some (l\<lparr>lk_phase := Relaying\<rparr>) else None)"
| "link_step N h ch slot (Client_Data bs) l =
     map_option (enqueue h True (conn_send True h bs)) (relay_do (From_Client bs) l)"
| "link_step N h ch slot Client_Done l =
     map_option (\<lambda>l. drop_halves h ch (enqueue h True (conn_close True h) l)) (relay_do Client_End l)"
| "link_step N h ch slot Net_Ready l =
     (case conn_recv (chans (lk_actor l) ch) of
        None \<Rightarrow> None
      | Some (chunk, k) \<Rightarrow>
          map_option (\<lambda>l. drop_halves h ch (set_chan ch k l))
            (relay_do (case chunk of Some v \<Rightarrow> Net_Chunk v | None \<Rightarrow> Net_Eof) l))"
| "link_step N h ch slot (Client_Writes n) l = relay_do (Client_Took n) l"
| "link_step N h ch slot Client_Fails l = map_option (drop_halves h ch) (relay_do Client_Broken l)"
| "link_step N h ch slot (Others cs) l =
     (if list_all (\<lambda>cmd. \<not> opens_chan ch cmd) cs then Some (enqueue h False cs l) else None)"
| "link_step N h ch slot (Turn t n) l =
     (if turn_ok t then
        map_option (\<lambda>a. l\<lparr>lk_actor := a, lk_queue := drop n (lk_queue l),
            lk_up := lk_up l @ turn_up N h ch t (lk_actor l),
            lk_down := lk_down l @ turn_down N h ch t (lk_actor l)\<rparr>)
          (actor_turn N (t\<lparr>t_cmds := take n (lk_queue l)\<rparr>) (lk_actor l))
      else None)"

fun link_run :: "('s, 'd) net_ops \<Rightarrow> nat \<Rightarrow> nat \<Rightarrow> nat \<Rightarrow> link_event list \<Rightarrow> ('s, 'd) link
    \<Rightarrow> ('s, 'd) link option" where
  "link_run N h ch slot [] l = Some l"
| "link_run N h ch slot (e # es) l = Option.bind (link_step N h ch slot e l) (link_run N h ch slot es)"

text \<open>
  The start: the turn of the actor in which it handled the \<open>Connect\<close> of \<open>NetHandle::connect\<close> has ended.
  \<open>drained\<close> are the commands it handled after it, \<open>q\<close> those that have been queued since; any
  of them may be for the handle the connection got.
\<close>

definition link_start :: "('s, 'd) net_ops \<Rightarrow> sock_addr \<Rightarrow> nat \<Rightarrow> nat \<Rightarrow> nat \<Rightarrow> cmd list \<Rightarrow> cmd list
    \<Rightarrow> ('s, 'd) actor \<Rightarrow> ('s, 'd) link" where
  "link_start N remote h ch slot drained q a =
     \<lparr>lk_actor = fold (handle_cmd N) (Connect remote ch slot # drained) a, lk_queue = q, lk_phase = Connecting,
      lk_relay = relay_start, lk_log = map (Pair False) (filter (aimed h) (drained @ q)),
      lk_up = [], lk_down = []\<rparr>"

definition link_ready :: "('s, 'd) net_ops \<Rightarrow> sock_addr \<Rightarrow> nat \<Rightarrow> nat \<Rightarrow> cmd list \<Rightarrow> ('s, 'd) actor \<Rightarrow> bool" where
  "link_ready N remote h ch q a \<longleftrightarrow> actor_inv a \<and> list_all (\<lambda>cmd. \<not> opens_chan ch cmd) q \<and> chans a ch = new_chan
     \<and> (\<forall>c \<in> ran (conns a). from_net c \<noteq> ch) \<and> set_alloc N (sockets a) = h
     \<and> \<not> isl (sock_connect N remote (next_port a) (tcp_new N))"

section \<open>The actor, seen from this connection\<close>

definition only_conn :: "nat \<Rightarrow> nat \<Rightarrow> ('s, 'd) actor \<Rightarrow> bool" where
  "only_conn h ch a \<longleftrightarrow> (\<forall>h' c. conns a h' = Some c \<longrightarrow> from_net c = ch \<longrightarrow> h' = h)"

text \<open>What a command does to the entry.\<close>

fun absorb :: "nat \<Rightarrow> cmd \<Rightarrow> conn \<Rightarrow> conn" where
  "absorb h (Send h' data) c = (if h' = h then c\<lparr>out_buf := out_buf c @ data\<rparr> else c)"
| "absorb h (Close h') c = (if h' = h then c\<lparr>closing := True\<rparr> else c)"
| "absorb h _ c = c"

fun sends_to :: "nat \<Rightarrow> cmd list \<Rightarrow> bytes" where
  "sends_to h [] = []"
| "sends_to h (Send h' data # cs) = (if h' = h then data @ sends_to h cs else sends_to h cs)"
| "sends_to h (_ # cs) = sends_to h cs"

lemma sends_to_append [simp]: "sends_to h (cs @ ds) = sends_to h cs @ sends_to h ds"
  by (induction h cs rule: sends_to.induct) simp_all

lemma absorb_fields:
  "out_buf (fold (absorb h) cs c) = out_buf c @ sends_to h cs"
  "closing (fold (absorb h) cs c) \<longleftrightarrow> closing c \<or> Close h \<in> set cs"
  by (induction h cs arbitrary: c rule: sends_to.induct) auto

lemma handle_cmd_current:
  assumes "smoltcp_ok N" "actor_inv a" "only_conn h ch a" "\<not> opens_chan ch cmd"
  shows "current h ch (handle_cmd N cmd a) = map_option (absorb h cmd) (current h ch a)"
    and "chans (handle_cmd N cmd a) ch = chans a ch"
    and "only_conn h ch (handle_cmd N cmd a)"
proof -
  have new: "conns a (set_alloc N (sockets a)) = None"
    using smoltcp_alloc [OF assms(1), of "sockets a"] assms(2) by (auto simp: actor_inv_def)
  show "current h ch (handle_cmd N cmd a) = map_option (absorb h cmd) (current h ch a)"
    using assms(4) new
    by (cases cmd) (auto simp: current_def handle_connect_def next_ephemeral_port_def handle_resolve_def Let_def
        split: option.splits sum.splits)
  show "chans (handle_cmd N cmd a) ch = chans a ch" "only_conn h ch (handle_cmd N cmd a)"
    using assms(3,4)
    by (cases cmd; auto simp: only_conn_def handle_connect_def next_ephemeral_port_def handle_resolve_def Let_def
        split: option.splits sum.splits if_splits)+
qed

lemma handle_cmds_current:
  assumes "smoltcp_ok N" "actor_inv a" "only_conn h ch a" "list_all (\<lambda>cmd. \<not> opens_chan ch cmd) cs"
  shows "current h ch (fold (handle_cmd N) cs a) = map_option (fold (absorb h) cs) (current h ch a)
    \<and> chans (fold (handle_cmd N) cs a) ch = chans a ch \<and> only_conn h ch (fold (handle_cmd N) cs a)"
  using assms(2-)
proof (induction cs arbitrary: a)
  case (Cons cmd cs)
  note step = handle_cmd_current [OF assms(1) Cons.prems(1,2), of cmd]
  from Cons.IH [OF handle_cmd_ok [OF assms(1) Cons.prems(1)]] Cons.prems(3) step show ?case
    by (auto simp: option.map_comp o_def)
qed (simp add: id_def option.map_ident)

text \<open>Servicing another connection leaves this one alone.\<close>

lemma service_socket_other:
  assumes "only_conn h ch a" and "h' \<noteq> h" and "service_socket N hd_len h' a = Some a'"
  shows "conns a' h = conns a h" "sockets a' h = sockets a h" "chans a' ch = chans a ch" "only_conn h ch a'"
  using assms
  by (auto simp: service_socket_def service_conn_def only_conn_def Let_def
      split: option.splits prod.splits if_splits)

lemma service_sockets_others:
  "only_conn h ch a \<Longrightarrow> h \<notin> set hs \<Longrightarrow> service_sockets N hd_len hs a = Some a' \<Longrightarrow>
   conns a' h = conns a h \<and> sockets a' h = sockets a h \<and> chans a' ch = chans a ch \<and> only_conn h ch a'"
proof (induction hs arbitrary: a)
  case (Cons h' hs)
  then obtain b where b: "service_socket N hd_len h' a = Some b" "service_sockets N hd_len hs b = Some a'"
    by (auto split: bind_splits)
  note o = service_socket_other [OF Cons.prems(1) _ b(1)]
  from Cons.prems(2) Cons.IH [OF o(4) _ b(2)] o show ?case by auto
qed simp

lemma service_sockets_append:
  "service_sockets N hd_len (hs @ hs') a
     = Option.bind (service_sockets N hd_len hs a) (service_sockets N hd_len hs')"
  by (induction hs arbitrary: a) (auto split: bind_split)

text \<open>Among all keys in any order, this connection is serviced once, in the state the poll left it.\<close>

lemma service_sockets_this:
  assumes "only_conn h ch a" "distinct hs" "h \<in> set hs" "service_sockets N hd_len hs a = Some a'"
  obtains b c where "conns b h = conns a h" "sockets b h = sockets a h" "chans b ch = chans a ch"
    "only_conn h ch b" "service_socket N hd_len h b = Some c"
    "conns a' h = conns c h" "chans a' ch = chans c ch" "only_conn h ch a'"
proof -
  from assms(3) obtain xs ys where hs: "hs = xs @ h # ys" by (meson split_list)
  with assms(2) have n: "h \<notin> set xs" "h \<notin> set ys" by auto
  from assms(4) hs obtain b c where
    b: "service_sockets N hd_len xs a = Some b" "service_socket N hd_len h b = Some c"
      "service_sockets N hd_len ys c = Some a'"
    by (auto simp: service_sockets_append split: bind_splits)
  note o = service_sockets_others [OF assms(1) n(1) b(1)]
  have "only_conn h ch c"
    using o b(2)
    by (auto simp: service_socket_def service_conn_def only_conn_def Let_def
        split: option.splits prod.splits if_splits)
  from service_sockets_others [OF this n(2) b(3)] o b(2) that show thesis by blast
qed

lemma service_conn_entry:
  "service_conn N hd_len h s c k = (rp, rem, s', c', k') \<Longrightarrow> from_net c' = from_net c"
  by (auto simp: service_conn_def Let_def split: prod.splits)

lemma service_sockets_current:
  assumes o: "only_conn h ch a" and hs: "distinct hs" "set hs = dom (conns a)"
    and run: "service_sockets N hd_len hs a = Some a'"
  shows "only_conn h ch a'"
    and "current h ch a = None \<Longrightarrow> current h ch a' = None \<and> chans a' ch = chans a ch"
    and "current h ch a = Some c \<Longrightarrow> \<exists>s. sockets a h = Some s \<and>
      (case service_conn N hd_len h s c (chans a ch) of (rp, rem, s', c', k) \<Rightarrow>
         chans a' ch = (if rem then k\<lparr>chan_tx := False\<rparr> else k)
         \<and> current h ch a' = (if rem then None else Some c'))"
proof -
  have this: "(only_conn h ch a')
    \<and> (current h ch a = None \<longrightarrow> current h ch a' = None \<and> chans a' ch = chans a ch)
    \<and> (current h ch a = Some c \<longrightarrow> (\<exists>s. sockets a h = Some s \<and>
      (case service_conn N hd_len h s c (chans a ch) of (rp, rem, s', c', k) \<Rightarrow>
         chans a' ch = (if rem then k\<lparr>chan_tx := False\<rparr> else k)
         \<and> current h ch a' = (if rem then None else Some c'))))"
  proof (cases "h \<in> dom (conns a)")
    case False
    with hs have "h \<notin> set hs" by simp
    from service_sockets_others [OF o this run] False show ?thesis
      by (auto simp: current_def domIff)
  next
    case True
    then obtain d where d: "conns a h = Some d" by blast
    from True hs have "h \<in> set hs" by simp
    from service_sockets_this [OF o hs(1) this run] obtain b b' where
      b: "conns b h = conns a h" "sockets b h = sockets a h" "chans b ch = chans a ch" "only_conn h ch b"
        "service_socket N hd_len h b = Some b'" "conns a' h = conns b' h" "chans a' ch = chans b' ch"
        "only_conn h ch a'" .
    from b d obtain s where s: "sockets a h = Some s"
      by (auto simp: service_socket_def split: option.splits)
    obtain rp rem s' d' k where v: "service_conn N hd_len h s d (chans b (from_net d)) = (rp, rem, s', d', k)"
      by (cases "service_conn N hd_len h s d (chans b (from_net d))")
    note eff = b(5) [unfolded service_socket_def b(1,2) d s, simplified v option.case prod.case option.inject]
    show ?thesis
    proof (cases "from_net d = ch")
      case True
      then show ?thesis
        using eff b(3,6,7,8) d s v service_conn_entry [OF v] by (auto simp: current_def)
    next
      case False
      then show ?thesis
        using eff b(3,6,7,8) d s v service_conn_entry [OF v] by (auto simp: current_def)
    qed
  qed
  then show "only_conn h ch a'"
    and "current h ch a = None \<Longrightarrow> current h ch a' = None \<and> chans a' ch = chans a ch"
    and "current h ch a = Some c \<Longrightarrow> \<exists>s. sockets a h = Some s \<and>
      (case service_conn N hd_len h s c (chans a ch) of (rp, rem, s', c', k) \<Rightarrow>
         chans a' ch = (if rem then k\<lparr>chan_tx := False\<rparr> else k)
         \<and> current h ch a' = (if rem then None else Some c'))"
    by blast+
qed

text \<open>A turn of the actor, for this connection.\<close>

lemma poll_egress_conns [simp]:
  "conns (poll_egress N now a) = conns a" "chans (poll_egress N now a) = chans a"
  by (simp_all add: poll_egress_def split: prod.splits)

lemma service_dns_conns [simp]:
  "conns (service_dns N a) = conns a" "chans (service_dns N a) = chans a"
  by (simp_all add: service_dns_def split: prod.splits)

lemma turn_current:
  assumes N: "smoltcp_ok N" and t: "turn_ok t" and a: "actor_inv a" and o: "only_conn h ch a"
    and cs: "list_all (\<lambda>cmd. \<not> opens_chan ch cmd) cs"
    and run: "actor_turn N (t\<lparr>t_cmds := cs\<rparr>) a = Some a'"
  shows "actor_inv a'" and "only_conn h ch a'"
    and "current h ch a = None \<Longrightarrow> current h ch a' = None \<and> chans a' ch = chans a ch"
    and "current h ch a = Some c \<Longrightarrow> \<exists>s. link_service N h ch t a = Some (s, c) \<and>
      (case service_conn N (t_ring t) h s c (chans a ch) of (rp, rem, s', c', k) \<Rightarrow>
         chans a' ch = (if rem then k\<lparr>chan_tx := False\<rparr> else k)
         \<and> current h ch a' = (if rem then None else Some (fold (absorb h) cs c')))"
proof -
  define p where "p = poll_egress N (t_now t) a"
  have p: "actor_inv p" unfolding p_def by (rule poll_egress_ok [OF N a])
  have fin: "finite (dom (conns p))"
    by (rule finite_subset [of _ "dom (sockets p)"]) (use p in \<open>simp_all add: actor_inv_def\<close>)
  have keys: "distinct (t_keys t (dom (conns p)))" "set (t_keys t (dom (conns p))) = dom (conns p)"
    using t fin by (simp_all add: turn_ok_def)
  obtain b where b: "service_sockets N (t_ring t) (t_keys t (dom (conns p))) p = Some b" "actor_inv b"
    using service_sockets_ok [OF N p turn_keys [OF t fin], of "t_ring t"] by metis
  have a': "a' = fold (handle_cmd N) cs (service_dns N b)"
    using run b(1) by (simp add: actor_turn_def Let_def p_def)
  have po: "only_conn h ch p" "current h ch p = current h ch a" "chans p ch = chans a ch"
    using o by (simp_all add: p_def only_conn_def current_def)
  note s = service_sockets_current [OF po(1) keys b(1)]
  have d: "actor_inv (service_dns N b)" "only_conn h ch (service_dns N b)"
      "current h ch (service_dns N b) = current h ch b"
    using service_dns_ok [OF b(2), of N] s(1) by (simp_all add: only_conn_def current_def)
  note c = handle_cmds_current [OF N d(1,2) cs]
  show "actor_inv a'" unfolding a' by (rule handle_cmds_ok [OF N d(1)])
  show "only_conn h ch a'" using c a' by simp
  show "current h ch a = None \<Longrightarrow> current h ch a' = None \<and> chans a' ch = chans a ch"
    using s(2) c d(3) po a' by simp
  assume cur: "current h ch a = Some c"
  then obtain x where x: "sockets p h = Some x" "case service_conn N (t_ring t) h x c (chans p ch) of
      (rp, rem, s', c', k) \<Rightarrow> chans b ch = (if rem then k\<lparr>chan_tx := False\<rparr> else k)
         \<and> current h ch b = (if rem then None else Some c')"
    using s(3) [of c] po(2) by auto
  then show "\<exists>s. link_service N h ch t a = Some (s, c) \<and>
      (case service_conn N (t_ring t) h s c (chans a ch) of (rp, rem, s', c', k) \<Rightarrow>
         chans a' ch = (if rem then k\<lparr>chan_tx := False\<rparr> else k)
         \<and> current h ch a' = (if rem then None else Some (fold (absorb h) cs c')))"
    using cur c d(3) a' po(3) by (auto simp: link_service_def p_def split: prod.splits)
qed

section \<open>Invariant\<close>

text \<open>In a queue, nothing is sent to \<open>h\<close> after its close.\<close>

definition close_last :: "nat \<Rightarrow> cmd list \<Rightarrow> bool" where
  "close_last h q \<longleftrightarrow> sends_to h (dropWhile (\<lambda>cmd. cmd \<noteq> Close h) q) = []"

lemma sends_to_Cons: "sends_to h (cmd # cs) = sends_to h [cmd] @ sends_to h cs"
  using sends_to_append [of h "[cmd]" cs] by simp

lemma close_last_Cons:
  "close_last h (cmd # cs) \<longleftrightarrow> (if cmd = Close h then sends_to h cs = [] else close_last h cs)"
  by (simp add: close_last_def)

lemma sends_to_drop: "sends_to h q = [] \<Longrightarrow> sends_to h (drop n q) = []"
  using sends_to_append [of h "take n q" "drop n q"] by simp

lemma close_last_Nil [simp]: "sends_to h q = [] \<Longrightarrow> close_last h q"
  unfolding close_last_def by (metis append_is_Nil_conv sends_to_append takeWhile_dropWhile_id)

lemma close_last_drop: "close_last h q \<Longrightarrow> close_last h (drop n q)"
proof (induction q arbitrary: n)
  case (Cons cmd q)
  then show ?case
    by (cases n) (auto simp: close_last_Cons sends_to_drop split: if_splits)
qed simp

lemma close_last_take: "close_last h q \<Longrightarrow> Close h \<in> set (take n q) \<Longrightarrow> sends_to h (drop n q) = []"
proof (induction q arbitrary: n)
  case (Cons cmd q)
  then show ?case
    by (cases n) (auto simp: close_last_Cons sends_to_drop split: if_splits)
qed simp

lemma close_last_append:
  "sends_to h cs = [] \<or> Close h \<notin> set q \<and> close_last h cs \<Longrightarrow> close_last h q \<Longrightarrow> close_last h (q @ cs)"
  by (induction q) (auto simp: close_last_Cons)

text \<open>Of the commands for \<open>h\<close> in the log: all of them, the chunks the connection's writer sent, the strays.\<close>

definition log_cmds :: "('s, 'd) link \<Rightarrow> cmd list" where
  "log_cmds l = map snd (lk_log l)"

definition own_cmds :: "('s, 'd) link \<Rightarrow> cmd list" where
  "own_cmds l = map snd (filter fst (lk_log l))"

definition strays :: "('s, 'd) link \<Rightarrow> cmd list" where
  "strays l = map snd (filter (Not \<circ> fst) (lk_log l))"

fun chunks_to :: "nat \<Rightarrow> cmd list \<Rightarrow> bytes list" where
  "chunks_to h [] = []"
| "chunks_to h (Send h' data # cs) = (if h' = h then data # chunks_to h cs else chunks_to h cs)"
| "chunks_to h (_ # cs) = chunks_to h cs"

lemma chunks_to_append [simp]: "chunks_to h (cs @ ds) = chunks_to h cs @ chunks_to h ds"
  by (induction h cs rule: chunks_to.induct) simp_all

lemma sends_to_chunks: "sends_to h cs = concat (chunks_to h cs)"
  by (induction h cs rule: chunks_to.induct) simp_all

lemma no_strays: "strays l = [] \<Longrightarrow> own_cmds l = log_cmds l"
  unfolding strays_def own_cmds_def log_cmds_def
  by (metis (mono_tags, lifting) comp_apply filter_True filter_empty_conv map_is_Nil_conv)

lemma sends_to_filter [simp]: "sends_to h (filter (aimed h) cs) = sends_to h cs"
  by (induction h cs rule: sends_to.induct) auto

lemma chunks_to_filter [simp]: "chunks_to h (filter (aimed h) cs) = chunks_to h cs"
  by (induction h cs rule: chunks_to.induct) auto

text \<open>
  What the socket took, the outbound buffer and the queued data are together what was ever sent to the
  handle, and what the connection's writer sent of it is what the relay read from the client. As long
  as nobody else sends, nothing follows a close. What was passed to the client, the chunk being written
  and the channel are what the socket gave.
\<close>

definition log_inv :: "nat \<Rightarrow> ('s, 'd) link \<Rightarrow> bool" where
  "log_inv h l \<longleftrightarrow> chunks_to h (own_cmds l) = to_net (lk_relay l)
     \<and> set (filter (aimed h) (lk_queue l)) \<subseteq> set (log_cmds l)"

definition up_inv :: "nat \<Rightarrow> nat \<Rightarrow> ('s, 'd) link \<Rightarrow> bool" where
  "up_inv h ch l \<longleftrightarrow>
     (case current h ch (lk_actor l) of
        None \<Rightarrow> prefix (lk_up l) (sends_to h (log_cmds l))
      | Some c \<Rightarrow> lk_up l @ out_buf c @ sends_to h (lk_queue l) = sends_to h (log_cmds l)
          \<and> (closing c \<longrightarrow> Close h \<in> set (log_cmds l))
          \<and> chan_tx (chans (lk_actor l) ch)
          \<and> (strays l = [] \<longrightarrow> close_last h (lk_queue l)
               \<and> (closing c \<longrightarrow> sends_to h (lk_queue l) = [])
               \<and> (\<not> net_closed (lk_relay l) \<longrightarrow> \<not> closing c \<and> Close h \<notin> set (lk_queue l))))"

definition down_inv :: "nat \<Rightarrow> ('s, 'd) link \<Rightarrow> bool" where
  "down_inv ch l \<longleftrightarrow> prefix (to_client (lk_relay l) @ unwritten (lk_relay l)) (lk_down l)
     \<and> (\<not> net_closed (lk_relay l) \<longrightarrow>
          to_client (lk_relay l) @ unwritten (lk_relay l) @ concat (chan_q (chans (lk_actor l) ch)) = lk_down l)
     \<and> (net_closed (lk_relay l) \<longrightarrow> \<not> chan_rx (chans (lk_actor l) ch))"

definition link_inv :: "nat \<Rightarrow> nat \<Rightarrow> ('s, 'd) link \<Rightarrow> bool" where
  "link_inv h ch l \<longleftrightarrow> actor_inv (lk_actor l) \<and> only_conn h ch (lk_actor l)
     \<and> list_all (\<lambda>cmd. \<not> opens_chan ch cmd) (lk_queue l) \<and> log_inv h l \<and> up_inv h ch l \<and> down_inv ch l"

lemma service_conn_data:
  assumes "takes_offered N" and "service_conn N hd_len h s c k = (rp, rem, s', c', k')"
  shows "accepted N hd_len s (out_buf c) @ out_buf c' = out_buf c" "closing c' = closing c"
    "concat (chan_q k') = concat (chan_q k) @ received N (fst (send_loop N hd_len s (out_buf c))) k"
    "chan_tx k' = chan_tx k" "chan_rx k' = chan_rx k"
proof -
  obtain x out where x: "send_loop N hd_len s (out_buf c) = (x, out)"
    by (cases "send_loop N hd_len s (out_buf c)")
  obtain y k2 where y: "recv_loop N x k = (y, k2)" by (cases "recv_loop N x k")
  have e: "c' = c\<lparr>connect_reply := connect_reply c', out_buf := out\<rparr>" "k' = k2"
    using assms(2) x y by (auto simp: service_conn_def Let_def split: prod.splits)
  show "accepted N hd_len s (out_buf c) @ out_buf c' = out_buf c"
    using send_loop_accepted [OF assms(1), of hd_len s "out_buf c"] x by (subst e(1)) simp
  show "closing c' = closing c" by (subst e(1)) simp
  show "concat (chan_q k') = concat (chan_q k) @ received N (fst (send_loop N hd_len s (out_buf c))) k"
    using recv_loop_received [of N x k] x y e(2) by simp
  show "chan_tx k' = chan_tx k" "chan_rx k' = chan_rx k"
    using recv_loop_flags [of N x k] y e(2) by simp_all
qed

lemma link_service_None: "current h ch a = None \<Longrightarrow> link_service N h ch t a = None"
  by (simp add: link_service_def)

lemma turn_step_inv:
  assumes N: "smoltcp_ok N" "takes_offered N" and i: "link_inv h ch l"
    and s: "link_step N h ch slot (Turn t n) l = Some l'"
  shows "link_inv h ch l'"
proof -
  let ?a = "lk_actor l" and ?q = "lk_queue l"
  from i have a: "actor_inv ?a" "only_conn h ch ?a" and q: "list_all (\<lambda>cmd. \<not> opens_chan ch cmd) ?q"
    and g: "log_inv h l" and u: "up_inv h ch l" and d: "down_inv ch l"
    by (simp_all add: link_inv_def)
  from s obtain a' where t: "turn_ok t" and run: "actor_turn N (t\<lparr>t_cmds := take n ?q\<rparr>) ?a = Some a'"
    and l': "l' = l\<lparr>lk_actor := a', lk_queue := drop n ?q, lk_up := lk_up l @ turn_up N h ch t ?a,
      lk_down := lk_down l @ turn_down N h ch t ?a\<rparr>"
    by (auto split: if_splits)
  have log: "log_cmds l' = log_cmds l" "own_cmds l' = own_cmds l" "strays l' = strays l"
    by (simp_all add: l' log_cmds_def own_cmds_def strays_def)
  have qs: "list_all (\<lambda>cmd. \<not> opens_chan ch cmd) (take n ?q)" "list_all (\<lambda>cmd. \<not> opens_chan ch cmd) (drop n ?q)"
    using q by (auto simp: list_all_iff dest: in_set_takeD in_set_dropD)
  note turn = turn_current [OF N(1) t a qs(1) run]
  have "up_inv h ch l' \<and> down_inv ch l'"
  proof (cases "current h ch ?a")
    case None
    with turn(3) u d l' log link_service_None [OF None, of N t] show ?thesis
      by (simp add: up_inv_def down_inv_def turn_up_def turn_down_def)
  next
    case (Some c)
    from turn(4) [OF Some] obtain x where x: "link_service N h ch t ?a = Some (x, c)"
      and cs: "case service_conn N (t_ring t) h x c (chans ?a ch) of (rp, rem, s', c', k) \<Rightarrow>
         chans a' ch = (if rem then k\<lparr>chan_tx := False\<rparr> else k)
         \<and> current h ch a' = (if rem then None else Some (fold (absorb h) (take n ?q) c'))"
      by (elim exE conjE) (rule that)
    obtain rp rem s' c' k where v: "service_conn N (t_ring t) h x c (chans ?a ch) = (rp, rem, s', c', k)"
      by (cases "service_conn N (t_ring t) h x c (chans ?a ch)")
    note dat = service_conn_data [OF N(2) v]
    have e: "sends_to h ?q = sends_to h (take n ?q) @ sends_to h (drop n ?q)"
      by (metis append_take_drop_id sends_to_append)
    have up: "sends_to h (log_cmds l) = lk_up l' @ out_buf c' @ sends_to h ?q"
    proof -
      have "sends_to h (log_cmds l) = lk_up l @ out_buf c @ sends_to h ?q"
        using u Some by (simp add: up_inv_def)
      also have "\<dots> = (lk_up l @ turn_up N h ch t ?a) @ out_buf c' @ sends_to h ?q"
        by (subst dat(1) [symmetric]) (simp add: turn_up_def x)
      finally show ?thesis using l' by simp
    qed
    have "down_inv ch l'"
      using d cs v x l' dat(3,5) by (auto simp: down_inv_def turn_down_def intro: prefix_prefix)
    moreover have "up_inv h ch l'"
    proof (cases rem)
      case True
      with cs v l' up log show ?thesis by (simp add: up_inv_def)
    next
      case False
      with cs v l' have c': "current h ch (lk_actor l') = Some (fold (absorb h) (take n ?q) c')"
        "chans (lk_actor l') ch = k" by simp_all
      have inv: "closing c \<longrightarrow> Close h \<in> set (log_cmds l)" "chan_tx (chans ?a ch)"
        "strays l = [] \<Longrightarrow> close_last h ?q \<and> (closing c \<longrightarrow> sends_to h ?q = [])
           \<and> (\<not> net_closed (lk_relay l) \<longrightarrow> \<not> closing c \<and> Close h \<notin> set ?q)"
        using u Some by (simp_all add: up_inv_def)
      let ?c = "fold (absorb h) (take n ?q) c'"
      have c: "out_buf ?c = out_buf c' @ sends_to h (take n ?q)" "closing ?c \<longleftrightarrow> closing c \<or> Close h \<in> set (take n ?q)"
        using dat(2) by (simp_all add: absorb_fields)
      have q': "lk_queue l' = drop n ?q" "lk_relay l' = lk_relay l" using l' by simp_all
      show ?thesis
        unfolding up_inv_def c' option.case q' log
      proof (intro conjI impI)
        show "lk_up l' @ out_buf ?c @ sends_to h (drop n ?q) = sends_to h (log_cmds l)"
          using up e c(1) by simp
        show "Close h \<in> set (log_cmds l)" if "closing ?c"
          using that c(2) inv(1) g by (auto simp: log_inv_def dest: in_set_takeD)
        show "chan_tx k" using inv(2) dat(4) by simp
        assume "strays l = []"
        note inv = inv(3) [OF this]
        show "close_last h (drop n ?q)" using inv close_last_drop by blast
        show "sends_to h (drop n ?q) = []" if "closing ?c"
          using that c(2) inv sends_to_drop close_last_take by blast
        show "\<not> closing ?c" "Close h \<notin> set (drop n ?q)" if "\<not> net_closed (lk_relay l)"
          using that c(2) inv by (auto dest: in_set_takeD in_set_dropD)
      qed
    qed
    ultimately show ?thesis by simp
  qed
  moreover have "log_inv h l'"
    using g l' log by (auto simp: log_inv_def dest: in_set_dropD)
  ultimately show ?thesis using turn(1,2) qs(2) l' by (simp add: link_inv_def)
qed

text \<open>The parts that a command queued, a channel updated or an event of the relay change.\<close>

lemma current_chans [simp]: "current h ch (a\<lparr>chans := ks\<rparr>) = current h ch a"
  by (simp add: current_def)

lemma only_conn_chans [simp]: "only_conn h ch (a\<lparr>chans := ks\<rparr>) = only_conn h ch a"
  by (simp add: only_conn_def)

lemma chan_ok_drop_rx [simp]: "chan_ok (c\<lparr>chan_rx := b\<rparr>) = chan_ok c"
  by (simp add: chan_ok_def)

lemma enqueue_fields [simp]:
  "lk_actor (enqueue h own cs l) = lk_actor l" "lk_queue (enqueue h own cs l) = lk_queue l @ cs"
  "lk_phase (enqueue h own cs l) = lk_phase l" "lk_relay (enqueue h own cs l) = lk_relay l"
  "lk_up (enqueue h own cs l) = lk_up l" "lk_down (enqueue h own cs l) = lk_down l"
  "log_cmds (enqueue h own cs l) = log_cmds l @ filter (aimed h) cs"
  "own_cmds (enqueue h own cs l) = own_cmds l @ (if own then filter (aimed h) cs else [])"
  "strays (enqueue h own cs l) = strays l @ (if own then [] else filter (aimed h) cs)"
  by (simp_all add: enqueue_def log_cmds_def own_cmds_def strays_def comp_def)

lemma set_chan_fields [simp]:
  "lk_actor (set_chan ch k l) = (lk_actor l)\<lparr>chans := (chans (lk_actor l))(ch := k)\<rparr>"
  "lk_queue (set_chan ch k l) = lk_queue l" "lk_phase (set_chan ch k l) = lk_phase l"
  "lk_relay (set_chan ch k l) = lk_relay l" "lk_up (set_chan ch k l) = lk_up l"
  "lk_down (set_chan ch k l) = lk_down l" "log_cmds (set_chan ch k l) = log_cmds l"
  "own_cmds (set_chan ch k l) = own_cmds l" "strays (set_chan ch k l) = strays l"
  by (simp_all add: set_chan_def log_cmds_def own_cmds_def strays_def)

lemma set_relay_fields [simp]:
  "log_cmds (l\<lparr>lk_relay := r\<rparr>) = log_cmds l" "own_cmds (l\<lparr>lk_relay := r\<rparr>) = own_cmds l"
  "strays (l\<lparr>lk_relay := r\<rparr>) = strays l" "log_cmds (l\<lparr>lk_phase := p\<rparr>) = log_cmds l"
  "own_cmds (l\<lparr>lk_phase := p\<rparr>) = own_cmds l" "strays (l\<lparr>lk_phase := p\<rparr>) = strays l"
  by (simp_all add: log_cmds_def own_cmds_def strays_def)

text \<open>The invariant but for the receiver of the channel, which \<open>drop_halves\<close> sees to.\<close>

definition link_pre :: "nat \<Rightarrow> nat \<Rightarrow> ('s, 'd) link \<Rightarrow> bool" where
  "link_pre h ch l \<longleftrightarrow> actor_inv (lk_actor l) \<and> only_conn h ch (lk_actor l)
     \<and> list_all (\<lambda>cmd. \<not> opens_chan ch cmd) (lk_queue l) \<and> log_inv h l \<and> up_inv h ch l
     \<and> prefix (to_client (lk_relay l) @ unwritten (lk_relay l)) (lk_down l)
     \<and> (\<not> net_closed (lk_relay l) \<longrightarrow>
          to_client (lk_relay l) @ unwritten (lk_relay l) @ concat (chan_q (chans (lk_actor l) ch)) = lk_down l)"

lemma link_inv_pre: "link_inv h ch l \<Longrightarrow> link_pre h ch l"
  by (simp add: link_inv_def link_pre_def down_inv_def)

text \<open>The writer's close, before or after the receiver is gone.\<close>

lemma enqueue_close_pre:
  assumes "link_pre h ch l" and "net_closed (lk_relay l)"
  shows "link_pre h ch (enqueue h True [Close h] l)"
proof -
  have "close_last h (lk_queue l) \<Longrightarrow> close_last h (lk_queue l @ [Close h])"
    by (rule close_last_append) simp_all
  then show ?thesis
    using assms by (auto simp: link_pre_def log_inv_def up_inv_def split: option.splits)
qed

lemma drop_halves_inv:
  assumes "link_pre h ch l"
  shows "link_inv h ch (drop_halves h ch l)"
proof (cases "net_closed (lk_relay l)")
  case True
  from enqueue_close_pre [OF assms True] True show ?thesis
    by (auto simp: link_inv_def link_pre_def drop_halves_def writer_drop_def conn_close_def actor_inv_def
        log_inv_def up_inv_def down_inv_def split: option.splits)
next
  case False
  with assms show ?thesis by (simp add: drop_halves_def link_pre_def link_inv_def down_inv_def)
qed

lemma relay_do_SomeD:
  assumes "relay_do e l = Some l'"
  obtains r where "lk_phase l = Relaying" "relay e (lk_relay l) = Some r" "l' = l\<lparr>lk_relay := r\<rparr>"
  using assms by (auto simp: relay_do_def split: if_splits)

lemma relay_fields:
  assumes "relay e r = Some r'"
  shows "to_net r' = to_net r @ (case e of From_Client bs \<Rightarrow> [bs] | _ \<Rightarrow> [])"
    and "net_closed r' \<longleftrightarrow> e \<in> {Net_Eof, Client_Broken, Client_End}" and "\<not> net_closed r"
  using assms by (cases e; auto simp: relay_def split: if_splits option.splits)+

lemma client_data_inv:
  assumes i: "link_inv h ch l" and s: "link_step N h ch slot (Client_Data bs) l = Some l'"
  shows "link_inv h ch l'"
proof -
  from s obtain m where m: "relay_do (From_Client bs) l = Some m"
    and l': "l' = enqueue h True [Send h bs] m"
    by (auto simp: conn_send_def)
  from m obtain r where r: "relay (From_Client bs) (lk_relay l) = Some r" "m = l\<lparr>lk_relay := r\<rparr>"
    by (rule relay_do_SomeD)
  note f = relay_fields [OF r(1)] relay_unwritten [OF r(1)]
  have "Close h \<notin> set (lk_queue l) \<Longrightarrow> close_last h (lk_queue l) \<Longrightarrow> close_last h (lk_queue l @ [Send h bs])"
    by (rule close_last_append) (simp_all add: close_last_def)
  then show ?thesis
    using i f l' r(2)
    by (auto simp: link_inv_def log_inv_def up_inv_def down_inv_def simp flip: append_assoc split: option.splits)
qed

text \<open>Events of the relay that send nothing.\<close>

lemma relay_quiet_pre:
  assumes i: "link_inv h ch l" and r: "relay e (lk_relay l) = Some r'" and e: "\<forall>bs. e \<noteq> From_Client bs"
    and v: "concat (chan_q (chans (lk_actor l) ch)) = (case e of Net_Chunk v \<Rightarrow> v | _ \<Rightarrow> []) @ concat (chan_q k)"
    and k: "chan_ok k" "chan_tx k = chan_tx (chans (lk_actor l) ch)"
  shows "link_pre h ch (set_chan ch k (l\<lparr>lk_relay := r'\<rparr>))"
proof -
  note f = relay_fields [OF r] relay_unwritten [OF r]
  from i f(3) have d: "to_client (lk_relay l) @ unwritten (lk_relay l) @ concat (chan_q (chans (lk_actor l) ch)) = lk_down l"
    by (simp add: link_inv_def down_inv_def)
  with f(4) v have d': "lk_down l = to_client r' @ unwritten r' @ concat (chan_q k)"
    by (metis append.assoc)
  from e f(1) have "to_net r' = to_net (lk_relay l)" by (cases e) simp_all
  with i d' f(3) k show ?thesis
    by (auto simp: link_inv_def link_pre_def log_inv_def up_inv_def actor_inv_def split: option.splits)
qed

lemma set_chan_same [simp]: "set_chan ch (chans (lk_actor l) ch) l = l"
  by (simp add: set_chan_def)

lemma relay_quiet_same:
  assumes "link_inv h ch l" and "relay e (lk_relay l) = Some r'" and "\<forall>bs. e \<noteq> From_Client bs"
    and "\<forall>v. e \<noteq> Net_Chunk v"
  shows "link_pre h ch (l\<lparr>lk_relay := r'\<rparr>)"
proof -
  have "link_pre h ch (set_chan ch (chans (lk_actor l) ch) (l\<lparr>lk_relay := r'\<rparr>))"
    by (rule relay_quiet_pre [OF assms(1-3)])
      (use assms(1,4) in \<open>auto simp: link_inv_def actor_inv_def split: relay_event.split\<close>)
  then show ?thesis by (simp add: set_chan_def)
qed

lemma client_done_inv:
  assumes "link_inv h ch l" and "link_step N h ch slot Client_Done l = Some l'"
  shows "link_inv h ch l'"
proof -
  from assms(2) obtain m where m: "relay_do Client_End l = Some m"
    and l': "l' = drop_halves h ch (enqueue h True [Close h] m)"
    by (auto simp: conn_close_def)
  from m obtain r where r: "relay Client_End (lk_relay l) = Some r" "m = l\<lparr>lk_relay := r\<rparr>"
    by (rule relay_do_SomeD)
  have "link_pre h ch m" unfolding r(2) by (rule relay_quiet_same [OF assms(1) r(1)]) simp_all
  moreover have "net_closed (lk_relay m)" using relay_fields(2) [OF r(1)] r(2) by simp
  ultimately show ?thesis unfolding l' by (intro drop_halves_inv enqueue_close_pre)
qed

lemma client_writes_inv:
  assumes "link_inv h ch l" and "link_step N h ch slot (Client_Writes n) l = Some l'"
  shows "link_inv h ch l'"
proof -
  from assms(2) have "relay_do (Client_Took n) l = Some l'" by simp
  then obtain r where r: "relay (Client_Took n) (lk_relay l) = Some r" "l' = l\<lparr>lk_relay := r\<rparr>"
    by (rule relay_do_SomeD)
  have "link_pre h ch l'" unfolding r(2) by (rule relay_quiet_same [OF assms(1) r(1)]) simp_all
  with relay_fields(2) [OF r(1)] r(2) show ?thesis by (simp add: link_pre_def link_inv_def down_inv_def)
qed

lemma client_fails_inv:
  assumes "link_inv h ch l" and "link_step N h ch slot Client_Fails l = Some l'"
  shows "link_inv h ch l'"
proof -
  from assms(2) obtain m where m: "relay_do Client_Broken l = Some m" and l': "l' = drop_halves h ch m" by auto
  from m obtain r where r: "relay Client_Broken (lk_relay l) = Some r" "m = l\<lparr>lk_relay := r\<rparr>"
    by (rule relay_do_SomeD)
  have "link_pre h ch m" unfolding r(2) by (rule relay_quiet_same [OF assms(1) r(1)]) simp_all
  then show ?thesis unfolding l' by (rule drop_halves_inv)
qed

lemma conn_recv_cases:
  assumes "conn_recv k = Some (chunk, k')"
  obtains (Chunk) v q where "chunk = Some v" "chan_q k = v # q" "k' = k\<lparr>chan_q := q\<rparr>"
  | (End) "chunk = None" "chan_q k = []" "\<not> chan_tx k" "k' = k"
  using assms by (auto simp: conn_recv_def split: list.splits if_splits)

lemma net_ready_SomeD:
  assumes "link_step N h ch slot Net_Ready l = Some l'"
  obtains chunk k r where "conn_recv (chans (lk_actor l) ch) = Some (chunk, k)" "lk_phase l = Relaying"
    "relay (case chunk of Some v \<Rightarrow> Net_Chunk v | None \<Rightarrow> Net_Eof) (lk_relay l) = Some r"
    "l' = drop_halves h ch (set_chan ch k (l\<lparr>lk_relay := r\<rparr>))"
  using assms by (auto simp: relay_do_def split: option.splits if_splits)

lemma net_ready_inv:
  assumes i: "link_inv h ch l" and s: "link_step N h ch slot Net_Ready l = Some l'"
  shows "link_inv h ch l'"
proof -
  from s obtain chunk k r where c: "conn_recv (chans (lk_actor l) ch) = Some (chunk, k)"
    and r: "relay (case chunk of Some v \<Rightarrow> Net_Chunk v | None \<Rightarrow> Net_Eof) (lk_relay l) = Some r"
    and l': "l' = drop_halves h ch (set_chan ch k (l\<lparr>lk_relay := r\<rparr>))"
    by (rule net_ready_SomeD)
  from i have ok: "chan_ok (chans (lk_actor l) ch)" by (simp add: link_inv_def actor_inv_def)
  have "link_pre h ch (set_chan ch k (l\<lparr>lk_relay := r\<rparr>))"
    using c
  proof (cases rule: conn_recv_cases)
    case (Chunk v q)
    show ?thesis
      by (rule relay_quiet_pre [OF i r]) (use Chunk ok in \<open>simp_all add: chan_ok_def\<close>)
  next
    case End
    show ?thesis
      by (rule relay_quiet_pre [OF i r]) (use End ok in simp_all)
  qed
  then show ?thesis unfolding l' by (rule drop_halves_inv)
qed

lemma others_inv:
  assumes i: "link_inv h ch l" and s: "link_step N h ch slot (Others cs) l = Some l'"
  shows "link_inv h ch l'"
proof -
  from s have cs: "list_all (\<lambda>cmd. \<not> opens_chan ch cmd) cs" and l': "l' = enqueue h False cs l"
    by (auto split: if_splits)
  have "sends_to h cs = [] \<and> Close h \<notin> set cs" if "filter (aimed h) cs = []"
  proof
    show "sends_to h cs = []" using that sends_to_filter [of h cs] by simp
    show "Close h \<notin> set cs" using that by (auto simp: filter_empty_conv)
  qed
  then show ?thesis
    using i cs l'
    by (auto simp: link_inv_def log_inv_def up_inv_def down_inv_def simp flip: append_assoc
        intro: close_last_append prefix_prefix split: option.splits)
qed

lemma link_step_inv:
  assumes "smoltcp_ok N" "takes_offered N" "link_inv h ch l" "link_step N h ch slot e l = Some l'"
  shows "link_inv h ch l'"
proof (cases e)
  case Connected
  with assms(4) have "l' = l\<lparr>lk_phase := Relaying\<rparr>" by (simp split: if_splits)
  with assms(3) show ?thesis
    by (simp add: link_inv_def log_inv_def up_inv_def down_inv_def split: option.splits)
next
  case Client_Data
  with assms(3,4) client_data_inv show ?thesis by blast
next
  case Client_Done
  with assms(3,4) client_done_inv show ?thesis by blast
next
  case Net_Ready
  with assms(3,4) net_ready_inv show ?thesis by blast
next
  case Client_Writes
  with assms(3,4) client_writes_inv show ?thesis by blast
next
  case Client_Fails
  with assms(3,4) client_fails_inv show ?thesis by blast
next
  case Others
  with assms(3,4) others_inv show ?thesis by blast
next
  case Turn
  with assms turn_step_inv show ?thesis by blast
qed

lemma link_run_inv:
  assumes "smoltcp_ok N" "takes_offered N" "link_inv h ch l" "link_run N h ch slot es l = Some l'"
  shows "link_inv h ch l'"
  using assms(3,4)
proof (induction es arbitrary: l)
  case (Cons e es)
  then obtain m where "link_step N h ch slot e l = Some m" "link_run N h ch slot es m = Some l'"
    by (auto split: bind_splits)
  with Cons link_step_inv [OF assms(1,2)] show ?case by blast
qed simp

lemma link_run_append:
  "link_run N h ch slot (es @ fs) l = Option.bind (link_run N h ch slot es l) (link_run N h ch slot fs)"
  by (induction es arbitrary: l) (auto split: bind_split)

lemma link_start_inv:
  assumes N: "smoltcp_ok N" and r: "link_ready N remote h ch (drained @ q) a"
  shows "link_inv h ch (link_start N remote h ch slot drained q a)"
proof -
  from r obtain s where s: "sock_connect N remote (next_port a) (tcp_new N) = Inr s"
    by (cases "sock_connect N remote (next_port a) (tcp_new N)") (auto simp: link_ready_def)
  from r have h: "set_alloc N (sockets a) = h" and c: "chans a ch = new_chan"
    and o: "\<And>h' d. conns a h' = Some d \<Longrightarrow> from_net d \<noteq> ch"
    and d: "list_all (\<lambda>cmd. \<not> opens_chan ch cmd) drained" and q: "list_all (\<lambda>cmd. \<not> opens_chan ch cmd) q"
    by (auto simp: link_ready_def ran_def)
  define b where "b = handle_cmd N (Connect remote ch slot) a"
  have b: "actor_inv b" "only_conn h ch b" "chans b ch = new_chan"
    "current h ch b = Some \<lparr>from_net = ch, out_buf = [], connect_reply = Some slot, closing = False\<rparr>"
    using r handle_cmd_ok [OF N, of a "Connect remote ch slot"] s h c o
    by (auto simp: b_def link_ready_def only_conn_def current_def handle_connect_def next_ephemeral_port_def
        Let_def)
  let ?l = "link_start N remote h ch slot drained q a"
  have f: "lk_actor ?l = fold (handle_cmd N) drained b" "lk_queue ?l = q" "lk_relay ?l = relay_start"
    "log_cmds ?l = filter (aimed h) (drained @ q)" "own_cmds ?l = []" "strays ?l = filter (aimed h) (drained @ q)"
    "lk_up ?l = []" "lk_down ?l = []"
    by (simp_all add: link_start_def b_def log_cmds_def own_cmds_def strays_def comp_def)
  note e = handle_cmds_current [OF N b(1,2) d]
  have k: "sends_to h cs = [] \<and> Close h \<notin> set cs" if "filter (aimed h) cs = []" for cs
    using that sends_to_filter [of h cs] by (auto simp: filter_empty_conv)
  show ?thesis
    using e b(3,4) handle_cmds_ok [OF N b(1), of drained] q k [of drained] k [of q]
    by (auto simp: link_inv_def log_inv_def up_inv_def down_inv_def f absorb_fields relay_start_def
        unwritten_def new_chan_def)
qed

end
