(* ===== verification/Duplex.thy ===== *)
theory Duplex
  imports Proxied_Conn
begin

text \<open>
  What a proxied connection promises, and what it does not: an abstract duplex byte stream that every run
  of \<open>Proxied_Conn\<close> refines, progress in both directions, and the three ways in which it ends: the close of
  its own writer, the close of a stranger that holds the same handle, and the end of the client. A
  small network serves as example.
\<close>

section \<open>A duplex byte stream\<close>

text \<open>
  The abstract specification: in each direction the bytes put in and those taken out, where what is
  taken out extends what was taken out before and is a prefix of what was put in.
\<close>

record duplex =
  sent :: bytes
  taken :: bytes
  given :: bytes
  got :: bytes

inductive duplex_step :: "duplex \<Rightarrow> duplex \<Rightarrow> bool" where
  Put_Up: "duplex_step d (d\<lparr>sent := sent d @ bs\<rparr>)"
| Take_Up: "prefix (taken d @ bs) (sent d) \<Longrightarrow> duplex_step d (d\<lparr>taken := taken d @ bs\<rparr>)"
| Put_Down: "duplex_step d (d\<lparr>given := given d @ bs\<rparr>)"
| Take_Down: "prefix (got d @ bs) (given d) \<Longrightarrow> duplex_step d (d\<lparr>got := got d @ bs\<rparr>)"

text \<open>What was put in upwards is all that was sent to the handle, by whomever.\<close>

definition link_abs :: "nat \<Rightarrow> ('s, 'd) link \<Rightarrow> duplex" where
  "link_abs h l = \<lparr>sent = sends_to h (log_cmds l), taken = lk_up l, given = lk_down l,
     got = to_client (lk_relay l)\<rparr>"

lemma duplex_extends:
  assumes "prefix u' s'" "prefix g' v'" "prefix s s'" "prefix u u'" "prefix v v'" "prefix g g'"
  shows "duplex_step\<^sup>*\<^sup>* \<lparr>sent = s, taken = u, given = v, got = g\<rparr> \<lparr>sent = s', taken = u', given = v', got = g'\<rparr>"
proof -
  from assms(3-) obtain a b c d where e: "s' = s @ a" "u' = u @ b" "v' = v @ c" "g' = g @ d"
    by (auto simp: prefix_def)
  have "duplex_step \<lparr>sent = s, taken = u, given = v, got = g\<rparr> \<lparr>sent = s', taken = u, given = v, got = g\<rparr>"
    using Put_Up [of "\<lparr>sent = s, taken = u, given = v, got = g\<rparr>" a] e by simp
  moreover have "duplex_step \<lparr>sent = s', taken = u, given = v, got = g\<rparr> \<lparr>sent = s', taken = u', given = v, got = g\<rparr>"
    using Take_Up [of "\<lparr>sent = s', taken = u, given = v, got = g\<rparr>" b] e assms(1) by simp
  moreover have "duplex_step \<lparr>sent = s', taken = u', given = v, got = g\<rparr> \<lparr>sent = s', taken = u', given = v', got = g\<rparr>"
    using Put_Down [of "\<lparr>sent = s', taken = u', given = v, got = g\<rparr>" c] e by simp
  moreover have "duplex_step \<lparr>sent = s', taken = u', given = v', got = g\<rparr> \<lparr>sent = s', taken = u', given = v', got = g'\<rparr>"
    using Take_Down [of "\<lparr>sent = s', taken = u', given = v', got = g\<rparr>" d] e assms(2) by simp
  ultimately show ?thesis by (meson r_into_rtranclp rtranclp_trans)
qed

lemma drop_halves_fields [simp]:
  "lk_relay (drop_halves h ch l) = lk_relay l" "lk_phase (drop_halves h ch l) = lk_phase l"
  "lk_up (drop_halves h ch l) = lk_up l" "lk_down (drop_halves h ch l) = lk_down l"
  "log_cmds (drop_halves h ch l) = log_cmds l @ (if net_closed (lk_relay l) then [Close h] else [])"
  by (simp_all add: drop_halves_def writer_drop_def conn_close_def)

lemma turn_log [simp]:
  "log_cmds (l\<lparr>lk_actor := a, lk_queue := q, lk_up := u, lk_down := d\<rparr>) = log_cmds l"
  by (simp add: log_cmds_def)

text \<open>A step leaves the relay as it is or is an event of it, and only appends.\<close>

lemma link_step_relay:
  assumes "link_step N h ch slot e l = Some l'"
  shows "lk_relay l' = lk_relay l \<or> (\<exists>e'. relay e' (lk_relay l) = Some (lk_relay l'))"
  using assms
  by (cases e; auto simp: relay_do_def split: if_splits option.splits)

lemma link_step_extends:
  assumes "link_step N h ch slot e l = Some l'"
  shows "prefix (sends_to h (log_cmds l)) (sends_to h (log_cmds l'))"
    "prefix (lk_up l) (lk_up l')" "prefix (lk_down l) (lk_down l')"
  using assms
  by (cases e; auto simp: relay_do_def split: if_splits option.splits)+

lemma to_client_extends:
  assumes "link_step N h ch slot e l = Some l'"
  shows "prefix (to_client (lk_relay l)) (to_client (lk_relay l'))"
  using link_step_relay [OF assms] relay_appends(1) by (metis prefixI prefix_order.order_refl)

lemma link_inv_prefix:
  assumes "link_inv h ch l"
  shows "prefix (lk_up l) (sends_to h (log_cmds l))" "prefix (to_client (lk_relay l)) (lk_down l)"
proof -
  show "prefix (lk_up l) (sends_to h (log_cmds l))"
    using assms unfolding link_inv_def up_inv_def
    by (auto simp: prefix_def split: option.splits dest: sym)
  show "prefix (to_client (lk_relay l)) (lk_down l)"
    using assms by (auto simp: link_inv_def down_inv_def dest: append_prefixD)
qed

lemma link_inv_current:
  assumes "link_inv h ch l"
  shows "current h ch (lk_actor l) = Some c \<Longrightarrow>
      sends_to h (log_cmds l) = lk_up l @ out_buf c @ sends_to h (lk_queue l)"
    and "\<not> net_closed (lk_relay l) \<Longrightarrow>
      lk_down l = to_client (lk_relay l) @ unwritten (lk_relay l) @ concat (chan_q (chans (lk_actor l) ch))"
    and "chunks_to h (own_cmds l) = to_net (lk_relay l)"
  using assms by (simp_all add: link_inv_def up_inv_def down_inv_def log_inv_def)

lemma link_run_refines:
  assumes N: "smoltcp_ok N" "takes_offered N"
  shows "link_inv h ch l \<Longrightarrow> link_run N h ch slot es l = Some l'
    \<Longrightarrow> duplex_step\<^sup>*\<^sup>* (link_abs h l) (link_abs h l')"
proof (induction es arbitrary: l)
  case (Cons e es)
  then obtain m where m: "link_step N h ch slot e l = Some m" "link_run N h ch slot es m = Some l'"
    by (auto split: bind_splits)
  have i: "link_inv h ch m" by (rule link_step_inv [OF N Cons.prems(1) m(1)])
  have "duplex_step\<^sup>*\<^sup>* (link_abs h l) (link_abs h m)"
    unfolding link_abs_def
    by (rule duplex_extends [OF link_inv_prefix [OF i] link_step_extends [OF m(1)] to_client_extends [OF m(1)]])
  from rtranclp_trans [OF this Cons.IH [OF i m(2)]] show ?case .
qed simp

section \<open>How a connection ends\<close>

text \<open>
  In a turn, whether its service closes the socket, that is, does more to it than send and receive;
  and whether it removes the connection.
\<close>

definition closes_in :: "('s, 'd) net_ops \<Rightarrow> nat \<Rightarrow> nat \<Rightarrow> turn \<Rightarrow> ('s, 'd) actor \<Rightarrow> bool" where
  "closes_in N h ch t a \<longleftrightarrow>
     (case link_service N h ch t a of
        Some (s, c) \<Rightarrow>
          (case service_conn N (t_ring t) h s c (chans a ch) of (rp, rem, s', c', k) \<Rightarrow>
             s' \<noteq> fst (recv_loop N (fst (send_loop N (t_ring t) s (out_buf c))) (chans a ch)))
      | None \<Rightarrow> False)"

definition dead_in :: "('s, 'd) net_ops \<Rightarrow> nat \<Rightarrow> nat \<Rightarrow> turn \<Rightarrow> ('s, 'd) actor \<Rightarrow> bool" where
  "dead_in N h ch t a \<longleftrightarrow>
     (case link_service N h ch t a of
        Some (s, c) \<Rightarrow>
          (case service_conn N (t_ring t) h s c (chans a ch) of (rp, rem, s', c', k) \<Rightarrow>
             sock_state N s' = Closed \<or> connect_reply c \<noteq> None \<and> \<not> is_active N s)
      | None \<Rightarrow> True)"

lemma service_conn_closes:
  "service_conn N hd_len h s c k = (rp, rem, s', c', k') \<Longrightarrow>
   s' \<noteq> fst (recv_loop N (fst (send_loop N hd_len s (out_buf c))) k) \<Longrightarrow>
   closing c \<and> snd (send_loop N hd_len s (out_buf c)) = []"
  by (auto simp: service_conn_def Let_def split: prod.splits if_splits)

lemma service_conn_removes:
  "service_conn N hd_len h s c k = (rp, rem, s', c', k') \<Longrightarrow> rem \<Longrightarrow>
   sock_state N s' = Closed \<or> connect_reply c \<noteq> None \<and> \<not> is_active N s"
  by (auto simp: service_conn_def resolve_connect_def Let_def split: prod.splits option.splits if_splits)

lemma turn_keeps:
  assumes N: "smoltcp_ok N" and i: "link_inv h ch l" and c: "current h ch (lk_actor l) \<noteq> None"
    and s: "link_step N h ch slot (Turn t n) l = Some l'" and d: "\<not> dead_in N h ch t (lk_actor l)"
  shows "current h ch (lk_actor l') \<noteq> None"
proof -
  from i have a: "actor_inv (lk_actor l)" "only_conn h ch (lk_actor l)"
    and q: "list_all (\<lambda>cmd. \<not> opens_chan ch cmd) (take n (lk_queue l))"
    by (auto simp: link_inv_def list_all_iff dest: in_set_takeD)
  from s obtain a' where t: "turn_ok t" and run: "actor_turn N (t\<lparr>t_cmds := take n (lk_queue l)\<rparr>) (lk_actor l) = Some a'"
    and l': "lk_actor l' = a'"
    by (auto split: if_splits)
  from c obtain x where x: "current h ch (lk_actor l) = Some x" by blast
  from turn_current(4) [OF N t a q run x] obtain y where y: "link_service N h ch t (lk_actor l) = Some (y, x)"
    and e: "case service_conn N (t_ring t) h y x (chans (lk_actor l) ch) of (rp, rem, s', c', k) \<Rightarrow>
         chans a' ch = (if rem then k\<lparr>chan_tx := False\<rparr> else k)
         \<and> current h ch a' = (if rem then None else Some (fold (absorb h) (take n (lk_queue l)) c'))"
    by (elim exE conjE) (rule that)
  obtain rp rem s' c' k where v: "service_conn N (t_ring t) h y x (chans (lk_actor l) ch) = (rp, rem, s', c', k)"
    by (cases "service_conn N (t_ring t) h y x (chans (lk_actor l) ch)")
  have "\<not> rem" using d y service_conn_removes [OF v] by (auto simp: dead_in_def v)
  with e v l' show ?thesis by simp
qed

section \<open>Progress\<close>

text \<open>
  \<open>room\<close> is the free space of a socket's send buffer: while there is any the socket can send, and
  \<open>send_slice\<close> takes what fits.
\<close>

definition bounded_sender :: "('s, 'z) tcp_ops_scheme \<Rightarrow> ('s \<Rightarrow> nat) \<Rightarrow> bool" where
  "bounded_sender T room \<longleftrightarrow> (\<forall>s. 0 < room s \<longrightarrow> can_send T s
     \<and> (\<forall>bs. bs \<noteq> [] \<longrightarrow> (\<exists>s'. send_slice T bs s = Some (min (length bs) (room s), s')
          \<and> room s' = room s - min (length bs) (room s))))"

text \<open>The first slice of a ring buffer that holds data is not empty.\<close>

definition ring_ok :: "(bytes \<Rightarrow> nat) \<Rightarrow> bool" where
  "ring_ok hd_len \<longleftrightarrow> (\<forall>out. out \<noteq> [] \<longrightarrow> 0 < hd_len out)"

lemma bounded_takes:
  "bounded_sender T room \<Longrightarrow> ring_ok hd_len \<Longrightarrow> min (room s) (length out) \<le> length (accepted T hd_len s out)"
proof (induction T hd_len s out rule: accepted.induct)
  case (1 T hd_len s out)
  show ?case
  proof (cases "room s = 0 \<or> out = []")
    case False
    let ?v = "take (hd_len out) out" and ?n = "min (length (take (hd_len out) out)) (room s)"
    from 1(3) False have "?v \<noteq> []" by (simp add: ring_ok_def)
    moreover from 1(2) False have "can_send T s \<and> (\<forall>bs. bs \<noteq> [] \<longrightarrow> (\<exists>s'.
        send_slice T bs s = Some (min (length bs) (room s), s') \<and> room s' = room s - min (length bs) (room s)))"
      unfolding bounded_sender_def by blast
    ultimately obtain s' where c: "can_send T s \<and> out \<noteq> []" and s': "send_slice T ?v s = Some (?n, s')"
      "room s' = room s - ?n" using False by blast
    from \<open>?v \<noteq> []\<close> False have "0 < ?n" by auto
    then obtain m where m: "?n = Suc m" using gr0_implies_Suc by blast
    have "min (room s') (length (drop (Suc m) out)) \<le> length (accepted T hd_len s' (drop (Suc m) out))"
      by (rule "1.IH" [OF c s'(1) refl m 1(2,3)])
    moreover have "accepted T hd_len s out = take (Suc m) ?v @ accepted T hd_len s' (drop (Suc m) out)"
      using c s'(1) m by (simp add: accepted.simps [of T hd_len s out] del: take_take)
    moreover have "length (take (Suc m) ?v) = Suc m" using m by simp
    ultimately show ?thesis using s'(2) m by simp
  qed auto
qed

text \<open>
  A run whose turns find room for \<open>m\<close> bytes in the connection's socket; what happens between the turns,
  which frees the room, is anything.
\<close>

fun fed :: "('s, 'd) net_ops \<Rightarrow> nat \<Rightarrow> nat \<Rightarrow> nat \<Rightarrow> ('s \<Rightarrow> nat) \<Rightarrow> nat \<Rightarrow> link_event list \<Rightarrow> ('s, 'd) link \<Rightarrow> bool" where
  "fed N h ch slot room m [] l \<longleftrightarrow> True"
| "fed N h ch slot room m (e # es) l \<longleftrightarrow>
     (case e of
        Turn t n \<Rightarrow> ring_ok (t_ring t)
          \<and> (case link_service N h ch t (lk_actor l) of Some (s, c) \<Rightarrow> m \<le> room s | None \<Rightarrow> False)
      | _ \<Rightarrow> True)
     \<and> (case link_step N h ch slot e l of Some l' \<Rightarrow> fed N h ch slot room m es l' | None \<Rightarrow> True)"

fun turns :: "link_event list \<Rightarrow> nat" where
  "turns [] = 0"
| "turns (Turn t n # es) = Suc (turns es)"
| "turns (_ # es) = turns es"

text \<open>What the actor has been handed for the connection.\<close>

definition handed :: "nat \<Rightarrow> nat \<Rightarrow> ('s, 'd) link \<Rightarrow> bytes" where
  "handed h ch l = lk_up l @ (case current h ch (lk_actor l) of Some c \<Rightarrow> out_buf c | None \<Rightarrow> [])"

lemma link_service_current: "link_service N h ch t a = Some (s, c) \<Longrightarrow> current h ch a = Some c"
  by (auto simp: link_service_def split: option.splits)

lemma current_drop_halves [simp]:
  "current h ch (lk_actor (drop_halves h ch l)) = current h ch (lk_actor l)"
  by (simp add: drop_halves_def)

lemma nonturn_same:
  assumes "link_step N h ch slot e l = Some l'" and "turns [e] = 0"
  shows "lk_up l' = lk_up l" "current h ch (lk_actor l') = current h ch (lk_actor l)"
  using assms by (cases e; auto simp: relay_do_def split: if_splits option.splits)+

text \<open>A turn that services the connection: what the socket takes goes, what the commands bring comes.\<close>

lemma turn_effect:
  assumes N: "smoltcp_ok N" "takes_offered N" and i: "link_inv h ch l"
    and s: "link_step N h ch slot (Turn t n) l = Some l'" and x: "link_service N h ch t (lk_actor l) = Some (x, c)"
  shows "lk_up l' = lk_up l @ accepted N (t_ring t) x (out_buf c)"
    and "current h ch (lk_actor l') = Some c' \<Longrightarrow>
      accepted N (t_ring t) x (out_buf c) @ out_buf c' = out_buf c @ sends_to h (take n (lk_queue l))"
    and "current h ch (lk_actor l') = Some c' \<Longrightarrow> closing c' \<longleftrightarrow> closing c \<or> Close h \<in> set (take n (lk_queue l))"
proof -
  from i have a: "actor_inv (lk_actor l)" "only_conn h ch (lk_actor l)"
    and q: "list_all (\<lambda>cmd. \<not> opens_chan ch cmd) (take n (lk_queue l))"
    by (auto simp: link_inv_def list_all_iff dest: in_set_takeD)
  from s obtain a' where t: "turn_ok t" and run: "actor_turn N (t\<lparr>t_cmds := take n (lk_queue l)\<rparr>) (lk_actor l) = Some a'"
    and l': "lk_actor l' = a'" "lk_up l' = lk_up l @ turn_up N h ch t (lk_actor l)"
    by (auto split: if_splits)
  show "lk_up l' = lk_up l @ accepted N (t_ring t) x (out_buf c)"
    using l'(2) x by (simp add: turn_up_def)
  assume c': "current h ch (lk_actor l') = Some c'"
  obtain rp rem s' d k where v: "service_conn N (t_ring t) h x c (chans (lk_actor l) ch) = (rp, rem, s', d, k)"
    by (cases "service_conn N (t_ring t) h x c (chans (lk_actor l) ch)")
  have e: "c' = fold (absorb h) (take n (lk_queue l)) d"
    using turn_current(4) [OF N(1) t a q run link_service_current [OF x]] x v c' l'(1)
    by (auto split: if_splits)
  note d = service_conn_data(1,2) [OF N(2) v]
  show "accepted N (t_ring t) x (out_buf c) @ out_buf c' = out_buf c @ sends_to h (take n (lk_queue l))"
    using d(1) by (simp add: e absorb_fields flip: append_assoc)
  show "closing c' \<longleftrightarrow> closing c \<or> Close h \<in> set (take n (lk_queue l))"
    using d(2) by (simp add: e absorb_fields)
qed

text \<open>A step keeps a prefix of what was handed over such a prefix, as long as the connection lives.\<close>

lemma handed_prefix:
  assumes "smoltcp_ok N" "takes_offered N" "link_inv h ch l" "link_step N h ch slot e l = Some l'"
    and "current h ch (lk_actor l) \<noteq> None" "current h ch (lk_actor l') \<noteq> None" "prefix T (handed h ch l)"
  shows "prefix T (handed h ch l')"
proof (cases "turns [e]")
  case 0
  from nonturn_same [OF assms(4) 0] assms(7) show ?thesis by (simp add: handed_def)
next
  case Suc
  then obtain t n where e: "e = Turn t n" by (cases e) simp_all
  from assms(5,6) obtain c c' where c: "current h ch (lk_actor l) = Some c" "current h ch (lk_actor l') = Some c'"
    by blast
  obtain x where x: "link_service N h ch t (lk_actor l) = Some (x, c)"
  proof -
    from assms(3) have a: "actor_inv (lk_actor l)" "only_conn h ch (lk_actor l)"
      and q: "list_all (\<lambda>cmd. \<not> opens_chan ch cmd) (take n (lk_queue l))"
      by (auto simp: link_inv_def list_all_iff dest: in_set_takeD)
    from assms(4) e obtain a' where "turn_ok t"
      "actor_turn N (t\<lparr>t_cmds := take n (lk_queue l)\<rparr>) (lk_actor l) = Some a'"
      by (auto split: if_splits)
    from turn_current(4) [OF assms(1) this(1) a q this(2) c(1)] that show thesis by blast
  qed
  note f = turn_effect [OF assms(1-3) assms(4) [unfolded e] x]
  have "handed h ch l' = handed h ch l @ sends_to h (take n (lk_queue l))"
    using f(1) f(2) [OF c(2)] c by (simp add: handed_def)
  with assms(7) show ?thesis by simp
qed

lemma turn_one: "turns (e # es) = turns [e] + turns es"
  by (cases e) simp_all

lemma fed_alive:
  "fed N h ch slot room m es l \<Longrightarrow> link_run N h ch slot es l = Some l' \<Longrightarrow> 0 < turns es
    \<Longrightarrow> current h ch (lk_actor l) \<noteq> None"
proof (induction es arbitrary: l)
  case (Cons e es)
  then obtain k where k: "link_step N h ch slot e l = Some k" "link_run N h ch slot es k = Some l'"
    by (auto split: bind_splits)
  show ?case
  proof (cases "turns [e]")
    case 0
    then have "0 < turns es" using Cons.prems(3) turn_one [of e es] by simp
    then have "current h ch (lk_actor k) \<noteq> None"
      using Cons.IH [of k] Cons.prems(1) k by simp
    with nonturn_same [OF k(1) 0] show ?thesis by simp
  next
    case Suc
    then obtain t n where "e = Turn t n" by (cases e) simp_all
    with Cons.prems(1) show ?thesis by (auto split: option.splits dest: link_service_current)
  qed
qed simp

lemma run_extends_up:
  "link_run N h ch slot es l = Some l' \<Longrightarrow> prefix (lk_up l) (lk_up l')"
proof (induction es arbitrary: l)
  case (Cons e es)
  then show ?case
    using link_step_extends(2) by (fastforce split: bind_splits intro: prefix_order.trans)
qed simp

lemma prefix_of_longer: "prefix (take k T) u \<Longrightarrow> j \<le> k \<Longrightarrow> prefix (take j T) u"
  by (metis min.absorb1 prefix_order.trans take_is_prefix take_take)

lemma take_prefix_common: "prefix T z \<Longrightarrow> prefix u z \<Longrightarrow> prefix (take (length u) T) u"
  by (auto simp: prefix_def min_def append_eq_append_conv2 not_le)

text \<open>With room for \<open>m\<close> bytes in every turn, every turn brings \<open>m\<close> bytes more of \<open>T\<close> to the socket.\<close>

lemma fed_progress:
  assumes N: "smoltcp_ok N" "takes_offered N" and b: "bounded_sender N room"
  shows "link_inv h ch l \<Longrightarrow> fed N h ch slot room m es l \<Longrightarrow> link_run N h ch slot es l = Some l'
    \<Longrightarrow> prefix (take (length (lk_up l)) T) (lk_up l)
    \<Longrightarrow> (0 < turns es \<longrightarrow> prefix T (handed h ch l))
    \<Longrightarrow> prefix (take (length (lk_up l) + m * turns es) T) (lk_up l')"
proof (induction es arbitrary: l)
  case (Cons e es)
  then obtain k where k: "link_step N h ch slot e l = Some k" "link_run N h ch slot es k = Some l'"
    by (auto split: bind_splits)
  have i: "link_inv h ch k" by (rule link_step_inv [OF N Cons.prems(1) k(1)])
  have f: "fed N h ch slot room m es k" using Cons.prems(2) k(1) by simp
  show ?case
  proof (cases "turns [e]")
    case 0
    have t: "turns (e # es) = turns es" using 0 turn_one [of e es] by simp
    with nonturn_same [OF k(1) 0] Cons.IH [OF i f k(2)] Cons.prems(4,5) show ?thesis
      by (simp add: handed_def)
  next
    case Suc
    then obtain t n where e: "e = Turn t n" by (cases e) simp_all
    with Cons.prems(2) obtain s c where s: "link_service N h ch t (lk_actor l) = Some (s, c)" "m \<le> room s"
      "ring_ok (t_ring t)" by (auto split: option.splits)
    have p: "prefix T (lk_up l @ out_buf c)"
      using Cons.prems(5) e link_service_current [OF s(1)] by (simp add: handed_def)
    let ?v = "accepted N (t_ring t) s (out_buf c)"
    have up: "lk_up k = lk_up l @ ?v"
      by (rule turn_effect(1) [OF N Cons.prems(1) k(1) [unfolded e] s(1)])
    have v: "prefix ?v (out_buf c)"
      using send_loop_accepted [OF N(2), of "t_ring t" s "out_buf c"] by (metis prefixI)
    have "prefix (lk_up k) (lk_up l @ out_buf c)" using v up by simp
    note c = take_prefix_common [OF p this]
    have "0 < turns es \<longrightarrow> prefix T (handed h ch k)"
      using fed_alive [OF f k(2)] fed_alive [OF Cons.prems(2,3)] e Cons.prems(5)
        handed_prefix [OF N Cons.prems(1) k(1)] by simp
    then have ih: "prefix (take (length (lk_up k) + m * turns es) T) (lk_up l')"
      by (rule Cons.IH [OF i f k(2) c])
    show ?thesis
    proof (cases "m \<le> length ?v")
      case True
      with up e show ?thesis by (intro prefix_of_longer [OF ih]) simp
    next
      case False
      with bounded_takes [OF b s(3), of s "out_buf c"] s(2) have "length (out_buf c) \<le> length ?v" by simp
      with v have "?v = out_buf c" by (metis not_less prefix_length_less strict_prefixI)
      with p up have "prefix T (lk_up k)" by simp
      with run_extends_up [OF k(2)] show ?thesis
        by (meson prefix_order.trans take_is_prefix)
    qed
  qed
qed simp

text \<open>
  What a client that reads does: its socket takes the rest of the chunk being written, and then each
  chunk of the channel.
\<close>

fun drain_chunks :: "bytes list \<Rightarrow> link_event list" where
  "drain_chunks [] = []"
| "drain_chunks (v # vs) = Net_Ready # Client_Writes (length v) # drain_chunks vs"

definition drain_events :: "nat \<Rightarrow> ('s, 'd) link \<Rightarrow> link_event list" where
  "drain_events ch l =
     (case writing (lk_relay l) of None \<Rightarrow> [] | Some v \<Rightarrow> [Client_Writes (length v)])
     @ drain_chunks (chan_q (chans (lk_actor l) ch))"

lemma write_out:
  assumes "link_open l" and "writing (lk_relay l) = Some v" and "v \<noteq> []"
  shows "link_step N h ch slot (Client_Writes (length v)) l
    = Some (l\<lparr>lk_relay := (lk_relay l)\<lparr>to_client := to_client (lk_relay l) @ v, writing := None\<rparr>\<rparr>)"
  using assms by (simp add: link_open_def relay_do_def relay_def)

lemma drains_chunks:
  assumes "link_open l" "writing (lk_relay l) = None" "chan_q (chans (lk_actor l) ch) = vs" "[] \<notin> set vs"
  shows "\<exists>l'. link_run N h ch slot (drain_chunks vs) l = Some l'
    \<and> to_client (lk_relay l') = to_client (lk_relay l) @ concat vs"
  using assms
proof (induction vs arbitrary: l)
  case (Cons v vs)
  let ?m = "set_chan ch ((chans (lk_actor l) ch)\<lparr>chan_q := vs\<rparr>)
    (l\<lparr>lk_relay := (lk_relay l)\<lparr>writing := Some v\<rparr>\<rparr>)"
  have v: "v \<noteq> []" using Cons.prems(4) by auto
  then have m: "link_step N h ch slot Net_Ready l = Some ?m"
    using Cons.prems by (simp add: conn_recv_def relay_do_def relay_def link_open_def drop_halves_def)
  have o: "link_open ?m" "writing (lk_relay ?m) = Some v" using Cons.prems(1) by (simp_all add: link_open_def)
  let ?k = "?m\<lparr>lk_relay := (lk_relay ?m)\<lparr>to_client := to_client (lk_relay ?m) @ v, writing := None\<rparr>\<rparr>"
  have k: "link_open ?k" "writing (lk_relay ?k) = None" "chan_q (chans (lk_actor ?k) ch) = vs"
    "to_client (lk_relay ?k) = to_client (lk_relay l) @ v" using Cons.prems by (simp_all add: link_open_def)
  from Cons.IH [OF k(1-3)] Cons.prems(4) obtain l' where l': "link_run N h ch slot (drain_chunks vs) ?k = Some l'"
    "to_client (lk_relay l') = to_client (lk_relay ?k) @ concat vs" by auto
  have "link_run N h ch slot (drain_chunks (v # vs)) l = Some l'"
    using l'(1) by (simp only: drain_chunks.simps link_run.simps m write_out [OF o v] bind.simps)
  with l'(2) k(4) show ?case by (intro exI [of _ l']) simp
qed simp

lemma drains:
  assumes i: "link_inv h ch l" and o: "link_open l" and w: "writing (lk_relay l) \<noteq> Some []"
  shows "\<exists>l'. link_run N h ch slot (drain_events ch l) l = Some l' \<and> to_client (lk_relay l') = lk_down l"
proof -
  let ?q = "chan_q (chans (lk_actor l) ch)"
  have q: "[] \<notin> set ?q" using i by (auto simp: link_inv_def actor_inv_def chan_ok_def)
  have d: "lk_down l = to_client (lk_relay l) @ unwritten (lk_relay l) @ concat ?q"
    using link_inv_current(2) [OF i] o by (simp add: link_open_def)
  show ?thesis
  proof (cases "writing (lk_relay l)")
    case None
    with drains_chunks [OF o None refl q, of N h slot] d show ?thesis
      by (simp add: drain_events_def unwritten_def)
  next
    case (Some v)
    with w have v: "v \<noteq> []" by blast
    let ?m = "l\<lparr>lk_relay := (lk_relay l)\<lparr>to_client := to_client (lk_relay l) @ v, writing := None\<rparr>\<rparr>"
    have m: "link_open ?m" "writing (lk_relay ?m) = None" "chan_q (chans (lk_actor ?m) ch) = ?q"
      using o by (simp_all add: link_open_def)
    from drains_chunks [OF m q, of N h slot] d Some show ?thesis
      by (simp add: drain_events_def unwritten_def write_out [OF o Some v] del: link_step.simps)
  qed
qed

lemma writing_nonempty:
  "link_run N h ch slot es l = Some l' \<Longrightarrow> writing (lk_relay l) \<noteq> Some [] \<Longrightarrow> writing (lk_relay l') \<noteq> Some []"
proof (induction es arbitrary: l)
  case (Cons e es)
  then obtain m where m: "link_step N h ch slot e l = Some m" "link_run N h ch slot es m = Some l'"
    by (auto split: bind_splits)
  have "writing r' \<noteq> Some []" if "relay e' r = Some r'" "writing r \<noteq> Some []" for e' r r'
    using that by (cases e') (auto simp: relay_def split: if_splits option.splits)
  with link_step_relay [OF m(1)] Cons.prems(2) have "writing (lk_relay m) \<noteq> Some []" by metis
  with Cons.IH m(2) show ?case by blast
qed simp

section \<open>After the relay\<close>

text \<open>Once the relay has ended, nothing more reaches the client or is taken from the socket.\<close>

lemma net_closed_step:
  assumes "link_inv h ch l" and "net_closed (lk_relay l)" and "link_step N h ch slot e l = Some l'"
  shows "lk_relay l' = lk_relay l" "lk_down l' = lk_down l"
proof -
  show "lk_relay l' = lk_relay l" using link_step_relay [OF assms(3)] assms(2) relay_open by blast
  have "\<not> try_reserve (chans (lk_actor l) ch)"
    using assms(1,2) by (simp add: link_inv_def down_inv_def try_reserve_def)
  then have "received N s (chans (lk_actor l) ch) = []" for s by (simp add: received.simps)
  then show "lk_down l' = lk_down l"
    using assms(3) by (cases e; auto simp: relay_do_def turn_down_def split: if_splits option.splits)
qed

lemma net_closed_run:
  assumes N: "smoltcp_ok N" "takes_offered N"
  shows "link_inv h ch l \<Longrightarrow> net_closed (lk_relay l) \<Longrightarrow> link_run N h ch slot es l = Some l'
    \<Longrightarrow> lk_relay l' = lk_relay l \<and> lk_down l' = lk_down l"
proof (induction es arbitrary: l)
  case (Cons e es)
  then obtain m where m: "link_step N h ch slot e l = Some m" "link_run N h ch slot es m = Some l'"
    by (auto split: bind_splits)
  note c = net_closed_step [OF Cons.prems(1,2) m(1)]
  from Cons.IH [OF link_step_inv [OF N Cons.prems(1) m(1)] _ m(2)] c Cons.prems(2) show ?case by simp
qed simp

section \<open>A small network\<close>

text \<open>
  A remote that answers the first poll, sends two chunks and the end of its stream, and takes two bytes
  between polls: sockets count the polls and hold the room of the send buffer and the chunks to be
  received. After the second poll the state is no longer \<open>Established\<close> (the remote has closed its half).
\<close>

type_synonym duct_sock = "nat \<times> nat \<times> bytes list"

definition duct_net :: "(duct_sock, unit) net_ops" where
  "duct_net = \<lparr>tcp_new = (0, 0, []), sock_connect = (\<lambda>_ _ s. Inr s),
     sock_state = (\<lambda>(n, r, q). if n = 0 then Other_State else if n = 1 then Established
       else if n < 100 then Other_State else Closed),
     is_active = (\<lambda>(n, r, q). n < 100), can_send = (\<lambda>(n, r, q). 0 < r \<and> n < 100),
     can_recv = (\<lambda>(n, r, q). q \<noteq> []),
     send_slice = (\<lambda>bs (n, r, q). Some (min (length bs) r, (n, r - min (length bs) r, q))),
     recv_slice = (\<lambda>k (n, r, q). case q of [] \<Rightarrow> None | bs # q \<Rightarrow> Some (take k bs, (n, r, q))),
     sock_close = (\<lambda>(n, r, q). (100, r, q)), set_alloc = (\<lambda>ss. if ss 0 = None then 0 else Suc (Max (dom ss))),
     iface_poll = (\<lambda>now rx ss d. ([], [], \<lambda>h. map_option
       (\<lambda>(n, r, q). (Suc n, Suc (Suc 0), if n = 0 then [[1, 2], [3]] else q)) (ss h), d)),
     start_query = (\<lambda>name d. Inr (7, d)), get_query_result = (\<lambda>q d. (DnsPending, d))\<rparr>"

definition duct_room :: "duct_sock \<Rightarrow> nat" where
  "duct_room = (\<lambda>(n, r, q). if n < 100 then r else 0)"

lemma duct_net_simps [simp]:
  "tcp_new duct_net = (0, 0, [])" "sock_connect duct_net remote p s = Inr s"
  "sock_state duct_net (n, r, q) = (if n = 0 then Other_State else if n = 1 then Established
     else if n < 100 then Other_State else Closed)"
  "is_active duct_net (n, r, q) \<longleftrightarrow> n < 100" "can_send duct_net (n, r, q) \<longleftrightarrow> 0 < r \<and> n < 100"
  "can_recv duct_net (n, r, q) \<longleftrightarrow> q \<noteq> []"
  "send_slice duct_net bs (n, r, q) = Some (min (length bs) r, (n, r - min (length bs) r, q))"
  "recv_slice duct_net k (n, r, q) = (case q of [] \<Rightarrow> None | bs # q \<Rightarrow> Some (take k bs, (n, r, q)))"
  "sock_close duct_net (n, r, q) = (100, r, q)"
  "set_alloc duct_net = (\<lambda>ss. if ss 0 = None then 0 else Suc (Max (dom ss)))"
  "iface_poll duct_net now rx ss d = ([], [], \<lambda>h. map_option
     (\<lambda>(n, r, q). (Suc n, Suc (Suc 0), if n = 0 then [[1, 2], [3]] else q)) (ss h), d)"
  by (simp_all add: duct_net_def)

lemma duct_net_ok: "smoltcp_ok duct_net" "takes_offered duct_net"
proof -
  have "Suc (Max (dom ss)) \<notin> dom ss" if "finite (dom ss)" for ss :: "nat \<rightharpoonup> duct_sock"
    using Max_ge [OF that, of "Suc (Max (dom ss))"] by auto
  then show "smoltcp_ok duct_net" "takes_offered duct_net"
    by (auto simp: smoltcp_ok_def takes_offered_def duct_net_def dom_def split: list.splits if_splits)
qed

lemma duct_bounded: "bounded_sender duct_net duct_room"
  by (auto simp: bounded_sender_def duct_room_def split: if_splits)

definition duct_turn :: turn where
  "duct_turn = \<lparr>t_now = 0, t_keys = sorted_list_of_set, t_ring = length, t_cmds = []\<rparr>"

lemma duct_turn_ok: "turn_ok duct_turn"
  by (simp add: turn_ok_def duct_turn_def)

lemma duct_turn_ring: "t_ring duct_turn = length" "ring_ok (t_ring duct_turn)"
  by (simp_all add: duct_turn_def ring_ok_def)

text \<open>Its actor with the one connection, and a turn of it.\<close>

definition duct_actor :: "duct_sock \<Rightarrow> conn \<Rightarrow> bchan \<Rightarrow> (nat \<times> (rstr + nat)) list
    \<Rightarrow> (duct_sock, unit) actor" where
  "duct_actor s c k reps = \<lparr>dev_rx = [], dev_tx = [], dev_mtu = 1280, to_tunnel = [], sockets = [0 \<mapsto> s],
     dns_sock = (), next_port = 49153, conns = [0 \<mapsto> c], dns_pending = [], chans = (\<lambda>_. new_chan)(0 := k),
     connect_replies = reps, dns_replies = []\<rparr>"

abbreviation duct_poll :: "nat \<Rightarrow> bytes list \<Rightarrow> duct_sock" where
  "duct_poll n q \<equiv> (Suc n, Suc (Suc 0), if n = 0 then [[1, 2], [3]] else q)"

lemma duct_poll_egress:
  "poll_egress duct_net now (duct_actor (n, r, q) c k reps) = duct_actor (duct_poll n q) c k reps"
  by (auto simp: poll_egress_def duct_actor_def)

lemma duct_actor_turn:
  assumes "service_conn duct_net length 0 (duct_poll n q) c k = (rp, False, s', c', k')"
    and "from_net c = 0"
  shows "actor_turn duct_net (duct_turn\<lparr>t_cmds := cs\<rparr>) (duct_actor (n, r, q) c k reps)
    = Some (fold (handle_cmd duct_net) cs (duct_actor s' c' k' (reps @ rp)))"
  using assms service_conn_entry [OF assms(1)] duct_poll_egress [of 0 n r q c k reps]
  by (simp add: actor_turn_def duct_turn_def service_socket_def duct_actor_def service_dns_def)

lemma duct_cmds [simp]:
  "handle_cmd duct_net (Send h data) (duct_actor s c k reps)
     = duct_actor s (if h = 0 then c\<lparr>out_buf := out_buf c @ data\<rparr> else c) k reps"
  "handle_cmd duct_net (Close h) (duct_actor s c k reps)
     = duct_actor s (if h = 0 then c\<lparr>closing := True\<rparr> else c) k reps"
  "chans (duct_actor s c k reps) 0 = k" "connect_replies (duct_actor s c k reps) = reps"
  "(duct_actor s c k reps)\<lparr>chans := (chans (duct_actor s c k reps))(0 := k')\<rparr> = duct_actor s c k' reps"
  "current 0 0 (duct_actor s c k reps) = (if from_net c = 0 then Some c else None)"
  by (auto simp: duct_actor_def current_def)

lemma duct_service:
  assumes "from_net c = 0"
  shows "link_service duct_net 0 0 t (duct_actor (n, r, q) c k reps) = Some (duct_poll n q, c)"
  using assms duct_poll_egress [of "t_now t" n r q c k reps]
  by (simp add: link_service_def) (simp add: duct_actor_def)

text \<open>The same as an equation to be evaluated.\<close>

definition duct_conn_turn :: "duct_sock \<Rightarrow> conn \<Rightarrow> bchan
    \<Rightarrow> (nat \<times> (rstr + nat)) list \<times> bool \<times> duct_sock \<times> conn \<times> bchan" where
  "duct_conn_turn s c k = service_conn duct_net length 0 s c k"

lemma duct_turn_eval:
  assumes "from_net c = 0" and "\<not> fst (snd (duct_conn_turn (duct_poll n q) c k))"
  shows "link_step duct_net 0 0 slot (Turn duct_turn m)
      \<lparr>lk_actor = duct_actor (n, r, q) c k reps, lk_queue = cs, lk_phase = ph, lk_relay = y, lk_log = g,
        lk_up = u, lk_down = d\<rparr>
    = (case duct_conn_turn (duct_poll n q) c k of (rp, rem, s', c', k') \<Rightarrow>
        Some \<lparr>lk_actor = fold (handle_cmd duct_net) (take m cs) (duct_actor s' c' k' (reps @ rp)),
          lk_queue = drop m cs, lk_phase = ph, lk_relay = y, lk_log = g,
          lk_up = u @ accepted duct_net length (duct_poll n q) (out_buf c),
          lk_down = d @ received duct_net (fst (send_loop duct_net length (duct_poll n q) (out_buf c))) k\<rparr>)"
proof -
  let ?v = "duct_conn_turn (duct_poll n q) c k"
  obtain rp rem s' c' k' where v: "?v = (rp, rem, s', c', k')" by (cases ?v)
  with assms(2) have "\<not> rem" by simp
  with v have "service_conn duct_net length 0 (duct_poll n q) c k = (rp, False, s', c', k')"
    by (simp add: duct_conn_turn_def)
  from duct_actor_turn [OF this assms(1)] duct_service [OF assms(1), of duct_turn n r q k reps] duct_turn_ok
  show ?thesis by (simp add: v turn_up_def turn_down_def duct_turn_ring)
qed

abbreviation duct_conn :: "nat option \<Rightarrow> bytes \<Rightarrow> bool \<Rightarrow> conn" where
  "duct_conn rp out closed \<equiv> \<lparr>from_net = 0, out_buf = out, connect_reply = rp, closing = closed\<rparr>"

abbreviation duct_chan :: "bytes list \<Rightarrow> bool \<Rightarrow> bchan" where
  "duct_chan q rx \<equiv> \<lparr>chan_q = q, chan_tx = True, chan_rx = rx\<rparr>"

abbreviation duct_relay :: "bytes \<Rightarrow> bytes option \<Rightarrow> bytes list \<Rightarrow> bool \<Rightarrow> relay_state" where
  "duct_relay read w vs ended \<equiv>
     \<lparr>to_client = read, writing = w, to_net = vs, client_shut = False, net_closed = ended\<rparr>"

text \<open>Its connection, with \<open>q\<close> queued before its \<open>connect\<close> returned.\<close>

definition duct_link :: "cmd list \<Rightarrow> (duct_sock, unit) link" where
  "duct_link q = link_start duct_net (V4 (Ipv4 1 1 1 1), 80) 0 0 0 [] q (actor_new () 1280)"

lemma duct_start:
  "duct_link q = \<lparr>lk_actor = duct_actor (0, 0, []) (duct_conn (Some 0) [] False) (duct_chan [] True) [],
      lk_queue = q, lk_phase = Connecting, lk_relay = duct_relay [] None [] False,
      lk_log = map (Pair False) (filter (aimed 0) q), lk_up = [], lk_down = []\<rparr>"
  by (auto simp: duct_link_def link_start_def handle_connect_def next_ephemeral_port_def actor_new_def
      duct_actor_def Let_def new_chan_def relay_start_def)

lemma duct_ready:
  "list_all (\<lambda>cmd. \<not> opens_chan 0 cmd) q \<Longrightarrow> link_ready duct_net (V4 (Ipv4 1 1 1 1), 80) 0 0 ([] @ q) (actor_new () 1280)"
  by (simp add: link_ready_def actor_new_inv) (simp add: actor_new_def)

lemmas duct_loops = service_conn_def resolve_connect_def send_loop.simps recv_loop.simps accepted.simps
  received.simps Let_def try_reserve_def permit_send_def CHAN_DEPTH_def RECV_CHUNK_def

lemmas duct_steps = link_open_def relay_do_def relay_def enqueue_def set_chan_def drop_halves_def
  conn_recv_def conn_send_def conn_close_def writer_drop_def

lemma duct_first:
  "duct_conn_turn (Suc 0, Suc (Suc 0), [[1, 2], [3]]) (duct_conn (Some 0) [] False) (duct_chan [] True)
     = ([(0, Inr 0)], False, (Suc 0, Suc (Suc 0), []), duct_conn None [] False, duct_chan [[1, 2], [3]] True)"
  "received duct_net (Suc 0, Suc (Suc 0), [[1, 2], [3]]) (duct_chan [] True) = [1, 2, 3]"
  by (simp_all add: duct_conn_turn_def duct_loops)

text \<open>Later turns receive nothing and send at most two bytes.\<close>

lemma duct_later:
  "n < 98 \<Longrightarrow> duct_conn_turn (Suc (Suc n), Suc (Suc 0), []) (duct_conn None [] False) k
     = ([], False, (Suc (Suc n), Suc (Suc 0), []), duct_conn None [] False, k)"
  "n < 98 \<Longrightarrow> duct_conn_turn (Suc (Suc n), Suc (Suc 0), []) (duct_conn None [b] False) k
     = ([], False, (Suc (Suc n), Suc 0, []), duct_conn None [] False, k)"
  "n < 98 \<Longrightarrow> duct_conn_turn (Suc (Suc n), Suc (Suc 0), []) (duct_conn None (b # b' # bs) False) k
     = ([], False, (Suc (Suc n), 0, []), duct_conn None bs False, k)"
  "accepted duct_net length (n, m, q) [] = []" "received duct_net (n, m, []) k = []"
  "n < 98 \<Longrightarrow> accepted duct_net length (Suc (Suc n), Suc (Suc 0), q) [b] = [b]"
  "n < 98 \<Longrightarrow> accepted duct_net length (Suc (Suc n), Suc (Suc 0), q) (b # b' # bs) = [b, b']"
  "send_loop duct_net length (n, m, q) [] = ((n, m, q), [])"
  "n < 98 \<Longrightarrow> send_loop duct_net length (Suc (Suc n), Suc (Suc 0), q) [b] = ((Suc (Suc n), Suc 0, q), [])"
  "n < 98 \<Longrightarrow> send_loop duct_net length (Suc (Suc n), Suc (Suc 0), q) (b # b' # bs) = ((Suc (Suc n), 0, q), bs)"
  by (simp_all add: duct_conn_turn_def duct_loops)

lemmas duct_eval = duct_start duct_first duct_later duct_turn_eval duct_steps

text \<open>
  A run: the remote's chunks arrive, the client sends three bytes and its socket takes one byte of the
  first chunk, while another connection's command passes through.
\<close>

definition duct_events :: "link_event list" where
  "duct_events = [Turn duct_turn 0, Connected, Client_Data [71, 69, 84], Net_Ready, Others [Send 3 [9]],
     Client_Writes 1, Turn duct_turn 5]"

definition duct_handled :: "(duct_sock, unit) link" where
  "duct_handled =
     \<lparr>lk_actor = duct_actor (2, 2, []) (duct_conn None [71, 69, 84] False) (duct_chan [[3]] True) [(0, Inr 0)],
      lk_queue = [], lk_phase = Relaying, lk_relay = duct_relay [1] (Some [2]) [[71, 69, 84]] False,
      lk_log = [(True, Send 0 [71, 69, 84])], lk_up = [], lk_down = [1, 2, 3]\<rparr>"

lemma duct_events_run: "link_run duct_net 0 0 0 duct_events (duct_link []) = Some duct_handled"
  by (simp add: duct_events_def duct_handled_def duct_eval eval_nat_numeral del: link_step.simps(8) handle_cmd.simps)

text \<open>Two turns later the client's bytes are with the socket.\<close>

definition duct_mid :: "(duct_sock, unit) link" where
  "duct_mid =
     \<lparr>lk_actor = duct_actor (4, 1, []) (duct_conn None [] False) (duct_chan [[3]] True) [(0, Inr 0)],
      lk_queue = [], lk_phase = Relaying, lk_relay = duct_relay [1] (Some [2]) [[71, 69, 84]] False,
      lk_log = [(True, Send 0 [71, 69, 84])], lk_up = [71, 69, 84], lk_down = [1, 2, 3]\<rparr>"

lemma duct_mid_run:
  "link_run duct_net 0 0 0 [Turn duct_turn 5, Turn duct_turn 5] duct_handled = Some duct_mid"
  by (simp add: duct_handled_def duct_mid_def duct_eval eval_nat_numeral del: link_step.simps(8) handle_cmd.simps)

text \<open>The client ends: its end is the last command handled, and the next turn closes the socket.\<close>

definition duct_last :: "(duct_sock, unit) link" where
  "duct_last =
     \<lparr>lk_actor = duct_actor (5, 2, []) (duct_conn None [] True) (duct_chan [[3]] False) [(0, Inr 0)],
      lk_queue = [], lk_phase = Relaying, lk_relay = duct_relay [1] (Some [2]) [[71, 69, 84]] True,
      lk_log = [(True, Send 0 [71, 69, 84]), (True, Close 0), (True, Close 0)], lk_up = [71, 69, 84],
      lk_down = [1, 2, 3]\<rparr>"

lemma duct_last_run:
  "link_run duct_net 0 0 0 [Client_Done, Turn duct_turn 5] duct_mid = Some duct_last"
  by (simp add: duct_mid_def duct_last_def duct_eval eval_nat_numeral del: link_step.simps(8) handle_cmd.simps)

text \<open>Instead, the client waits for the remote: it has read everything, another turn passes.\<close>

definition duct_waiting :: "(duct_sock, unit) link" where
  "duct_waiting =
     \<lparr>lk_actor = duct_actor (5, 2, []) (duct_conn None [] False) (duct_chan [] True) [(0, Inr 0)],
      lk_queue = [], lk_phase = Relaying, lk_relay = duct_relay [1, 2, 3] None [[71, 69, 84]] False,
      lk_log = [(True, Send 0 [71, 69, 84])], lk_up = [71, 69, 84], lk_down = [1, 2, 3]\<rparr>"

lemma duct_waiting_run:
  "link_run duct_net 0 0 0 [Client_Writes 1, Net_Ready, Client_Writes 1, Turn duct_turn 5] duct_mid
     = Some duct_waiting"
  by (simp add: duct_mid_def duct_waiting_def duct_eval eval_nat_numeral del: link_step.simps(8) handle_cmd.simps)

text \<open>Or the writer of an earlier connection with the same handle sends one byte and ends.\<close>

definition duct_stale :: "(duct_sock, unit) link" where
  "duct_stale =
     \<lparr>lk_actor = duct_actor (5, 2, []) (duct_conn None [83] True) (duct_chan [[3]] True) [(0, Inr 0)],
      lk_queue = [], lk_phase = Relaying, lk_relay = duct_relay [1] (Some [2]) [[71, 69, 84]] False,
      lk_log = [(True, Send 0 [71, 69, 84]), (False, Send 0 [83]), (False, Close 0)], lk_up = [71, 69, 84],
      lk_down = [1, 2, 3]\<rparr>"

lemma duct_stale_run:
  "link_run duct_net 0 0 0 [Others (writer_session 0 [[83]]), Turn duct_turn 5] duct_mid = Some duct_stale"
  by (simp add: duct_mid_def duct_stale_def duct_eval writer_session_def eval_nat_numeral
      del: link_step.simps(8) handle_cmd.simps)

text \<open>Or such a writer's bytes were queued from the start.\<close>

definition duct_haunted :: "(duct_sock, unit) link" where
  "duct_haunted =
     \<lparr>lk_actor = duct_actor (3, 0, []) (duct_conn None [69] False) (duct_chan [[1, 2], [3]] True) [(0, Inr 0)],
      lk_queue = [], lk_phase = Relaying, lk_relay = duct_relay [] None [[71, 69]] False,
      lk_log = [(False, Send 0 [83]), (True, Send 0 [71, 69])], lk_up = [83, 71], lk_down = [1, 2, 3]\<rparr>"

lemma duct_haunted_run:
  "link_run duct_net 0 0 0 [Turn duct_turn 0, Connected, Client_Data [71, 69], Turn duct_turn 5, Turn duct_turn 5]
     (duct_link [Send 0 [83]]) = Some duct_haunted"
  by (simp add: duct_haunted_def duct_eval eval_nat_numeral del: link_step.simps(8) handle_cmd.simps)

text \<open>As long as the relay runs the client's side has not been shut down.\<close>

lemma open_not_shut:
  assumes "link_run N h ch slot es (link_start N remote h ch slot drained q a) = Some l"
    and "\<not> net_closed (lk_relay l)"
  shows "\<not> client_shut (lk_relay l)"
proof -
  have "client_shut (lk_relay l') \<longrightarrow> net_closed (lk_relay l')"
    if "link_run N h ch slot es l = Some l'" "client_shut (lk_relay l) \<longrightarrow> net_closed (lk_relay l)" for l l' es
    using that
  proof (induction es arbitrary: l)
    case (Cons e es)
    then obtain m where m: "link_step N h ch slot e l = Some m" "link_run N h ch slot es m = Some l'"
      by (auto split: bind_splits)
    have "client_shut r' \<longrightarrow> net_closed r'" if "relay e' r = Some r'" "client_shut r \<longrightarrow> net_closed r" for e' r r'
      using that by (cases e') (auto simp: relay_def split: if_splits option.splits)
    with link_step_relay [OF m(1)] Cons.prems(2) have "client_shut (lk_relay m) \<longrightarrow> net_closed (lk_relay m)" by metis
    with Cons.IH m(2) show ?case by blast
  qed simp
  from this [OF assms(1)] assms(2) show ?thesis by (simp add: link_start_def relay_start_def)
qed

text \<open>A turn that handles the whole queue handles a close in it.\<close>

lemma stray_close_handled:
  assumes N: "smoltcp_ok N" "takes_offered N" and i: "link_inv h ch l"
    and s: "link_step N h ch slot (Turn t n) l = Some l'" and n: "length (lk_queue l) \<le> n"
    and c: "current h ch (lk_actor l') = Some c" and q: "Close h \<in> set (lk_queue l)"
  shows "closing c"
proof -
  from i have a: "actor_inv (lk_actor l)" "only_conn h ch (lk_actor l)"
    and cs: "list_all (\<lambda>cmd. \<not> opens_chan ch cmd) (take n (lk_queue l))"
    by (auto simp: link_inv_def list_all_iff dest: in_set_takeD)
  from s obtain a' where t: "turn_ok t"
    "actor_turn N (t\<lparr>t_cmds := take n (lk_queue l)\<rparr>) (lk_actor l) = Some a'" "lk_actor l' = a'"
    by (auto split: if_splits)
  note turn = turn_current [OF N(1) t(1) a cs t(2)]
  from c turn(3) t(3) obtain d where "current h ch (lk_actor l) = Some d" by fastforce
  from turn(4) [OF this] obtain x where x: "link_service N h ch t (lk_actor l) = Some (x, d)" by blast
  from turn_effect(3) [OF N i s x c] n q show ?thesis by simp
qed

section \<open>Properties\<close>

lemma link_reaches_inv:
  assumes "smoltcp_ok N" "takes_offered N" "link_ready N remote h ch (drained @ q) a"
    and "link_run N h ch slot es (link_start N remote h ch slot drained q a) = Some l"
  shows "link_inv h ch l"
  by (rule link_run_inv [OF assms(1,2) link_start_inv [OF assms(1,3)] assms(4)])

text \<open>
  C3. A proxied connection is a duplex byte stream, whoever else sends to its handle: through the relay, the
  command channel, the actor's buffer and the bounded channel back, and however the steps of the client,
  the reader, the actor and all other connections interleave, what the socket has taken is a prefix of
  what was sent to the handle and what the client got a prefix of what the socket gave, both only ever
  growing. While the connection lives nothing is lost or duplicated: what is missing at the socket is
  exactly the outbound buffer and then the data queued; what is missing at the client is exactly the rest
  of the chunk being written and then what the channel holds. What the connection's writer sent is, chunk
  for chunk, what the relay read from the client; so if no stranger holds the handle the socket takes what
  the client sent and nothing else.
\<close>

theorem proxied_conn_is_duplex:
  assumes "smoltcp_ok N" "takes_offered N" "link_ready N remote h ch (drained @ q) a"
    and "link_run N h ch slot es (link_start N remote h ch slot drained q a) = Some l"
  shows "duplex_step\<^sup>*\<^sup>* \<lparr>sent = sends_to h (drained @ q), taken = [], given = [], got = []\<rparr> (link_abs h l)
    \<and> prefix (taken (link_abs h l)) (sent (link_abs h l)) \<and> prefix (got (link_abs h l)) (given (link_abs h l))
    \<and> (\<forall>c. current h ch (lk_actor l) = Some c \<longrightarrow>
         sent (link_abs h l) = taken (link_abs h l) @ out_buf c @ sends_to h (lk_queue l))
    \<and> (\<not> net_closed (lk_relay l) \<longrightarrow>
         given (link_abs h l) = got (link_abs h l) @ unwritten (lk_relay l) @ concat (chan_q (chans (lk_actor l) ch)))
    \<and> chunks_to h (own_cmds l) = to_net (lk_relay l)
    \<and> (strays l = [] \<longrightarrow> sent (link_abs h l) = concat (to_net (lk_relay l)))"
proof -
  have i: "link_inv h ch l" by (rule link_reaches_inv [OF assms])
  have "link_abs h (link_start N remote h ch slot drained q a)
      = \<lparr>sent = sends_to h (drained @ q), taken = [], given = [], got = []\<rparr>"
    by (simp add: link_abs_def link_start_def relay_start_def log_cmds_def comp_def)
  with link_run_refines [OF assms(1,2) link_start_inv [OF assms(1,3)] assms(4)]
  have "duplex_step\<^sup>*\<^sup>* \<lparr>sent = sends_to h (drained @ q), taken = [], given = [], got = []\<rparr> (link_abs h l)" by simp
  moreover have "strays l = [] \<longrightarrow> sends_to h (log_cmds l) = concat (to_net (lk_relay l))"
    using link_inv_current(3) [OF i] no_strays [of l] by (auto simp: sends_to_chunks)
  ultimately show ?thesis
    using link_inv_prefix [OF i] link_inv_current [OF i] by (simp add: link_abs_def)
qed

theorem proxied_conn_is_duplex_witness:
  "duplex_step\<^sup>*\<^sup>* \<lparr>sent = [83], taken = [], given = [], got = []\<rparr>
       \<lparr>sent = [83, 71, 69], taken = [83, 71], given = [1, 2, 3], got = []\<rparr>
   \<and> chunks_to 0 (own_cmds duct_haunted) = [[71, 69]]"
  using proxied_conn_is_duplex [OF duct_net_ok duct_ready duct_haunted_run [unfolded duct_link_def]]
  by (simp add: link_abs_def duct_haunted_def log_cmds_def)

text \<open>
  C5. The actor closes a socket only after everything was sent: in the turn in which the service of the
  connection closes its socket, the handle's \<open>Close\<close> was sent before and the socket has taken every byte
  that was sent to the handle but for what is still in the command queue. If only the connection's own
  writer sent to the handle, the relay has ended and that is every byte the client ever sent.
\<close>

theorem close_after_everything_sent:
  assumes "smoltcp_ok N" "takes_offered N" "link_ready N remote h ch (drained @ q) a"
    and "link_run N h ch slot es (link_start N remote h ch slot drained q a) = Some l"
    and "closes_in N h ch t (lk_actor l)" and "link_step N h ch slot (Turn t n) l = Some l'"
  shows "Close h \<in> set (log_cmds l) \<and> sends_to h (log_cmds l) = lk_up l' @ sends_to h (lk_queue l)
    \<and> (strays l = [] \<longrightarrow> net_closed (lk_relay l') \<and> lk_up l' = concat (to_net (lk_relay l')))"
proof -
  have i: "link_inv h ch l" by (rule link_reaches_inv [OF assms(1-4)])
  from assms(5) obtain s c where s: "link_service N h ch t (lk_actor l) = Some (s, c)"
    "closing c" "snd (send_loop N (t_ring t) s (out_buf c)) = []"
    by (auto simp: closes_in_def dest: service_conn_closes split: option.splits prod.splits)
  note c = link_service_current [OF s(1)]
  have "accepted N (t_ring t) s (out_buf c) = out_buf c"
    using send_loop_accepted [OF assms(2), of "t_ring t" s "out_buf c"] s(3) by simp
  with turn_effect(1) [OF assms(1,2) i assms(6) s(1)] have up: "lk_up l' = lk_up l @ out_buf c" by simp
  have r: "lk_relay l' = lk_relay l" using assms(6) by (auto split: if_splits)
  have "sends_to h (log_cmds l) = lk_up l' @ sends_to h (lk_queue l)"
    using link_inv_current(1) [OF i c] up by simp
  moreover have "Close h \<in> set (log_cmds l)"
    "strays l = [] \<Longrightarrow> net_closed (lk_relay l) \<and> sends_to h (lk_queue l) = []"
    using i c s(2) by (auto simp: link_inv_def up_inv_def)
  moreover have "strays l = [] \<Longrightarrow> sends_to h (log_cmds l) = concat (to_net (lk_relay l))"
    using link_inv_current(3) [OF i] no_strays [of l] by (auto simp: sends_to_chunks)
  ultimately show ?thesis using r by auto
qed

lemma duct_mid_reached:
  "link_run duct_net 0 0 0 (duct_events @ [Turn duct_turn 5, Turn duct_turn 5]) (duct_link []) = Some duct_mid"
  using duct_events_run duct_mid_run by (simp add: link_run_append del: link_run.simps)

lemma duct_last_reached:
  "link_run duct_net 0 0 0 ((duct_events @ [Turn duct_turn 5, Turn duct_turn 5]) @ [Client_Done, Turn duct_turn 5])
     (duct_link []) = Some duct_last"
  unfolding link_run_append [of _ _ _ _ "duct_events @ [Turn duct_turn 5, Turn duct_turn 5]"]
  using duct_mid_reached duct_last_run by (simp del: link_run.simps)

text \<open>A turn is always possible.\<close>

lemma turn_possible:
  assumes "smoltcp_ok N" "turn_ok t" "link_inv h ch l"
  obtains l' where "link_step N h ch slot (Turn t n) l = Some l'" "lk_relay l' = lk_relay l"
    "lk_queue l' = drop n (lk_queue l)"
proof -
  from assms(2) have t: "turn_ok (t\<lparr>t_cmds := take n (lk_queue l)\<rparr>)" by (simp add: turn_ok_def)
  from assms(3) have "actor_inv (lk_actor l)" by (simp add: link_inv_def)
  from actor_turn_ok [OF assms(1) t this] obtain a' where
    "actor_turn N (t\<lparr>t_cmds := take n (lk_queue l)\<rparr>) (lk_actor l) = Some a'" .
  with assms(2) that show thesis by simp
qed

theorem close_after_everything_sent_witness:
  "\<exists>l'. link_step duct_net 0 0 0 (Turn duct_turn 5) duct_last = Some l'
    \<and> net_closed (lk_relay l') \<and> lk_up l' = [71, 69, 84]"
proof -
  note run = duct_last_reached [unfolded duct_link_def]
  have "link_inv 0 0 duct_last" by (rule link_reaches_inv [OF duct_net_ok duct_ready run]) simp
  then obtain l' where l': "link_step duct_net 0 0 0 (Turn duct_turn 5) duct_last = Some l'"
    "lk_relay l' = lk_relay duct_last" by (rule turn_possible [OF duct_net_ok(1) duct_turn_ok])
  have "closes_in duct_net 0 0 duct_turn (lk_actor duct_last)"
    by (simp add: closes_in_def duct_last_def duct_service duct_turn_ring) (simp add: duct_loops)
  from close_after_everything_sent [OF duct_net_ok duct_ready run this l'(1)] l' show ?thesis
    by (auto simp: duct_last_def strays_def)
qed

text \<open>
  C35. The client sees the end of the remote's stream only when the connection is removed, and a turn
  removes it only when its socket is \<open>Closed\<close> after the service (or its connect has failed). So the
  remote's half close is not passed on: it leaves the socket waiting to be closed from this side, the
  reader waits, and only the client can end the relay. The witness is such a client.
\<close>

theorem client_end_needs_closed_socket:
  assumes "smoltcp_ok N" "takes_offered N" "link_ready N remote h ch (drained @ q) a"
    and "link_run N h ch slot es (link_start N remote h ch slot drained q a) = Some l"
    and "current h ch (lk_actor l) \<noteq> None"
  shows "conn_recv (chans (lk_actor l) ch) \<noteq> Some (None, k)
    \<and> (link_step N h ch slot (Turn t n) l = Some l' \<longrightarrow> \<not> dead_in N h ch t (lk_actor l)
         \<longrightarrow> current h ch (lk_actor l') \<noteq> None)"
proof -
  have i: "link_inv h ch l" by (rule link_reaches_inv [OF assms(1-4)])
  with assms(5) have "chan_tx (chans (lk_actor l) ch)"
    by (auto simp: link_inv_def up_inv_def)
  then show ?thesis
    using turn_keeps [OF assms(1) i assms(5)] by (auto simp: conn_recv_def split: list.splits)
qed

theorem client_end_needs_closed_socket_witness:
  "got (link_abs 0 duct_waiting) = [1, 2, 3] \<and> link_open duct_waiting
   \<and> sock_state duct_net (5, 2, []) = Other_State \<and> sockets (lk_actor duct_waiting) 0 = Some (5, 2, [])
   \<and> (\<forall>k. conn_recv (chans (lk_actor duct_waiting) 0) \<noteq> Some (None, k))"
proof -
  have run: "link_run duct_net 0 0 0 ((duct_events @ [Turn duct_turn 5, Turn duct_turn 5])
      @ [Client_Writes 1, Net_Ready, Client_Writes 1, Turn duct_turn 5]) (duct_link []) = Some duct_waiting"
    unfolding link_run_append [of _ _ _ _ "duct_events @ [Turn duct_turn 5, Turn duct_turn 5]"]
    using duct_mid_reached duct_waiting_run by (simp del: link_run.simps)
  have "current 0 0 (lk_actor duct_waiting) \<noteq> None"
    by (simp add: duct_waiting_def)
  from client_end_needs_closed_socket [OF duct_net_ok duct_ready run [unfolded duct_link_def] this]
  show ?thesis
    by (simp add: link_abs_def link_open_def duct_waiting_def) (simp add: duct_actor_def)
qed

text \<open>
  C6. What is sent gets through: once the actor has handled what was queued for the connection, a run in
  which every turn services it and finds room for \<open>m\<close> bytes in its socket, and that has turns enough for
  the outbound buffer, brings every byte sent to the handle to the socket, whatever else happens in that
  run. And a client that keeps reading gets, in the events of \<open>drain_events\<close>, every byte the socket gave.
\<close>

theorem bytes_get_through:
  assumes "smoltcp_ok N" "takes_offered N" "bounded_sender N room" "link_ready N remote h ch (drained @ q) a"
    and "link_run N h ch slot es (link_start N remote h ch slot drained q a) = Some l"
    and "current h ch (lk_actor l) = Some c" and "sends_to h (lk_queue l) = []"
    and "fed N h ch slot room m fs l" and "link_run N h ch slot fs l = Some l'"
    and "length (out_buf c) \<le> m * turns fs"
  shows "prefix (sends_to h (log_cmds l)) (lk_up l')
    \<and> (link_open l \<longrightarrow>
        (\<exists>l3. link_run N h ch slot (drain_events ch l) l = Some l3 \<and> to_client (lk_relay l3) = lk_down l))"
proof -
  have i: "link_inv h ch l" by (rule link_reaches_inv [OF assms(1,2,4,5)])
  let ?T = "sends_to h (log_cmds l)"
  have T: "?T = lk_up l @ out_buf c" using link_inv_current(1) [OF i assms(6)] assms(7) by simp
  have "prefix (take (length (lk_up l) + m * turns fs) ?T) (lk_up l')"
    by (rule fed_progress [OF assms(1-3) i assms(8,9)]) (simp_all add: T handed_def assms(6))
  then have "prefix ?T (lk_up l')" using T assms(10) by simp
  moreover have "writing (lk_relay l) \<noteq> Some []"
    by (rule writing_nonempty [OF assms(5)]) (simp add: link_start_def relay_start_def)
  ultimately show ?thesis using drains [OF i] by blast
qed

theorem bytes_get_through_witness:
  "prefix [71, 69, 84] (lk_up duct_mid)
   \<and> (\<exists>l3. link_run duct_net 0 0 0 [Client_Writes 1, Net_Ready, Client_Writes 1] duct_handled = Some l3
        \<and> to_client (lk_relay l3) = [1, 2, 3])"
proof -
  have c: "current 0 0 (lk_actor duct_handled) = Some (duct_conn None [71, 69, 84] False)"
    "sends_to 0 (lk_queue duct_handled) = []" by (simp_all add: duct_handled_def)
  have f: "fed duct_net 0 0 0 duct_room 2 [Turn duct_turn 5, Turn duct_turn 5] duct_handled"
    by (simp add: duct_handled_def duct_service duct_room_def duct_turn_ring ring_ok_def duct_eval eval_nat_numeral
        del: link_step.simps(8) handle_cmd.simps)
  have "drain_events 0 duct_handled = [Client_Writes 1, Net_Ready, Client_Writes 1]" "link_open duct_handled"
    by (simp_all add: drain_events_def duct_handled_def link_open_def)
  with bytes_get_through [OF duct_net_ok duct_bounded duct_ready duct_events_run [unfolded duct_link_def] c f
      duct_mid_run]
  show ?thesis by (simp add: duct_handled_def log_cmds_def del: link_run.simps)
qed

text \<open>
  C34. A client that ends its half loses what it has not yet been given: when the relay reads the end of the
  client it ends in both directions, so whatever happens afterwards the client is given nothing more and
  nothing more is taken from its socket in the tunnel. What the socket had given and the client had not
  yet taken, the rest of the chunk being written and the chunks of the channel, is lost.
\<close>

theorem half_close_loses_answer:
  assumes "smoltcp_ok N" "takes_offered N" "link_ready N remote h ch (drained @ q) a"
    and "link_run N h ch slot es (link_start N remote h ch slot drained q a) = Some l"
    and "link_step N h ch slot Client_Done l = Some l1" and "link_run N h ch slot fs l1 = Some l2"
  shows "to_client (lk_relay l2) = to_client (lk_relay l) \<and> \<not> client_shut (lk_relay l2)
    \<and> lk_down l2 = to_client (lk_relay l2) @ unwritten (lk_relay l) @ concat (chan_q (chans (lk_actor l) ch))"
proof -
  have i: "link_inv h ch l" by (rule link_reaches_inv [OF assms(1-4)])
  from assms(5) have o: "\<not> net_closed (lk_relay l)"
    and r: "lk_relay l1 = (lk_relay l)\<lparr>net_closed := True\<rparr>" and d: "lk_down l1 = lk_down l"
    by (auto simp: relay_do_def relay_def split: if_splits)
  have "lk_relay l2 = lk_relay l1 \<and> lk_down l2 = lk_down l1"
    by (rule net_closed_run [OF assms(1,2) link_step_inv [OF assms(1,2) i assms(5)] _ assms(6)]) (simp add: r)
  moreover have "\<not> client_shut (lk_relay l)" using o open_not_shut [OF assms(4)] by simp
  ultimately show ?thesis using link_inv_current(2) [OF i o] r d by simp
qed

theorem half_close_loses_answer_witness:
  "to_client (lk_relay duct_last) = [1] \<and> lk_down duct_last = [1] @ [2] @ [3]"
proof -
  obtain l1 where l1: "link_step duct_net 0 0 0 Client_Done duct_mid = Some l1"
    "link_run duct_net 0 0 0 [Turn duct_turn 5] l1 = Some duct_last"
    using duct_last_run by (auto simp del: link_step.simps split: bind_splits)
  from half_close_loses_answer [OF duct_net_ok duct_ready duct_mid_reached [unfolded duct_link_def] this]
  show ?thesis by (simp add: duct_mid_def unwritten_def)
qed

text \<open>
  C36. A writer outlives its connection and its handle is given out again: when the holder of an earlier
  connection with the same handle sends \<open>datas\<close> and drops its writer while this one is being relayed, then
  in the turn that finds the buffer sent, the remote has got, after all that had been sent to the handle
  before, the stranger's bytes; and the service of that turn closes this connection's socket, although
  its client has not ended and its relay goes on.
\<close>

theorem stale_writer_cuts_connection:
  assumes "smoltcp_ok N" "takes_offered N" "link_ready N remote h ch (drained @ q) a"
    and "link_run N h ch slot es (link_start N remote h ch slot drained q a) = Some l" and "link_open l"
    and "link_step N h ch slot (Others (writer_session h datas)) l = Some l1"
    and "link_step N h ch slot (Turn t n) l1 = Some l2" and "length (lk_queue l1) \<le> n"
    and "link_service N h ch t' (lk_actor l2) = Some (s, c)"
    and "snd (send_loop N (t_ring t') s (out_buf c)) = []"
    and "link_step N h ch slot (Turn t' n') l2 = Some l3"
  shows "link_open l3 \<and> lk_up l3 = sends_to h (log_cmds l) @ concat datas
    \<and> (\<exists>rp rem c' k. service_conn N (t_ring t') h s c (chans (lk_actor l2) ch)
         = (rp, rem, sock_close N (fst (recv_loop N (fst (send_loop N (t_ring t') s (out_buf c)))
              (chans (lk_actor l2) ch))), c', k))"
proof -
  note inv = link_step_inv [OF assms(1,2)]
  have i: "link_inv h ch l" by (rule link_reaches_inv [OF assms(1-4)])
  note i1 = inv [OF i assms(6)]
  note i2 = inv [OF i1 assms(7)]
  have w: "sends_to h (writer_session h datas) = concat datas" "Close h \<in> set (writer_session h datas)"
    by (induction datas) (simp_all add: writer_session_def conn_send_def writer_drop_def conn_close_def)
  have l1: "l1 = enqueue h False (writer_session h datas) l" using assms(6) by (auto split: if_splits)
  have l2: "lk_queue l2 = []" "log_cmds l2 = log_cmds l1" "lk_relay l2 = lk_relay l1" "lk_phase l2 = lk_phase l1"
    using assms(7,8) by (auto split: if_splits)
  have l3: "lk_relay l3 = lk_relay l2" "lk_phase l3 = lk_phase l2" using assms(11) by (auto split: if_splits)
  note c = link_service_current [OF assms(9)]
  have "closing c" using stray_close_handled [OF assms(1,2) i1 assms(7,8) c] l1 w(2) by simp
  then have "\<exists>rp rem c' k. service_conn N (t_ring t') h s c (chans (lk_actor l2) ch)
         = (rp, rem, sock_close N (fst (recv_loop N (fst (send_loop N (t_ring t') s (out_buf c)))
              (chans (lk_actor l2) ch))), c', k)"
    using assms(10) by (auto simp: service_conn_def Let_def split: prod.splits)
  moreover have "lk_up l3 = sends_to h (log_cmds l) @ concat datas"
    using turn_effect(1) [OF assms(1,2) i2 assms(11,9)] send_loop_accepted [OF assms(2), of "t_ring t'" s "out_buf c"]
      assms(10) link_inv_current(1) [OF i2 c] l2 l1 w(1) by simp
  ultimately show ?thesis using assms(5) l1 l2 l3 by (simp add: link_open_def)
qed

theorem stale_writer_cuts_connection_witness:
  "\<exists>l3. link_step duct_net 0 0 0 (Turn duct_turn 5) duct_stale = Some l3
     \<and> link_open l3 \<and> lk_up l3 = [71, 69, 84] @ [83]"
proof -
  obtain l1 where l1: "link_step duct_net 0 0 0 (Others (writer_session 0 [[83]])) duct_mid = Some l1"
    "link_step duct_net 0 0 0 (Turn duct_turn 5) l1 = Some duct_stale"
    using duct_stale_run by (auto simp del: link_step.simps split: bind_splits)
  then have "length (lk_queue l1) \<le> 5"
    by (auto simp: duct_mid_def writer_session_def conn_send_def writer_drop_def conn_close_def)
  note run = duct_mid_reached [unfolded duct_link_def]
  have "link_inv 0 0 duct_mid" by (rule link_reaches_inv [OF duct_net_ok duct_ready run]) simp
  from link_step_inv [OF duct_net_ok link_step_inv [OF duct_net_ok this l1(1)] l1(2)]
  obtain l3 where l3: "link_step duct_net 0 0 0 (Turn duct_turn 5) duct_stale = Some l3"
    by (rule turn_possible [OF duct_net_ok(1) duct_turn_ok])
  have v: "link_service duct_net 0 0 duct_turn (lk_actor duct_stale) = Some (duct_poll 5 [], duct_conn None [83] True)"
    by (simp add: duct_stale_def duct_service)
  have e: "snd (send_loop duct_net (t_ring duct_turn) (duct_poll 5 []) (out_buf (duct_conn None [83] True))) = []"
    by (simp add: duct_turn_ring duct_loops)
  have "link_open duct_mid" by (simp add: duct_mid_def link_open_def)
  from stale_writer_cuts_connection [OF duct_net_ok duct_ready run this l1 \<open>length (lk_queue l1) \<le> 5\<close> v e l3] l3
  show ?thesis by (auto simp: duct_mid_def log_cmds_def)
qed

end
