(* ===== verification/Trace.thy ===== *)
theory Trace
  imports Socks
begin

text \<open>
  The egress trace of \<open>crates/warp-masque/src/trace.rs\<close>: the request made through a worker's netstack
  and the parser of the \<open>key=value\<close> lines of the answer. The TLS session is a parameter: given the
  request, it returns the bytes read until the end.
\<close>

record trace_info =
  tr_ip :: rstr
  tr_colo :: rstr
  tr_warp :: rstr
  tr_err :: "rstr option"

definition trace_default :: trace_info where
  "trace_default = \<lparr>tr_ip = [], tr_colo = [], tr_warp = [], tr_err = None\<rparr>"

definition TRACE_HOST :: rstr where
  "TRACE_HOST = lit ''www.cloudflare.com''"

definition crlf :: rstr where
  "crlf = [13, 10]"

definition trace_line :: "rstr \<Rightarrow> trace_info \<Rightarrow> trace_info" where
  "trace_line line info =
     (case split_once 61 line of
        Some (k, v) \<Rightarrow>
          if k = lit ''ip'' then info\<lparr>tr_ip := trim v\<rparr>
          else if k = lit ''warp'' then info\<lparr>tr_warp := trim v\<rparr>
          else if k = lit ''colo'' then info\<lparr>tr_colo := trim v\<rparr>
          else info
      | None \<Rightarrow> info)"

definition parse_trace :: "bytes \<Rightarrow> rstr + trace_info" where
  "parse_trace buf =
     (let text = from_utf8_lossy buf;
          body = (case split_str (crlf @ crlf) text of _ # b # _ \<Rightarrow> b | _ \<Rightarrow> []);
          info = fold trace_line (str_lines body) trace_default in
      if tr_ip info = [] \<and> tr_warp info = [] then Inl (lit ''no trace fields in response'')
      else Inr info)"

definition trace_request :: rstr where
  "trace_request =
     lit ''GET /cdn-cgi/trace HTTP/1.1'' @ crlf @ lit ''Host: '' @ TRACE_HOST @ crlf
     @ lit ''User-Agent: warp-proxy'' @ crlf @ lit ''Accept: */*'' @ crlf
     @ lit ''Connection: close'' @ crlf @ crlf"

definition do_fetch :: "('sk, 'pk, 'cert) tls_lib \<Rightarrow> (rstr \<Rightarrow> rstr + unit)
    \<Rightarrow> ('pk client_config \<Rightarrow> rstr \<Rightarrow> bytes \<Rightarrow> rstr + bytes) \<Rightarrow> net_handle \<Rightarrow> rstr + trace_info" where
  "do_fetch L sni_ok session net =
     rbind (fst (net_resolve net TRACE_HOST)) (\<lambda>ip.
     rbind (nh_connect net (ip, 443)) (\<lambda>_.
     rbind (map_err error_text (insecure_client_config L [utf8 (lit ''http/1.1'')])) (\<lambda>cfg.
     rbind (sni_ok TRACE_HOST) (\<lambda>_.
     rbind (session cfg TRACE_HOST (utf8 trace_request)) parse_trace))))"

text \<open>\<open>fetch_trace\<close>, given the result of \<open>do_fetch\<close> or \<open>None\<close> when 15 seconds pass first.\<close>

fun fetch_trace :: "(rstr + trace_info) option \<Rightarrow> trace_info" where
  "fetch_trace (Some (Inr info)) = info"
| "fetch_trace (Some (Inl e)) = trace_default\<lparr>tr_err := Some e\<rparr>"
| "fetch_trace None = trace_default\<lparr>tr_err := Some (lit ''trace timeout'')\<rparr>"

text \<open>The last line with a key decides; lines without \<open>=\<close> and other keys change nothing.\<close>

definition last_value :: "rstr \<Rightarrow> rstr list \<Rightarrow> rstr option" where
  "last_value key ls = find_map (\<lambda>l. case split_once 61 l of
      Some (k, v) \<Rightarrow> if k = key then Some (trim v) else None | None \<Rightarrow> None) (rev ls)"

lemma last_value_snoc:
  "last_value key (ls @ [l]) = (case split_once 61 l of
      Some (k, v) \<Rightarrow> if k = key then Some (trim v) else last_value key ls
    | None \<Rightarrow> last_value key ls)"
  by (auto simp: last_value_def split: option.splits prod.splits)

lemma trace_lines:
  "fold trace_line ls info = info\<lparr>
     tr_ip := (case last_value (lit ''ip'') ls of Some v \<Rightarrow> v | None \<Rightarrow> tr_ip info),
     tr_colo := (case last_value (lit ''colo'') ls of Some v \<Rightarrow> v | None \<Rightarrow> tr_colo info),
     tr_warp := (case last_value (lit ''warp'') ls of Some v \<Rightarrow> v | None \<Rightarrow> tr_warp info)\<rparr>"
proof (induction ls rule: rev_induct)
  case Nil
  then show ?case by (simp add: last_value_def)
next
  case (snoc l ls)
  then show ?case
    by (auto simp: trace_line_def last_value_snoc split: option.splits)
qed

lemma fetch_trace_err: "tr_err (fetch_trace r) = None \<longleftrightarrow> (\<exists>info. r = Some (Inr info) \<and> tr_err info = None)"
  by (cases r rule: fetch_trace.cases) auto

end
