(* ===== verification/Pool.thy ===== *)
theory Pool
  imports Trace
begin

text \<open>
  The account pool of \<open>crates/warp-masque/src/pool.rs\<close>: the workers, the selection state of the
  load-balancer and the live controls. Workers are shared (\<open>Arc<Worker>\<close>): \<open>store\<close> holds every worker
  ever created by its id, \<open>members\<close> the ids in the pool's vector, so that a removed worker lives on in
  its supervisor. \<open>'n\<close> is the type of netstack handles. The supervisors are in the next theory.
\<close>

section \<open>State\<close>

definition MAX_BACKOFF :: nat where "MAX_BACKOFF = 30"
definition MIN_ROTATE_SECS :: nat where "MIN_ROTATE_SECS = 60"

text \<open>
  \<open>w_permit\<close> is the stored permit of \<open>Notify\<close>; \<open>w_tunnel\<close> keeps, for the tunnel held, the
  configuration and transport it was connected with; \<open>w_dead\<close> is the watch of the live tunnel.
\<close>

record 'n worker =
  w_permit :: bool
  w_config :: warp_config
  w_net :: "'n option"
  w_tunnel :: "(warp_config \<times> transport) option"
  w_dead :: "bool option"
  w_v4 :: ipv4
  w_trace :: "trace_info option"

record 'n pool =
  store :: "nat \<rightharpoonup> 'n worker"
  members :: "nat list"
  enabled :: bool
  pinned :: nat
  http2 :: bool
  rr :: u64
  next_id :: nat
  rotate_secs :: nat
  device_name :: rstr

definition worker_new :: "warp_config \<Rightarrow> 'n worker" where
  "worker_new config = \<lparr>w_permit = False, w_config = config, w_net = None, w_tunnel = None,
     w_dead = None, w_v4 = Ipv4 0 0 0 0, w_trace = None\<rparr>"

definition pool_init :: "bool \<Rightarrow> 'n pool" where
  "pool_init use_http2 = \<lparr>store = Map.empty, members = [], enabled = True, pinned = 0,
     http2 = use_http2, rr = 0, next_id = 1, rotate_secs = 0, device_name = lit ''warp-proxy''\<rparr>"

definition on_worker :: "nat \<Rightarrow> ('n worker \<Rightarrow> 'n worker) \<Rightarrow> 'n pool \<Rightarrow> 'n pool" where
  "on_worker i f p = p\<lparr>store := (store p)(i := map_option f (store p i))\<rparr>"

definition net_of :: "'n pool \<Rightarrow> nat \<Rightarrow> 'n option" where
  "net_of p i = Option.bind (store p i) w_net"

definition clear_net :: "'n worker \<Rightarrow> 'n worker" where
  "clear_net w = w\<lparr>w_net := None, w_dead := None\<rparr>"

definition set_trace :: "trace_info \<Rightarrow> 'n worker \<Rightarrow> 'n worker" where
  "set_trace t w = w\<lparr>w_trace := Some t\<rparr>"

definition notify_one :: "'n worker \<Rightarrow> 'n worker" where
  "notify_one w = w\<lparr>w_permit := True\<rparr>"

definition transport_of :: "'n pool \<Rightarrow> transport" where
  "transport_of p = (if http2 p then Http2 else Http3)"

section \<open>Building a tunnel\<close>

text \<open>
  \<open>build_tunnel\<close> in its two halves: it takes the configuration and transport when it starts
  (\<open>build_inputs\<close>) and, when the connection is up, installs the tunnel and its netstack.
\<close>

definition build_inputs :: "'n pool \<Rightarrow> nat \<Rightarrow> (warp_config \<times> transport) option" where
  "build_inputs p i = map_option (\<lambda>w. (w_config w, transport_of p)) (store p i)"

definition install_tunnel :: "warp_config \<times> transport \<Rightarrow> tunnel \<Rightarrow> 'n \<Rightarrow> 'n worker \<Rightarrow> 'n worker" where
  "install_tunnel inputs t net w =
     w\<lparr>w_tunnel := Some inputs, w_net := Some net, w_v4 := tun_assigned_v4 t,
       w_dead := Some (tun_dead t)\<rparr>"

definition build_result :: "('sk, 'pk, 'cert) tls_lib \<Rightarrow> int \<Rightarrow> 'pk net_env \<Rightarrow> warp_config \<times> transport
    \<Rightarrow> error + tunnel" where
  "build_result L now E inputs =
     rbind (from_private_b64 L (private_key (fst inputs))) (\<lambda>kp.
     connect_with L now E (fst inputs) kp (snd inputs))"

section \<open>Live controls\<close>

definition set_enabled :: "bool \<Rightarrow> 'n pool \<Rightarrow> 'n pool" where
  "set_enabled on p = p\<lparr>enabled := on\<rparr>"

definition select :: "nat \<Rightarrow> 'n pool \<Rightarrow> 'n pool" where
  "select i p = p\<lparr>pinned := i\<rparr>"

text \<open>
  The scan of \<open>pick\<close> from \<open>start\<close>: indices are \<open>usize\<close>, whose addition wraps in a release build.
\<close>

definition scan :: "'n pool \<Rightarrow> u64 \<Rightarrow> nat \<Rightarrow> 'n option" where
  "scan p start off = net_of p (members p ! (unat (start + of_nat off) mod length (members p)))"

definition pick :: "'n pool \<Rightarrow> 'n option \<times> 'n pool" where
  "pick p =
     (if members p = [] then (None, p)
      else
        (case (if pinned p \<noteq> 0
               then Option.bind (find (\<lambda>i. i = pinned p) (members p)) (net_of p) else None) of
           Some net \<Rightarrow> (Some net, p)
         | None \<Rightarrow>
             (let start = rr p in
              (find_map (scan p start) [0..<length (members p)], p\<lparr>rr := rr p + 1\<rparr>))))"

definition reconnect :: "nat \<Rightarrow> 'n pool \<Rightarrow> 'n pool" where
  "reconnect i p =
     fold (\<lambda>j. if i = 0 \<or> j = i then on_worker j notify_one else id) (members p) p"

text \<open>
  \<open>rotate\<close> before and after the registration it awaits: the target and its registration options, and
  the new configuration stored.
\<close>

definition rotate_target :: "nat \<Rightarrow> 'n pool \<Rightarrow> error + nat" where
  "rotate_target i p =
     ok_or (Config (lit ''no such account''))
       (if i \<noteq> 0 then find (\<lambda>j. j = i) (members p)
        else (case find (\<lambda>j. j = pinned p) (members p) of
                Some j \<Rightarrow> Some j
              | None \<Rightarrow> (case members p of [] \<Rightarrow> None | j # _ \<Rightarrow> Some j)))"

definition account_name :: "'n pool \<Rightarrow> nat \<Rightarrow> rstr" where
  "account_name p i = device_name p @ lit ''-'' @ show_nat i"

definition rotate_commit :: "nat \<Rightarrow> warp_config \<Rightarrow> 'n pool \<Rightarrow> 'n pool" where
  "rotate_commit i fresh = on_worker i (\<lambda>w. notify_one (w\<lparr>w_config := fresh\<rparr>))"

definition rotate :: "(rstr \<Rightarrow> error + warp_config) \<Rightarrow> nat \<Rightarrow> 'n pool \<Rightarrow> (error + unit) \<times> 'n pool" where
  "rotate register i p =
     (case rotate_target i p of
        Inl e \<Rightarrow> (Inl e, p)
      | Inr j \<Rightarrow>
          (case register (account_name p j) of
             Inl e \<Rightarrow> (Inl e, p)
           | Inr fresh \<Rightarrow> (Inr (), rotate_commit j fresh p)))"

definition set_http2 :: "bool \<Rightarrow> 'n pool \<Rightarrow> 'n pool" where
  "set_http2 on p = reconnect 0 (p\<lparr>http2 := on\<rparr>)"

definition set_rotate_interval :: "nat \<Rightarrow> 'n pool \<Rightarrow> 'n pool" where
  "set_rotate_interval secs p =
     p\<lparr>rotate_secs := (if secs = 0 then 0 else max secs MIN_ROTATE_SECS)\<rparr>"

text \<open>
  \<open>add_account\<close> up to the registration, and the worker pushed after it. The build that follows is a
  step of the supervision.
\<close>

definition reserve_id :: "'n pool \<Rightarrow> nat \<times> 'n pool" where
  "reserve_id p = (next_id p, p\<lparr>next_id := next_id p + 1\<rparr>)"

definition push_worker :: "nat \<Rightarrow> warp_config \<Rightarrow> 'n pool \<Rightarrow> 'n pool" where
  "push_worker i cfg p =
     p\<lparr>store := (store p)(i \<mapsto> worker_new cfg), members := members p @ [i]\<rparr>"

text \<open>
  \<open>add_account\<close> as a whole, for a caller that waits for it: \<open>register\<close> and \<open>build\<close> are the outcomes
  of the registration under a device name and of \<open>build_tunnel\<close> from its inputs.
\<close>

definition add_account :: "(rstr \<Rightarrow> error + warp_config) \<Rightarrow> (warp_config \<times> transport \<Rightarrow> error + tunnel \<times> 'n)
    \<Rightarrow> 'n pool \<Rightarrow> (error + nat) \<times> 'n pool" where
  "add_account register build p =
     (case reserve_id p of (i, p) \<Rightarrow>
       (case register (account_name p i) of
          Inl e \<Rightarrow> (Inl e, p)
        | Inr cfg \<Rightarrow>
            (let p = push_worker i cfg p; inputs = (cfg, transport_of p) in
             case build inputs of
               Inl e \<Rightarrow> (Inl e, p)
             | Inr (t, net) \<Rightarrow> (Inr i, on_worker i (install_tunnel inputs t net) p))))"

definition remove_account :: "nat \<Rightarrow> 'n pool \<Rightarrow> (error + unit) \<times> 'n pool" where
  "remove_account i p =
     (if length (members p) \<le> 1 then
        (Inl (Config (lit ''cannot remove the last account'')), p)
      else
        (let before = length (members p);
             p = p\<lparr>members := filter (\<lambda>j. j \<noteq> i) (members p)\<rparr> in
         if length (members p) = before then
           (Inl (Config (lit ''no such account '' @ show_nat i)), p)
         else (Inr (), if pinned p = i then p\<lparr>pinned := 0\<rparr> else p)))"

text \<open>\<open>refresh_trace\<close> with \<open>fetch\<close> the result for a netstack.\<close>

definition refresh_trace :: "('n \<Rightarrow> trace_info) \<Rightarrow> nat \<Rightarrow> 'n pool \<Rightarrow> 'n pool" where
  "refresh_trace fetch i p =
     fold (\<lambda>j p. if i \<noteq> 0 \<and> j \<noteq> i then p
                else (case net_of p j of
                        None \<Rightarrow> p
                      | Some net \<Rightarrow> on_worker j (set_trace (fetch net)) p)) (members p) p"

section \<open>Status\<close>

record account_status =
  as_id :: nat
  as_ready :: bool
  as_ip :: rstr
  as_trace :: "trace_info option"

record pool_status =
  ps_enabled :: bool
  ps_mode :: rstr
  ps_pinned :: nat
  ps_http2 :: bool
  ps_rotate_seconds :: nat
  ps_accounts :: "account_status list"

definition account_status_of :: "'n pool \<Rightarrow> nat \<Rightarrow> account_status option" where
  "account_status_of p i =
     map_option (\<lambda>w. \<lparr>as_id = i, as_ready = (w_net w \<noteq> None), as_ip = show_ipv4 (w_v4 w),
       as_trace = w_trace w\<rparr>) (store p i)"

definition status :: "'n pool \<Rightarrow> pool_status" where
  "status p = \<lparr>ps_enabled = enabled p,
     ps_mode = (if pinned p = 0 then lit ''auto'' else lit ''pinned''), ps_pinned = pinned p,
     ps_http2 = http2 p, ps_rotate_seconds = rotate_secs p,
     ps_accounts = List.map_filter (account_status_of p) (members p)\<rparr>"

section \<open>Facts\<close>

text \<open>Operations on one worker leave everything else of the pool alone.\<close>

lemma on_worker_simps [simp]:
  "members (on_worker i f p) = members p" "enabled (on_worker i f p) = enabled p"
  "pinned (on_worker i f p) = pinned p" "http2 (on_worker i f p) = http2 p" "rr (on_worker i f p) = rr p"
  "next_id (on_worker i f p) = next_id p" "rotate_secs (on_worker i f p) = rotate_secs p"
  "device_name (on_worker i f p) = device_name p"
  "store (on_worker i f p) j = (if j = i then map_option f (store p i) else store p j)"
  by (simp_all add: on_worker_def)

lemma dom_on_worker [simp]: "dom (store (on_worker i f p)) = dom (store p)"
  by (auto simp: on_worker_def dom_def)

definition poked :: "nat \<Rightarrow> nat list \<Rightarrow> 'n pool \<Rightarrow> nat \<Rightarrow> 'n worker option" where
  "poked i ms p j = (if j \<in> set ms \<and> (i = 0 \<or> j = i) then map_option notify_one (store p j) else store p j)"

lemma notify_one_idem [simp]: "notify_one (notify_one w) = notify_one w"
  by (simp add: notify_one_def)

lemma fold_notify:
  "fold (\<lambda>j. if i = 0 \<or> j = i then on_worker j notify_one else id) ms p = p\<lparr>store := poked i ms p\<rparr>"
proof (induction ms arbitrary: p)
  case Nil
  then show ?case by (simp add: poked_def)
next
  case (Cons m ms)
  show ?case
  proof (cases "i = 0 \<or> m = i")
    case True
    have "poked i ms (on_worker m notify_one p) = poked i (m # ms) p"
      using True by (auto simp: poked_def fun_eq_iff option.map_comp o_def)
    then show ?thesis
      using True by (simp add: Cons.IH on_worker_def)
  next
    case False
    then have "poked i ms p = poked i (m # ms) p"
      by (auto simp: poked_def fun_eq_iff)
    moreover have "fold (\<lambda>j. if i = 0 \<or> j = i then on_worker j notify_one else id) (m # ms) p
        = fold (\<lambda>j. if i = 0 \<or> j = i then on_worker j notify_one else id) ms p"
      using False by simp
    ultimately show ?thesis
      by (simp only: Cons.IH)
  qed
qed

lemma reconnect_eq: "reconnect i p = p\<lparr>store := poked i (members p) p\<rparr>"
  unfolding reconnect_def by (rule fold_notify)

lemma reconnect_simps [simp]:
  "members (reconnect i p) = members p" "enabled (reconnect i p) = enabled p"
  "pinned (reconnect i p) = pinned p" "http2 (reconnect i p) = http2 p" "rr (reconnect i p) = rr p"
  "next_id (reconnect i p) = next_id p"
  "store (reconnect i p) j = (if j \<in> set (members p) \<and> (i = 0 \<or> j = i)
     then map_option notify_one (store p j) else store p j)"
  by (simp_all add: reconnect_eq poked_def)

lemma net_of_reconnect [simp]: "net_of (reconnect i p) j = net_of p j"
  by (cases "store p j") (simp_all add: net_of_def notify_one_def)

lemma rotate_target_member: "rotate_target i p = Inr j \<Longrightarrow> j \<in> set (members p)"
  by (auto simp: rotate_target_def result_simps dest: find_SomeD
      split: if_splits option.splits list.splits)

lemma rotate_target_none: "rotate_target i p = Inl e \<longleftrightarrow>
    e = Config (lit ''no such account'') \<and> (if i = 0 then members p = [] else i \<notin> set (members p))"
  by (auto simp: rotate_target_def result_simps find_None_iff find_Some_iff
      split: option.splits list.splits)

text \<open>The scan visits every member exactly once, whatever the start.\<close>

lemma scan_index:
  assumes "unat start + off < 2 ^ 64"
  shows "unat (start + of_nat off :: u64) = unat start + off"
  using assms by (simp add: unat_word_ariths unsigned_of_nat take_bit_eq_mod)

lemma rotation_covers:
  assumes "m < (N :: nat)"
  obtains off where "off < N" and "(s + off) mod N = m"
proof (rule that [of "(m + N - s mod N) mod N"])
  show "(m + N - s mod N) mod N < N"
    using assms by simp
  have "s mod N < N" using assms by simp
  then have "s mod N + (m + N - s mod N) = m + N" by simp
  then have "(s mod N + (m + N - s mod N)) mod N = m"
    using assms by (simp only:) simp
  then show "(s + (m + N - s mod N) mod N) mod N = m"
    by (simp add: mod_simps)
qed

lemma pick_rr_start: "pick p = (r, p') \<Longrightarrow> p' = p \<or> p' = p\<lparr>rr := rr p + 1\<rparr>"
  by (auto simp: pick_def Let_def split: if_splits option.splits)

lemma unpinned_scan:
  assumes "members p \<noteq> []" and "unat (rr p) + length (members p) < 2 ^ 64"
    and "find_map (scan p (rr p)) [0..<length (members p)] = None"
  shows "\<forall>i \<in> set (members p). net_of p i = None"
proof
  fix i
  assume "i \<in> set (members p)"
  then obtain m where m: "m < length (members p)" "members p ! m = i"
    by (auto simp: in_set_conv_nth)
  obtain off where off: "off < length (members p)" "(unat (rr p) + off) mod length (members p) = m"
    by (rule rotation_covers [OF m(1)])
  moreover have "unat (rr p + of_nat off) = unat (rr p) + off"
    using assms(2) off(1) by (intro scan_index) simp
  ultimately have "scan p (rr p) off = net_of p i"
    by (simp add: scan_def m(2))
  with assms(3) off(1) show "net_of p i = None"
    by (auto simp: find_map_None_iff)
qed

text \<open>The netstack of the pinned account, as \<open>pick\<close> looks it up.\<close>

definition pinned_net :: "'n pool \<Rightarrow> 'n option" where
  "pinned_net p = (if pinned p \<noteq> 0
     then Option.bind (find (\<lambda>i. i = pinned p) (members p)) (net_of p) else None)"

lemma pinned_net_some: "pinned_net p = Some net \<Longrightarrow> \<exists>i \<in> set (members p). net_of p i = Some net"
  by (auto simp: pinned_net_def split: if_splits bind_splits dest: find_SomeD)

lemma pinned_net_up:
  assumes "pinned p \<noteq> 0" and "pinned p \<in> set (members p)"
  shows "pinned_net p = net_of p (pinned p)"
proof -
  have "find (\<lambda>i. i = pinned p) (members p) = Some (pinned p)"
    using assms(2) find_None_iff [of "\<lambda>i. i = pinned p" "members p"] find_SomeD [of _ "members p"]
    by (cases "find (\<lambda>i. i = pinned p) (members p)") auto
  then show ?thesis using assms(1) by (simp add: pinned_net_def)
qed

text \<open>Whatever is picked is the netstack of a member, the pinned one's if that is up.\<close>

lemma pick_is_member:
  assumes "fst (pick p) = Some net"
  shows "(\<exists>i \<in> set (members p). net_of p i = Some net) \<and> (pinned_net p \<noteq> None \<longrightarrow> pinned_net p = Some net)"
proof -
  from assms consider "pinned_net p = Some net"
    | "pinned_net p = None" "members p \<noteq> []" "find_map (scan p (rr p)) [0..<length (members p)] = Some net"
    by (auto simp: pick_def pinned_net_def Let_def split: if_splits option.splits)
  then show ?thesis
  proof cases
    case 1
    then show ?thesis using pinned_net_some by simp
  next
    case 2
    then show ?thesis
      using find_map_SomeD [OF 2(3)] by (auto simp: scan_def intro!: bexI nth_mem)
  qed
qed

section \<open>Properties\<close>

text \<open>
  C19. \<open>pick\<close> is sound and complete: it never gives a netstack but that of a member that is up; a pinned
  member that is up is always the one picked; and (short of \<open>2\<^sup>6\<^sup>4\<close> picks) it gives nothing only when
  no member is up. It changes nothing but the round-robin counter.
\<close>

theorem pick_sound_complete:
  assumes "pick p = (r, p')" and "unat (rr p) + length (members p) < 2 ^ 64"
  shows "(\<forall>net. r = Some net \<longrightarrow> (\<exists>i \<in> set (members p). net_of p i = Some net))
    \<and> (pinned p \<noteq> 0 \<and> pinned p \<in> set (members p) \<and> net_of p (pinned p) \<noteq> None
         \<longrightarrow> r = net_of p (pinned p))
    \<and> (r = None \<longleftrightarrow> (\<forall>i \<in> set (members p). net_of p i = None))
    \<and> p' = p\<lparr>rr := rr p'\<rparr>"
proof (cases "members p = []")
  case True
  with assms show ?thesis by (auto simp: pick_def)
next
  case False
  have pick_eq: "pick p = (case pinned_net p of Some net \<Rightarrow> (Some net, p)
      | None \<Rightarrow> (find_map (scan p (rr p)) [0..<length (members p)], p\<lparr>rr := rr p + 1\<rparr>))"
    using False by (simp add: pick_def pinned_net_def Let_def split: option.split)
  have scan_some: "\<exists>i \<in> set (members p). net_of p i = Some net"
    if "find_map (scan p (rr p)) [0..<length (members p)] = Some net" for net
    using find_map_SomeD [OF that] False by (auto simp: scan_def intro!: bexI nth_mem)
  show ?thesis
  proof (cases "pinned_net p")
    case (Some net)
    then have "r = Some net" "p' = p"
      using assms(1) by (simp_all add: pick_eq)
    with Some pinned_net_some [of p] pinned_net_up [of p] show ?thesis by auto
  next
    case None
    then have r: "r = find_map (scan p (rr p)) [0..<length (members p)]" "p' = p\<lparr>rr := rr p + 1\<rparr>"
      using assms(1) by (simp_all add: pick_eq)
    have "r = None \<longleftrightarrow> (\<forall>i \<in> set (members p). net_of p i = None)"
      using unpinned_scan [OF False assms(2)] r(1) False
      by (auto simp: find_map_None_iff scan_def)
    then show ?thesis
      using r scan_some None pinned_net_up [of p] by auto
  qed
qed

text \<open>The netstacks of \<open>n\<close> successive picks.\<close>

fun picks :: "nat \<Rightarrow> 'n pool \<Rightarrow> 'n option list" where
  "picks 0 p = []"
| "picks (Suc n) p = (case pick p of (r, p') \<Rightarrow> r # picks n p')"

lemma pick_all_up:
  assumes "pinned p = 0" and "members p \<noteq> []" and "\<forall>i \<in> set (members p). net_of p i \<noteq> None"
  shows "pick p = (net_of p (members p ! (unat (rr p) mod length (members p))), p\<lparr>rr := rr p + 1\<rparr>)"
proof -
  have "scan p (rr p) 0 = net_of p (members p ! (unat (rr p) mod length (members p)))"
    by (simp add: scan_def)
  moreover have "\<dots> \<noteq> None"
    using assms(2,3) by simp
  ultimately show ?thesis
    using assms(1,2) by (cases "length (members p)") (auto simp: pick_def upt_conv_Cons simp del: upt_Suc)
qed

text \<open>
  C23. The load-balancer is fair: with nothing pinned and all members up, the next picks go through the
  members in order, one after the other, starting where the counter stands, so any \<open>N\<close> successive
  connections over \<open>N\<close> members use every member exactly once.
\<close>

theorem pick_round_robin:
  assumes "pinned p = 0" and "members p \<noteq> []" and "\<forall>i \<in> set (members p). net_of p i \<noteq> None"
    and "unat (rr p) + n < 2 ^ 64"
  shows "picks n p
    = map (\<lambda>k. net_of p (members p ! ((unat (rr p) + k) mod length (members p)))) [0..<n]"
  using assms
proof (induction n arbitrary: p)
  case (Suc n)
  let ?q = "p\<lparr>rr := rr p + 1\<rparr>"
  have rr: "unat (rr ?q) = unat (rr p) + 1"
    using Suc.prems(4) scan_index [of "rr p" 1] by simp
  have net: "net_of ?q i = net_of p i" for i
    by (simp add: net_of_def)
  have "picks n ?q = map (\<lambda>k. net_of p (members p ! ((unat (rr p) + Suc k) mod length (members p)))) [0..<n]"
    using Suc.IH [of ?q] Suc.prems rr by (simp add: net del: of_nat_Suc)
  moreover have "picks (Suc n) p = net_of p (members p ! (unat (rr p) mod length (members p))) # picks n ?q"
    by (simp add: pick_all_up [OF Suc.prems(1-3)])
  moreover have "[0..<Suc n] = 0 # map Suc [0..<n]"
    by (simp add: upt_conv_Cons map_Suc_upt del: upt_Suc)
  ultimately show ?case
    by (simp add: o_def del: upt_Suc)
qed simp

text \<open>A pool of three workers, the second one down.\<close>

definition toy_worker :: "nat option \<Rightarrow> nat worker" where
  "toy_worker net = \<lparr>w_permit = False, w_config = sample_config, w_net = net, w_tunnel = None,
     w_dead = None, w_v4 = Ipv4 0 0 0 0, w_trace = None\<rparr>"

definition toy_pool :: "nat option \<Rightarrow> nat \<Rightarrow> nat pool" where
  "toy_pool second pin = \<lparr>store = [1 \<mapsto> toy_worker (Some 11), 2 \<mapsto> toy_worker second,
       3 \<mapsto> toy_worker (Some 33)],
     members = [1, 2, 3], enabled = True, pinned = pin, http2 = False, rr = 1, next_id = 4,
     rotate_secs = 0, device_name = []\<rparr>"

lemma toy_net_of: "net_of (toy_pool second pin) 1 = Some 11" "net_of (toy_pool second pin) 2 = second"
  "net_of (toy_pool second pin) 3 = Some 33"
  by (simp_all add: net_of_def toy_pool_def toy_worker_def)

theorem pick_sound_complete_witness: "fst (pick (toy_pool None 3)) = Some 33"
proof -
  obtain r p' where r: "pick (toy_pool None 3) = (r, p')" by (cases "pick (toy_pool None 3)")
  have "pinned (toy_pool None 3) = 3" "members (toy_pool None 3) = [1, 2, 3]" "rr (toy_pool None 3) = 1"
    by (simp_all add: toy_pool_def)
  then show ?thesis
    using pick_sound_complete [OF r] by (simp add: r toy_net_of)
qed

theorem pick_round_robin_witness:
  "picks 4 (toy_pool (Some 22) 0) = [Some 22, Some 33, Some 11, Some 22]"
proof -
  have "pinned (toy_pool (Some 22) 0) = 0" "members (toy_pool (Some 22) 0) = [1, 2, 3]"
    "rr (toy_pool (Some 22) 0) = 1"
    by (simp_all add: toy_pool_def)
  then show ?thesis
    using pick_round_robin [of "toy_pool (Some 22) 0" 4]
    by (simp add: toy_net_of [simplified] toy_net_of(1) [of "Some 22" 0, simplified] upt_rec
        del: picks.simps)
qed

end
