(* ===== verification/Supervisor.thy ===== *)
theory Supervisor
  imports Pool
begin

text \<open>
  The concurrency of \<open>crates/warp-masque/src/pool.rs\<close>: every worker's supervisor task, the initial
  builds of \<open>Pool::new\<close> and \<open>add_account\<close>, the death of transports and the control calls, as a step
  relation over the pool and the position of each supervisor. A step is what runs between two
  suspension points, so every interleaving of the tasks is a sequence of steps. The relation allows
  more interleavings than \<open>Pool::new\<close> (whose workers are built one after the other). The pool is never
  dropped while the daemon runs, so the \<open>weak.upgrade()\<close> of the tasks succeeds.
\<close>

section \<open>Supervisors\<close>

type_synonym inputs = "warp_config \<times> transport"

text \<open>
  Where a worker's task is: before its supervisor exists (\<open>Initial\<close>; the flag says that the failure is
  tolerated, as in \<open>Pool::new\<close>), at the head of the loop, in the \<open>select!\<close> on the live tunnel,
  connecting with the inputs taken at the start, or in the \<open>select!\<close> on the backoff.
\<close>

datatype phase =
    No_Supervisor
  | Initial bool inputs
  | Loop_Top
  | Waiting
  | Building nat inputs
  | Sleeping nat

record 'n system =
  pl :: "'n pool"
  phase_of :: "nat \<Rightarrow> phase"

definition init_system :: "bool \<Rightarrow> 'n system" where
  "init_system use_http2 = \<lparr>pl = pool_init use_http2, phase_of = (\<lambda>_. No_Supervisor)\<rparr>"

definition set_phase :: "nat \<Rightarrow> phase \<Rightarrow> 'n system \<Rightarrow> 'n system" where
  "set_phase i ph s = s\<lparr>phase_of := (phase_of s)(i := ph)\<rparr>"

definition upd_worker :: "nat \<Rightarrow> ('n worker \<Rightarrow> 'n worker) \<Rightarrow> 'n system \<Rightarrow> 'n system" where
  "upd_worker i f s = s\<lparr>pl := on_worker i f (pl s)\<rparr>"

definition next_backoff :: "nat \<Rightarrow> nat" where
  "next_backoff b = min (b * 2) MAX_BACKOFF"

definition consume_permit :: "'n worker \<Rightarrow> 'n worker" where
  "consume_permit w = w\<lparr>w_permit := False\<rparr>"

definition transport_dies :: "'n worker \<Rightarrow> 'n worker" where
  "transport_dies w = w\<lparr>w_dead := map_option (\<lambda>_. True) (w_dead w)\<rparr>"

text \<open>The control calls, each up to its first or from its last suspension point.\<close>

datatype 'n control =
    Set_Enabled bool
  | Select nat
  | Pick
  | Reconnect nat
  | Rotate_Commit nat warp_config
  | Set_Http2 bool
  | Set_Interval nat
  | Reserve_Id
  | Remove nat
  | Store_Trace nat trace_info

fun apply_control :: "'n control \<Rightarrow> 'n pool \<Rightarrow> 'n pool" where
  "apply_control (Set_Enabled on) p = set_enabled on p"
| "apply_control (Select i) p = select i p"
| "apply_control Pick p = snd (pick p)"
| "apply_control (Reconnect i) p = reconnect i p"
| "apply_control (Rotate_Commit i cfg) p = rotate_commit i cfg p"
| "apply_control (Set_Http2 on) p = set_http2 on p"
| "apply_control (Set_Interval secs) p = set_rotate_interval secs p"
| "apply_control Reserve_Id p = snd (reserve_id p)"
| "apply_control (Remove i) p = snd (remove_account i p)"
| "apply_control (Store_Trace i t) p = on_worker i (set_trace t) p"

text \<open>What the supervisor of worker \<open>i\<close> does, and the death of its transport.\<close>

inductive worker_step :: "nat \<Rightarrow> 'n system \<Rightarrow> 'n system \<Rightarrow> bool" where
  top_up: "phase_of s i = Loop_Top \<Longrightarrow> store (pl s) i = Some w \<Longrightarrow> w_dead w \<noteq> None \<Longrightarrow>
    worker_step i s (set_phase i Waiting s)"
| top_down: "phase_of s i = Loop_Top \<Longrightarrow> store (pl s) i = Some w \<Longrightarrow> w_dead w = None \<Longrightarrow>
    build_inputs (pl s) i = Some inp \<Longrightarrow> worker_step i s (set_phase i (Building 1 inp) s)"
| wake_dead: "phase_of s i = Waiting \<Longrightarrow> store (pl s) i = Some w \<Longrightarrow> w_dead w = Some True \<Longrightarrow>
    build_inputs (pl s) i = Some inp \<Longrightarrow>
    worker_step i s (set_phase i (Building 1 inp) (upd_worker i clear_net s))"
| wake_poked: "phase_of s i = Waiting \<Longrightarrow> store (pl s) i = Some w \<Longrightarrow> w_permit w \<Longrightarrow>
    build_inputs (pl s) i = Some inp \<Longrightarrow>
    worker_step i s (set_phase i (Building 1 inp) (upd_worker i (clear_net \<circ> consume_permit) s))"
| build_ok: "phase_of s i = Building b inp \<Longrightarrow>
    worker_step i s (set_phase i Loop_Top (upd_worker i (install_tunnel inp t net) s))"
| build_err: "phase_of s i = Building b inp \<Longrightarrow> worker_step i s (set_phase i (Sleeping b) s)"
| sleep_done: "phase_of s i = Sleeping b \<Longrightarrow> build_inputs (pl s) i = Some inp \<Longrightarrow>
    worker_step i s (set_phase i (Building (next_backoff b) inp) s)"
| sleep_poked: "phase_of s i = Sleeping b \<Longrightarrow> store (pl s) i = Some w \<Longrightarrow> w_permit w \<Longrightarrow>
    build_inputs (pl s) i = Some inp \<Longrightarrow>
    worker_step i s (set_phase i (Building (next_backoff b) inp) (upd_worker i consume_permit s))"
| dies: "worker_step i s (upd_worker i transport_dies s)"

text \<open>Every step: the control calls, new workers, their first connections, and the supervisors.\<close>

inductive step :: "'n system \<Rightarrow> 'n system \<Rightarrow> bool" where
  control: "step s (s\<lparr>pl := apply_control c (pl s)\<rparr>)"
| push: "0 < i \<Longrightarrow> i < next_id (pl s) \<Longrightarrow> store (pl s) i = None \<Longrightarrow>
    step s (set_phase i (Initial tolerant (cfg, transport_of (pl s)))
      (s\<lparr>pl := push_worker i cfg (pl s)\<rparr>))"
| initial_ok: "phase_of s i = Initial tolerant inp \<Longrightarrow>
    step s (set_phase i Loop_Top (upd_worker i (install_tunnel inp t net) s))"
| initial_err: "phase_of s i = Initial tolerant inp \<Longrightarrow>
    step s (set_phase i (if tolerant then Loop_Top else No_Supervisor) s)"
| worker: "worker_step i s s' \<Longrightarrow> step s s'"

abbreviation steps :: "'n system \<Rightarrow> 'n system \<Rightarrow> bool" where
  "steps \<equiv> step\<^sup>*\<^sup>*"

inductive_cases stepE: "step s s'"
inductive_cases worker_stepE: "worker_step i s s'"

section \<open>Invariant\<close>

text \<open>
  \<open>current p i\<close> are the inputs a build starting now would take. A member's live tunnel, and a build in
  progress, are current or the worker has been poked.
\<close>

definition worker_ok :: "phase \<Rightarrow> 'n worker \<Rightarrow> bool" where
  "worker_ok ph w \<longleftrightarrow> (w_net w = None \<longleftrightarrow> w_dead w = None)
     \<and> (case ph of
          Building b inp \<Rightarrow> w_net w = None
        | Initial t inp \<Rightarrow> w_net w = None
        | Sleeping b \<Rightarrow> w_net w = None
        | Waiting \<Rightarrow> w_net w \<noteq> None
        | _ \<Rightarrow> True)"

definition fresh :: "'n pool \<Rightarrow> phase \<Rightarrow> 'n worker \<Rightarrow> bool" where
  "fresh p ph w \<longleftrightarrow> w_permit w
     \<or> (w_net w \<noteq> None \<longrightarrow> w_tunnel w = Some (w_config w, transport_of p))
       \<and> (case ph of
            Building b inp \<Rightarrow> inp = (w_config w, transport_of p)
          | Initial t inp \<Rightarrow> inp = (w_config w, transport_of p)
          | _ \<Rightarrow> True)"

definition system_inv :: "'n system \<Rightarrow> bool" where
  "system_inv s \<longleftrightarrow> distinct (members (pl s)) \<and> set (members (pl s)) \<subseteq> dom (store (pl s))
     \<and> 0 < next_id (pl s)
     \<and> (\<forall>i w. store (pl s) i = Some w \<longrightarrow> 0 < i \<and> i < next_id (pl s) \<and> worker_ok (phase_of s i) w
          \<and> (i \<in> set (members (pl s)) \<longrightarrow> fresh (pl s) (phase_of s i) w))
     \<and> (\<forall>i. store (pl s) i = None \<longrightarrow> phase_of s i = No_Supervisor)"

lemma system_invD:
  assumes "system_inv s" and "store (pl s) i = Some w"
  shows "0 < i" "i < next_id (pl s)" "worker_ok (phase_of s i) w"
    and "i \<in> set (members (pl s)) \<Longrightarrow> fresh (pl s) (phase_of s i) w"
  using assms by (auto simp: system_inv_def)

lemma phase_stored:
  assumes "system_inv s" and "phase_of s i \<noteq> No_Supervisor"
  obtains w where "store (pl s) i = Some w"
  using assms by (cases "store (pl s) i") (auto simp: system_inv_def)

lemma transport_of_upd [simp]: "transport_of (on_worker i f p) = transport_of p"
  by (simp add: transport_of_def)

lemma fresh_upd [simp]: "fresh (on_worker i f p) = fresh p"
  by (intro ext) (simp add: fresh_def split: phase.split)

text \<open>Changing one worker and its supervisor keeps the invariant if it does so for that worker.\<close>

lemma system_inv_upd:
  assumes "system_inv s" and "store (pl s) i = Some w" and "worker_ok ph (f w)"
    and "fresh (pl s) (phase_of s i) w \<Longrightarrow> fresh (pl s) ph (f w)"
  shows "system_inv (set_phase i ph (upd_worker i f s))"
  using assms by (auto simp: system_inv_def set_phase_def upd_worker_def)

lemma set_phase_upd: "set_phase i ph s = set_phase i ph (upd_worker i id s)"
  by (simp add: set_phase_def upd_worker_def on_worker_def option.map_id0)

lemma upd_worker_phase: "upd_worker i f s = set_phase i (phase_of s i) (upd_worker i f s)"
  by (simp add: set_phase_def upd_worker_def)

lemma build_inputs_Some:
  "build_inputs p i = Some inp \<longleftrightarrow> (\<exists>w. store p i = Some w \<and> inp = (w_config w, transport_of p))"
  by (auto simp: build_inputs_def)

lemmas worker_ops = install_tunnel_def clear_net_def consume_permit_def transport_dies_def
  notify_one_def set_trace_def worker_new_def

lemmas worker_invs = worker_ok_def fresh_def

text \<open>The control calls.\<close>

lemma control_worker:
  assumes "store p i = Some w" and "store (apply_control c p) i = Some w'"
  shows "w_net w' = w_net w \<and> w_dead w' = w_dead w \<and> w_tunnel w' = w_tunnel w
    \<and> (w_permit w \<longrightarrow> w_permit w')
    \<and> (i \<in> set (members p) \<longrightarrow> w_permit w'
        \<or> w_config w' = w_config w \<and> transport_of (apply_control c p) = transport_of p)"
proof (cases c)
  case Pick
  have "store (snd (pick p)) = store p" "http2 (snd (pick p)) = http2 p"
    using pick_rr_start [of p "fst (pick p)" "snd (pick p)"] by auto
  with assms Pick show ?thesis by (simp add: transport_of_def)
qed (use assms in \<open>auto simp: set_enabled_def select_def rotate_commit_def set_http2_def
    set_rotate_interval_def reserve_id_def remove_account_def notify_one_def set_trace_def
    transport_of_def Let_def split: if_splits\<close>)

lemma control_shape:
  "dom (store (apply_control c p)) = dom (store p)"
  "set (members (apply_control c p)) \<subseteq> set (members p)"
  "distinct (members p) \<Longrightarrow> distinct (members (apply_control c p))"
  "next_id p \<le> next_id (apply_control c p)"
proof -
  have pick: "store (snd (pick p)) = store p" "members (snd (pick p)) = members p"
    "next_id (snd (pick p)) = next_id p"
    using pick_rr_start [of p "fst (pick p)" "snd (pick p)"] by auto
  have poke: "dom (store (reconnect i q)) = dom (store q)" for i and q :: "'a pool"
    by (auto simp: dom_def)
  show "dom (store (apply_control c p)) = dom (store p)"
    "set (members (apply_control c p)) \<subseteq> set (members p)"
    "distinct (members p) \<Longrightarrow> distinct (members (apply_control c p))"
    "next_id p \<le> next_id (apply_control c p)"
    by (cases c; auto simp: pick poke set_enabled_def select_def rotate_commit_def set_http2_def
        set_rotate_interval_def reserve_id_def remove_account_def Let_def)+
qed

lemma control_inv:
  assumes "system_inv s"
  shows "system_inv (s\<lparr>pl := apply_control c (pl s)\<rparr>)"
proof -
  let ?p = "apply_control c (pl s)"
  have old: "\<exists>w. store (pl s) i = Some w" if "store ?p i = Some w'" for i w'
    using that control_shape(1) [of c "pl s"] by (auto simp: dom_def)
  have "0 < i \<and> i < next_id ?p \<and> worker_ok (phase_of s i) w'
      \<and> (i \<in> set (members ?p) \<longrightarrow> fresh ?p (phase_of s i) w')"
    if w': "store ?p i = Some w'" for i w'
  proof -
    obtain w where w: "store (pl s) i = Some w"
      using old [OF w'] ..
    note same = control_worker [OF w w'] and inv = system_invD [OF assms w]
    have "worker_ok (phase_of s i) w'"
      using same inv(3) by (auto simp: worker_ok_def split: phase.splits)
    moreover have "fresh ?p (phase_of s i) w'" if "i \<in> set (members ?p)"
    proof -
      have "i \<in> set (members (pl s))" using that control_shape(2) by blast
      with same inv(4) show ?thesis by (auto simp: fresh_def split: phase.splits)
    qed
    ultimately show ?thesis
      using inv(1,2) control_shape(4) [where p = "pl s" and c = c] by auto
  qed
  moreover have "store ?p i = None \<longleftrightarrow> store (pl s) i = None" for i
    using control_shape(1) [of c "pl s"] domIff by metis
  ultimately show ?thesis
    using assms control_shape [where p = "pl s" and c = c]
    unfolding system_inv_def by auto
qed

lemma push_inv:
  assumes "system_inv s" and "0 < i" and "i < next_id (pl s)" and "store (pl s) i = None"
  shows "system_inv (set_phase i (Initial tolerant (cfg, transport_of (pl s)))
      (s\<lparr>pl := push_worker i cfg (pl s)\<rparr>))"
proof -
  have t: "transport_of (push_worker i cfg (pl s)) = transport_of (pl s)"
    by (simp add: transport_of_def push_worker_def)
  have "i \<notin> set (members (pl s))"
    using assms(1,4) by (auto simp: system_inv_def)
  moreover have "fresh (push_worker i cfg (pl s)) = fresh (pl s)"
    by (intro ext) (simp add: fresh_def t split: phase.split)
  moreover have "worker_ok (Initial tolerant (cfg, transport_of (pl s))) (worker_new cfg)"
    "fresh (pl s) (Initial tolerant (cfg, transport_of (pl s))) (worker_new cfg)"
    by (simp_all add: worker_ok_def fresh_def worker_new_def)
  ultimately show ?thesis
    using assms unfolding system_inv_def
    by (auto simp: set_phase_def push_worker_def t)
qed

text \<open>
  A supervisor step moves one supervisor and changes its own worker; it keeps the invariant if it does
  so for that worker.
\<close>

lemma supervisor_inv:
  assumes "system_inv s" and "phase_of s i \<noteq> No_Supervisor"
    and "\<And>w. store (pl s) i = Some w \<Longrightarrow> worker_ok (phase_of s i) w \<Longrightarrow> worker_ok ph (f w)"
    and "\<And>w. store (pl s) i = Some w \<Longrightarrow> worker_ok (phase_of s i) w
      \<Longrightarrow> fresh (pl s) (phase_of s i) w \<Longrightarrow> fresh (pl s) ph (f w)"
  shows "system_inv (set_phase i ph (upd_worker i f s))"
proof -
  obtain w where w: "store (pl s) i = Some w"
    using assms(1,2) by (rule phase_stored)
  show ?thesis
    by (rule system_inv_upd [OF assms(1) w]) (use assms(3,4) w system_invD(3) [OF assms(1) w] in auto)
qed

lemmas supervisor_inv_phase = supervisor_inv [where f = id, folded set_phase_upd, unfolded id_apply]

lemma dies_inv:
  assumes "system_inv s"
  shows "system_inv (upd_worker i transport_dies s)"
proof (cases "store (pl s) i")
  case None
  then have "upd_worker i transport_dies s = s"
    by (simp add: upd_worker_def on_worker_def fun_upd_idem)
  with assms show ?thesis by simp
next
  case (Some w)
  note inv = system_invD [OF assms Some]
  show ?thesis
    using inv(3)
    by (subst upd_worker_phase) (rule system_inv_upd [OF assms Some],
        auto simp: worker_invs transport_dies_def split: phase.splits)
qed

text \<open>Each step keeps the invariant.\<close>

lemma worker_step_inv:
  assumes "worker_step i s s'" and "system_inv s"
  shows "system_inv s'"
  using assms
proof (induction rule: worker_step.induct)
  case (dies i s)
  then show ?case by (intro dies_inv)
qed (erule supervisor_inv supervisor_inv_phase;
    auto simp: worker_invs worker_ops build_inputs_Some split: if_splits)+

lemma step_inv:
  assumes "step s s'" and "system_inv s"
  shows "system_inv s'"
  using assms
proof (induction rule: step.induct)
  case (control s c)
  then show ?case by (rule control_inv)
next
  case (push i s tolerant cfg)
  then show ?case by (intro push_inv)
next
  case (worker i s s')
  then show ?case by (rule worker_step_inv)
qed (erule supervisor_inv supervisor_inv_phase;
    auto simp: worker_invs worker_ops build_inputs_Some split: if_splits)+

lemma init_inv: "system_inv (init_system b)"
  by (simp add: system_inv_def init_system_def pool_init_def)

lemma reachable_inv:
  assumes "steps (init_system b) s"
  shows "system_inv s"
  using assms by (induction rule: rtranclp_induct) (auto simp: init_inv step_inv)

section \<open>Properties\<close>

text \<open>
  C1. No stale tunnel is forgotten: in every reachable state, whatever rotations, transport switches,
  reconnects, failures and deaths interleave, if a pooled account's live tunnel was connected with a
  configuration or a transport other than the current one, a rebuild of that account is pending; and
  ids are unique, below the next id to hand out, and every pooled account has a worker.
\<close>

theorem stale_tunnel_is_pending:
  assumes "steps (init_system b) s" and "i \<in> set (members (pl s))"
  shows "\<exists>w. store (pl s) i = Some w \<and> 0 < i \<and> i < next_id (pl s) \<and> distinct (members (pl s))
    \<and> (w_net w \<noteq> None \<and> w_tunnel w \<noteq> build_inputs (pl s) i \<longrightarrow> w_permit w)
    \<and> (\<forall>k inp. phase_of s i = Building k inp \<and> build_inputs (pl s) i \<noteq> Some inp \<longrightarrow> w_permit w)"
proof -
  have inv: "system_inv s" by (rule reachable_inv [OF assms(1)])
  with assms(2) obtain w where w: "store (pl s) i = Some w"
    by (auto simp: system_inv_def)
  have "fresh (pl s) (phase_of s i) w" "0 < i" "i < next_id (pl s)" "distinct (members (pl s))"
    using system_invD [OF inv w] assms(2) inv by (simp_all add: system_inv_def)
  with w show ?thesis
    by (cases "phase_of s i") (auto simp: fresh_def build_inputs_def)
qed

text \<open>
  C18. And it is replaced: from any reachable state in which a supervised account holds such a stale
  tunnel, its supervisor can act at once, drops the tunnel's netstack and starts a connection with the
  current configuration and transport.
\<close>

theorem stale_tunnel_is_replaced:
  assumes "steps (init_system b) s" and "i \<in> set (members (pl s))" and "phase_of s i \<noteq> No_Supervisor"
    and "store (pl s) i = Some w" and "w_net w \<noteq> None" and "w_tunnel w \<noteq> build_inputs (pl s) i"
  shows "\<exists>s' inp. steps s s' \<and> net_of (pl s') i = None \<and> build_inputs (pl s') i = Some inp
    \<and> phase_of s' i = Building 1 inp"
proof -
  have inv: "system_inv s" by (rule reachable_inv [OF assms(1)])
  note ok = system_invD [OF inv assms(4)]
  have permit: "w_permit w"
    using ok(4) [OF assms(2)] assms(4-6) by (auto simp: fresh_def build_inputs_def)
  have dead: "w_dead w \<noteq> None"
    using ok(3) assms(5) by (simp add: worker_ok_def)
  obtain inp where inp: "build_inputs (pl s) i = Some inp"
    using assms(4) by (simp add: build_inputs_def)
  define t where "t = set_phase i Waiting s"
  have "steps s t"
    using ok(3) assms(3-5) dead step.worker [OF worker_step.top_up [of s i w]]
    by (cases "phase_of s i") (auto simp: worker_ok_def t_def set_phase_def fun_upd_idem)
  moreover have "step t (set_phase i (Building 1 inp) (upd_worker i (clear_net \<circ> consume_permit) t))"
    by (rule step.worker, rule worker_step.wake_poked [of t i w]) (simp_all add: t_def set_phase_def assms(4) permit inp)
  ultimately have "steps s (set_phase i (Building 1 inp) (upd_worker i (clear_net \<circ> consume_permit) t))"
    by (rule rtranclp.rtrancl_into_rtrancl)
  then show ?thesis
    using assms(4) inp
    by (intro exI [of _ "set_phase i (Building 1 inp) (upd_worker i (clear_net \<circ> consume_permit) t)"]
        exI [of _ inp] conjI)
      (auto simp: t_def set_phase_def upd_worker_def net_of_def clear_net_def consume_permit_def
        build_inputs_Some)
qed

text \<open>A run that ends in a stale tunnel: an account comes up over HTTP/3, then HTTP/2 is selected.\<close>

definition toy_tunnel :: tunnel where
  "toy_tunnel = \<lparr>tun_io = H3 0, tun_status = 200, tun_assigned_v4 = Ipv4 172 16 0 2,
     tun_assigned_v6 = None, tun_dead = False, tun_keep = []\<rparr>"

definition toy_pushed :: "bool \<Rightarrow> nat system" where
  "toy_pushed tolerant = set_phase 1 (Initial tolerant (sample_config, Http3))
     (init_system False\<lparr>pl := push_worker 1 sample_config (pool_init False\<lparr>next_id := 2\<rparr>)\<rparr>)"

definition toy_up :: "nat system" where
  "toy_up = set_phase 1 Loop_Top
     (upd_worker 1 (install_tunnel (sample_config, Http3) toy_tunnel 7) (toy_pushed False))"

lemma toy_pushed_reachable: "steps (init_system False) (toy_pushed tolerant)"
proof -
  let ?s1 = "init_system False\<lparr>pl := apply_control Reserve_Id (pl (init_system False))\<rparr> :: nat system"
  have "step (init_system False) ?s1" by (rule step.control)
  moreover have "step ?s1 (set_phase 1 (Initial tolerant (sample_config, transport_of (pl ?s1)))
      (?s1\<lparr>pl := push_worker 1 sample_config (pl ?s1)\<rparr>))"
    by (rule step.push) (simp_all add: init_system_def pool_init_def reserve_id_def)
  moreover have "set_phase 1 (Initial tolerant (sample_config, transport_of (pl ?s1)))
      (?s1\<lparr>pl := push_worker 1 sample_config (pl ?s1)\<rparr>) = (toy_pushed tolerant)"
    by (simp add: toy_pushed_def init_system_def pool_init_def reserve_id_def transport_of_def
        numeral_2_eq_2)
  ultimately show ?thesis
    by (metis converse_rtranclp_into_rtranclp rtranclp.rtrancl_refl)
qed

lemma toy_stale_reachable:
  "steps (init_system False) (toy_up\<lparr>pl := apply_control (Set_Http2 True) (pl toy_up)\<rparr>)"
proof -
  have "step (toy_pushed False) toy_up"
    unfolding toy_up_def
    by (rule step.initial_ok [of _ _ False]) (simp add: toy_pushed_def set_phase_def)
  with toy_pushed_reachable have "steps (init_system False) toy_up"
    by (rule rtranclp.rtrancl_into_rtrancl)
  then show ?thesis
    by (rule rtranclp.rtrancl_into_rtrancl) (rule step.control)
qed

lemma toy_stale:
  fixes s :: "nat system"
  defines "s \<equiv> toy_up\<lparr>pl := apply_control (Set_Http2 True) (pl toy_up)\<rparr>"
  shows "members (pl s) = [1]" "phase_of s 1 = Loop_Top"
    "\<exists>w. store (pl s) 1 = Some w \<and> w_net w = Some 7 \<and> w_tunnel w = Some (sample_config, Http3)
      \<and> build_inputs (pl s) 1 = Some (sample_config, Http2)"
  by (simp_all add: s_def toy_up_def toy_pushed_def init_system_def pool_init_def push_worker_def
      set_phase_def upd_worker_def set_http2_def build_inputs_def transport_of_def install_tunnel_def
      worker_new_def notify_one_def)

theorem stale_tunnel_is_pending_witness:
  "\<exists>w. store (apply_control (Set_Http2 True) (pl toy_up)) 1 = Some w \<and> w_permit w"
  using stale_tunnel_is_pending [OF toy_stale_reachable, of 1] toy_stale by auto

theorem stale_tunnel_is_replaced_witness:
  "\<exists>s'. steps (toy_up\<lparr>pl := apply_control (Set_Http2 True) (pl toy_up)\<rparr>) s' \<and> net_of (pl s') 1 = None"
proof -
  obtain w where w: "store (pl (toy_up\<lparr>pl := apply_control (Set_Http2 True) (pl toy_up)\<rparr>)) 1 = Some w"
    "w_net w = Some 7" "w_tunnel w = Some (sample_config, Http3)"
    "build_inputs (pl (toy_up\<lparr>pl := apply_control (Set_Http2 True) (pl toy_up)\<rparr>)) 1
      = Some (sample_config, Http2)"
    using toy_stale(3) by auto
  show ?thesis
    using stale_tunnel_is_replaced [OF toy_stale_reachable _ _ w(1)] toy_stale(1,2) w by auto
qed

text \<open>
  C33. A failed \<open>add_account\<close> leaves a dead account behind: if the first connection of a newly added
  account fails, the account stays in the pool without a supervisor, and whatever happens afterwards,
  reconnects, rotations and transport switches included, it never comes up.
\<close>

theorem failed_add_never_comes_up:
  assumes "phase_of s i = Initial False inp" and "system_inv s"
    and "steps (set_phase i No_Supervisor s) s'"
  shows "step s (set_phase i No_Supervisor s) \<and> i \<in> dom (store (pl s'))
    \<and> phase_of s' i = No_Supervisor \<and> net_of (pl s') i = None"
proof -
  have first: "step s (set_phase i No_Supervisor s)"
    using step.initial_err [of s i False inp] assms(1) by simp
  obtain w where w: "store (pl s) i = Some w"
    using phase_stored [OF assms(2), of i] assms(1) by auto
  then have net: "w_net w = None"
    using system_invD(3) [OF assms(2) w] assms(1) by (simp add: worker_ok_def)
  from assms(3) have "(\<exists>v. store (pl s') i = Some v \<and> w_net v = None) \<and> phase_of s' i = No_Supervisor"
  proof (induction rule: rtranclp_induct)
    case base
    with w net show ?case by (simp add: set_phase_def)
  next
    case (step t u)
    then obtain v where v: "store (pl t) i = Some v" "w_net v = None" "phase_of t i = No_Supervisor"
      by auto
    from step.hyps(2) show ?case
    proof cases
      case (control c)
      have "i \<in> dom (store (apply_control c (pl t)))"
        using v(1) by (simp add: control_shape(1) domI)
      then obtain v' where "store (apply_control c (pl t)) i = Some v'" by auto
      with control_worker [OF v(1) this] v control show ?thesis by simp
    next
      case (worker j)
      then show ?thesis
        by cases (use v in \<open>auto simp: set_phase_def upd_worker_def worker_ops\<close>)
    qed (use v in \<open>auto simp: set_phase_def upd_worker_def push_worker_def split: if_splits\<close>)
  qed
  with first show ?thesis by (auto simp: net_of_def)
qed

theorem failed_add_never_comes_up_witness:
  "net_of (pl (set_phase 1 No_Supervisor (toy_pushed False)\<lparr>pl := apply_control (Reconnect 0) (pl (toy_pushed False))\<rparr>)) 1
    = None"
proof -
  have p: "phase_of (toy_pushed False) 1 = Initial False (sample_config, Http3)"
    by (simp add: toy_pushed_def set_phase_def)
  have "step (set_phase 1 No_Supervisor (toy_pushed False)) (set_phase 1 No_Supervisor (toy_pushed False)
      \<lparr>pl := apply_control (Reconnect 0) (pl (set_phase 1 No_Supervisor (toy_pushed False)))\<rparr>)"
    by (rule step.control)
  then have "steps (set_phase 1 No_Supervisor (toy_pushed False))
      (set_phase 1 No_Supervisor (toy_pushed False)\<lparr>pl := apply_control (Reconnect 0) (pl (toy_pushed False))\<rparr>)"
    by (simp add: set_phase_def r_into_rtranclp)
  from failed_add_never_comes_up [OF p reachable_inv [OF toy_pushed_reachable] this]
  show ?thesis by simp
qed

lemma next_backoff_power: "next_backoff (min (2 ^ n) 30) = min (2 ^ Suc n) 30"
  by (simp add: next_backoff_def MAX_BACKOFF_def min_def)

text \<open>
  The retry delay doubles from one second up to thirty and never beyond: in every reachable state
  each supervisor's backoff is \<open>min (2\<^sup>n) 30\<close> for the number \<open>n\<close> of failures since the last
  tunnel, so it lies between 1 and 30 seconds.
\<close>

theorem backoff_bounded:
  assumes "steps (init_system b) s"
    and "phase_of s i = Sleeping k \<or> (\<exists>inp. phase_of s i = Building k inp)"
  shows "(\<exists>n. k = min (2 ^ n) 30) \<and> 1 \<le> k \<and> k \<le> 30"
proof -
  have "\<forall>k. phase_of s i = Sleeping k \<or> (\<exists>inp. phase_of s i = Building k inp)
      \<longrightarrow> (\<exists>n. k = min (2 ^ n) 30)"
    using assms(1)
  proof (induction rule: rtranclp_induct)
    case base
    show ?case by (simp add: init_system_def)
  next
    case (step t u)
    have one: "\<exists>n. (1::nat) = min (2 ^ n) 30"
      by (intro exI [of _ 0]) simp
    have doubled: "\<exists>m. next_backoff k = min (2 ^ m) 30" if "k = min (2 ^ n) 30" for k n
      using next_backoff_power [of n] that by blast
    from step.hyps(2) step.IH show ?case
      by cases (auto simp: set_phase_def upd_worker_def one [simplified] doubled elim!: worker_stepE
          split: if_splits)
  qed
  then obtain n where "k = min (2 ^ n) 30"
    using assms(2) by blast
  moreover have "(1::nat) \<le> 2 ^ n" by simp
  ultimately show ?thesis by auto
qed

theorem backoff_bounded_witness:
  "\<exists>s :: nat system. steps (init_system False) s \<and> phase_of s 1 = Sleeping 1 \<and> (\<exists>n. (1::nat) = min (2 ^ n) 30)"
proof -
  let ?t = "set_phase 1 Loop_Top (toy_pushed True)"
  let ?b = "set_phase 1 (Building 1 (sample_config, Http3)) ?t"
  have "step (toy_pushed True) ?t"
    using step.initial_err [of "toy_pushed True" 1 True] by (simp add: toy_pushed_def set_phase_def)
  moreover have "step ?t ?b"
    by (rule step.worker, rule worker_step.top_down [of _ 1 "worker_new sample_config"])
      (simp_all add: set_phase_def toy_pushed_def init_system_def pool_init_def push_worker_def
        worker_new_def build_inputs_def transport_of_def)
  moreover have "step ?b (set_phase 1 (Sleeping 1) ?b)"
    by (rule step.worker, rule worker_step.build_err [of _ 1 1]) (simp add: set_phase_def)
  ultimately have r: "steps (init_system False) (set_phase 1 (Sleeping 1) ?b)"
    using toy_pushed_reachable [of True] by (meson rtranclp.rtrancl_into_rtrancl)
  have p: "phase_of (set_phase 1 (Sleeping 1) ?b) 1 = Sleeping 1"
    by (simp add: set_phase_def)
  show ?thesis
    using backoff_bounded [OF r disjI1 [OF p]] r p by blast
qed

text \<open>
  C40. Removing an account does not end it: after a successful \<open>remove_account\<close> the account is out of the
  pool and never pinned, but its worker keeps its tunnel and netstack, and its supervisor goes on: when
  that tunnel's transport dies, it connects the removed account again.
\<close>

theorem removed_account_goes_on:
  assumes "remove_account i (pl s) = (Inr (), p)" and "0 < i"
  shows "step s (s\<lparr>pl := p\<rparr>) \<and> i \<in> set (members (pl s)) \<and> i \<notin> set (members p) \<and> pinned p \<noteq> i
    \<and> store p i = store (pl s) i
    \<and> (phase_of s i = Waiting \<and> store (pl s) i = Some w \<and> w_dead w = Some True \<longrightarrow>
         (\<exists>s'. step (s\<lparr>pl := p\<rparr>) s' \<and> phase_of s' i = Building 1 (w_config w, transport_of (pl s))))"
proof -
  have r: "i \<in> set (members (pl s)) \<and> i \<notin> set (members p) \<and> pinned p \<noteq> i
      \<and> store p = store (pl s) \<and> transport_of p = transport_of (pl s)"
    using assms filter_id_conv [of "\<lambda>j. j \<noteq> i" "members (pl s)"]
    by (auto simp: remove_account_def transport_of_def Let_def split: if_splits)
  have "step s (s\<lparr>pl := p\<rparr>)"
    using step.control [of s "Remove i"] assms(1) by simp
  moreover have "\<exists>s'. step (s\<lparr>pl := p\<rparr>) s' \<and> phase_of s' i = Building 1 (w_config w, transport_of (pl s))"
    if "phase_of s i = Waiting" "store (pl s) i = Some w" "w_dead w = Some True"
    using step.worker [OF worker_step.wake_dead [of "s\<lparr>pl := p\<rparr>" i w "(w_config w, transport_of (pl s))"]] that r
    by (intro exI [of _ "set_phase i (Building 1 (w_config w, transport_of (pl s)))
        (upd_worker i clear_net (s\<lparr>pl := p\<rparr>))"])
      (simp add: build_inputs_def set_phase_def)
  ultimately show ?thesis using r by auto
qed

theorem removed_account_goes_on_witness:
  "store (snd (remove_account 1 (toy_pool None 1))) 1 = Some (toy_worker (Some 11))
   \<and> members (snd (remove_account 1 (toy_pool None 1))) = [2, 3]"
proof -
  let ?s = "\<lparr>pl = toy_pool None 1, phase_of = (\<lambda>_. Waiting)\<rparr>"
  have "remove_account 1 (pl ?s) = (Inr (), snd (remove_account 1 (toy_pool None 1)))"
    by (simp add: remove_account_def toy_pool_def Let_def)
  from removed_account_goes_on [OF this] show ?thesis
    by (simp add: remove_account_def toy_pool_def Let_def)
qed

end
