(* ===== verification/Control.thy ===== *)
theory Control
  imports Pool
begin

text \<open>
  The control API of \<open>crates/warp-masque/src/control.rs\<close>: reading the request head, the token check,
  the dispatch onto the pool and the responses. The outcomes of registrations, tunnel builds and
  traces are the fields of \<open>world\<close>, with the JSON text printer of \<open>serde_json\<close>.
\<close>

record 'n world =
  wd_register :: "rstr \<Rightarrow> error + warp_config"
  wd_build :: "warp_config \<times> transport \<Rightarrow> error + tunnel \<times> 'n"
  wd_fetch :: "'n \<Rightarrow> trace_info"
  wd_print :: "json \<Rightarrow> rstr + rstr"

section \<open>Parameters\<close>

definition param :: "rstr \<Rightarrow> rstr \<Rightarrow> rstr option" where
  "param query key =
     find_map (\<lambda>pair. case split_once 61 pair of
         Some (k, v) \<Rightarrow> if k = key then Some v else None
       | None \<Rightarrow> None) (split_char 38 query)"

definition bool_param :: "rstr \<Rightarrow> rstr \<Rightarrow> bool \<Rightarrow> bool" where
  "bool_param query key deflt =
     (case param query key of
        Some v \<Rightarrow>
          if v \<in> {lit ''1'', lit ''true'', lit ''on'', lit ''yes''} then True
          else if v \<in> {lit ''0'', lit ''false'', lit ''off'', lit ''no''} then False
          else deflt
      | None \<Rightarrow> deflt)"

definition int_param :: "rstr \<Rightarrow> rstr \<Rightarrow> int option" where
  "int_param query key = Option.bind (param query key) parse_i64"

text \<open>\<open>as usize\<close> and \<open>as u64\<close> of an \<open>i64\<close> keep its 64 bits.\<close>

definition as_u64 :: "int \<Rightarrow> nat" where
  "as_u64 n = unat (word_of_int n :: u64)"

definition slot_param :: "rstr \<Rightarrow> nat" where
  "slot_param query =
     as_u64 (case int_param query (lit ''slot'') of Some n \<Rightarrow> n | None \<Rightarrow> 0)"

definition json_string :: "rstr \<Rightarrow> rstr" where
  "json_string s =
     (let escaped = replace_char 10 [32] (replace_char 34 [92, 34] (replace_char 92 [92, 92] s)) in
      [34] @ escaped @ [34])"

section \<open>Status as JSON\<close>

fun opt_field :: "rstr \<Rightarrow> rstr option \<Rightarrow> (rstr \<times> json) list" where
  "opt_field name None = []"
| "opt_field name (Some s) = [(name, JStr s)]"

definition trace_to_json :: "trace_info \<Rightarrow> json" where
  "trace_to_json t = JObj
     ([(lit ''ip'', JStr (tr_ip t)), (lit ''colo'', JStr (tr_colo t)), (lit ''warp'', JStr (tr_warp t))]
      @ opt_field (lit ''err'') (tr_err t))"

definition account_to_json :: "account_status \<Rightarrow> json" where
  "account_to_json a = JObj
     [(lit ''id'', JNum (int (as_id a))), (lit ''ready'', JBool (as_ready a)),
      (lit ''ip'', JStr (as_ip a)),
      (lit ''trace'', case as_trace a of None \<Rightarrow> JNull | Some t \<Rightarrow> trace_to_json t)]"

definition status_to_json :: "pool_status \<Rightarrow> json" where
  "status_to_json s = JObj
     [(lit ''enabled'', JBool (ps_enabled s)), (lit ''mode'', JStr (ps_mode s)),
      (lit ''pinned'', JNum (int (ps_pinned s))), (lit ''http2'', JBool (ps_http2 s)),
      (lit ''rotate_seconds'', JNum (int (ps_rotate_seconds s))),
      (lit ''accounts'', JArr (map account_to_json (ps_accounts s)))]"

section \<open>Dispatch\<close>

text \<open>The effect of one endpoint: an error message, or the pool after it.\<close>

definition endpoint :: "'n world \<Rightarrow> rstr \<Rightarrow> rstr \<Rightarrow> 'n pool \<Rightarrow> (rstr + unit) \<times> 'n pool" where
  "endpoint W path query p =
     (if path = lit ''/api/status'' then (Inr (), p)
      else if path = lit ''/api/toggle'' then (Inr (), set_enabled (bool_param query (lit ''on'') True) p)
      else if path = lit ''/api/select'' then (Inr (), select (slot_param query) p)
      else if path = lit ''/api/reconnect'' then (Inr (), reconnect (slot_param query) p)
      else if path = lit ''/api/rotate'' then
        (case rotate (wd_register W) (slot_param query) p of (r, p) \<Rightarrow> (map_err error_text r, p))
      else if path = lit ''/api/http2'' then (Inr (), set_http2 (bool_param query (lit ''on'') False) p)
      else if path = lit ''/api/interval'' then
        (let secs = as_u64 (max (case int_param query (lit ''seconds'') of Some n \<Rightarrow> n | None \<Rightarrow> 0) 0)
         in (Inr (), set_rotate_interval secs p))
      else if path = lit ''/api/trace'' then (Inr (), refresh_trace (wd_fetch W) (slot_param query) p)
      else if path = lit ''/api/account/add'' then
        (case add_account (wd_register W) (wd_build W) p of
           (Inl e, p) \<Rightarrow> (Inl (error_text e), p)
         | (Inr _, p) \<Rightarrow> (Inr (), p))
      else if path = lit ''/api/account/remove'' then
        (case int_param query (lit ''slot'') of
           None \<Rightarrow> (Inl (lit ''missing slot''), p)
         | Some n \<Rightarrow> (case remove_account (as_u64 n) p of (r, p) \<Rightarrow> (map_err error_text r, p)))
      else (Inl (lit ''no such endpoint '' @ path), p))"

text \<open>The result of a call whose endpoint gave \<open>r\<close> and left the pool \<open>p\<close>: the status, or the error.\<close>

definition call_result :: "'n world \<Rightarrow> rstr + unit \<Rightarrow> 'n pool \<Rightarrow> rstr + rstr" where
  "call_result W r p = rbind r (\<lambda>_. wd_print W (status_to_json (status p)))"

definition route :: "'n world \<Rightarrow> rstr \<Rightarrow> rstr \<Rightarrow> 'n pool \<Rightarrow> (rstr + rstr) \<times> 'n pool" where
  "route W path query p = (case endpoint W path query p of (r, p) \<Rightarrow> (call_result W r p, p))"

section \<open>Responses\<close>

definition cors_headers :: rstr where
  "cors_headers = lit ''Access-Control-Allow-Headers: content-type, x-warp-token'' @ crlf
     @ lit ''Access-Control-Allow-Methods: GET, POST, OPTIONS'' @ crlf"

definition json_response :: "rstr \<Rightarrow> rstr \<Rightarrow> rstr" where
  "json_response st body =
     lit ''HTTP/1.1 '' @ st @ crlf @ lit ''Content-Type: application/json'' @ crlf
     @ lit ''Content-Length: '' @ show_nat (length (utf8 body)) @ crlf
     @ lit ''Access-Control-Allow-Origin: *'' @ crlf @ cors_headers
     @ lit ''Cache-Control: no-store'' @ crlf @ lit ''Connection: close'' @ crlf @ crlf @ body"

definition plain_response :: "rstr \<Rightarrow> rstr \<Rightarrow> rstr" where
  "plain_response st body =
     lit ''HTTP/1.1 '' @ st @ crlf @ lit ''Content-Length: '' @ show_nat (length (utf8 body)) @ crlf
     @ lit ''Access-Control-Allow-Origin: *'' @ crlf @ cors_headers
     @ lit ''Connection: close'' @ crlf @ crlf @ body"

section \<open>One connection\<close>

text \<open>
  The reads of the head: \<open>reads\<close> are the results of the next reads, of at most 2048 bytes each; after
  the last one the client has closed its side. Reading stops at an empty line or beyond 16 KiB.
\<close>

definition has_blank_line :: "bytes \<Rightarrow> bool" where
  "has_blank_line buf \<longleftrightarrow> (\<exists>i < length buf. take 4 (drop i buf) = [13, 10, 13, 10])"

fun read_head :: "bytes \<Rightarrow> (rstr + bytes) list \<Rightarrow> rstr + bytes" where
  "read_head buf [] = Inr buf"
| "read_head buf (Inl e # reads) = Inl e"
| "read_head buf (Inr chunk # reads) =
     (if chunk = [] then Inr buf
      else if has_blank_line (buf @ chunk) \<or> length (buf @ chunk) > 16 * 1024 then Inr (buf @ chunk)
      else read_head (buf @ chunk) reads)"

definition token_header :: "rstr \<Rightarrow> rstr option" where
  "token_header line =
     (case split_once 58 line of
        Some (k, v) \<Rightarrow>
          if eq_ignore_ascii_case (trim k) (lit ''x-warp-token'') then Some (trim v) else None
      | None \<Rightarrow> None)"

definition presented_token :: "rstr list \<Rightarrow> rstr" where
  "presented_token header_lines =
     (case find_map token_header header_lines of Some v \<Rightarrow> v | None \<Rightarrow> [])"

definition nth_word :: "nat \<Rightarrow> rstr \<Rightarrow> rstr" where
  "nth_word n l = (let ws = split_whitespace l in if n < length ws then ws ! n else [])"

text \<open>What a request head asks for: nothing (a CORS preflight), nothing it may, or a call.\<close>

datatype request = Preflight | Forbidden | Call rstr rstr

definition request_of :: "rstr \<Rightarrow> bytes \<Rightarrow> request" where
  "request_of token buf =
     (let head = from_utf8_lossy buf;
          lines = split_str crlf head;
          request_line = hd lines;
          req_method = nth_word 0 request_line;
          target = nth_word 1 request_line in
      if req_method = lit ''OPTIONS'' then Preflight
      else if presented_token (tl lines) \<noteq> token then Forbidden
      else (case split_once 63 target of Some (path, query) \<Rightarrow> Call path query | None \<Rightarrow> Call target []))"

definition forbidden_response :: rstr where
  "forbidden_response =
     json_response (lit ''403 Forbidden'') (lit ''{'' @ [34] @ lit ''error'' @ [34] @ lit '':'' @ [34]
       @ lit ''forbidden'' @ [34] @ lit ''}'')"

fun call_response :: "rstr + rstr \<Rightarrow> rstr" where
  "call_response (Inr body) = json_response (lit ''200 OK'') body"
| "call_response (Inl msg) = json_response (lit ''400 Bad Request'')
     (lit ''{'' @ [34] @ lit ''error'' @ [34] @ lit '':'' @ json_string msg @ lit ''}'')"

definition respond :: "'n world \<Rightarrow> rstr \<Rightarrow> bytes \<Rightarrow> 'n pool \<Rightarrow> rstr \<times> 'n pool" where
  "respond W token buf p =
     (case request_of token buf of
        Preflight \<Rightarrow> (plain_response (lit ''204 No Content'') [], p)
      | Forbidden \<Rightarrow> (forbidden_response, p)
      | Call path query \<Rightarrow> (case route W path query p of (r, p) \<Rightarrow> (call_response r, p)))"

definition handle :: "'n world \<Rightarrow> rstr \<Rightarrow> (rstr + bytes) list \<Rightarrow> 'n pool
    \<Rightarrow> (rstr + rstr) \<times> 'n pool" where
  "handle W token reads p =
     (case read_head [] reads of
        Inl e \<Rightarrow> (Inl e, p)
      | Inr buf \<Rightarrow> (case respond W token buf p of (resp, p) \<Rightarrow> (Inr resp, p)))"

section \<open>Facts\<close>

lemma split_str_crlf:
  assumes "13 \<notin> set l"
  shows "split_str crlf (l @ crlf @ rest) = l # split_str crlf rest"
  using assms
proof (induction l)
  case Nil
  show ?case by (simp add: crlf_def)
next
  case (Cons c l)
  have "take 2 (c # l @ crlf @ rest) \<noteq> crlf"
    using Cons.prems by (simp add: crlf_def)
  with Cons show ?case by (simp add: crlf_def)
qed

lemma trim_leading_space: "\<forall>c \<in> set v. \<not> is_whitespace c \<Longrightarrow> trim (32 # v) = v"
  by (simp add: trim_def trim_start_def trim_end_def is_whitespace_def [of 32] dropWhile_none)

definition plain_text :: "rstr \<Rightarrow> bool" where
  "plain_text s \<longleftrightarrow> (\<forall>c \<in> set s. scalar c \<and> \<not> is_whitespace c)"

text \<open>A request as a client sends it.\<close>

definition http_get :: "rstr \<Rightarrow> rstr \<Rightarrow> rstr" where
  "http_get target token =
     lit ''GET '' @ target @ lit '' HTTP/1.1'' @ crlf @ lit ''X-Warp-Token: '' @ token @ crlf @ crlf"

lemma plain_text_no: "plain_text s \<Longrightarrow> is_whitespace c \<Longrightarrow> c \<notin> set s"
  by (auto simp: plain_text_def)

lemma whitespace_chars [simp]: "is_whitespace 13" "is_whitespace 10" "is_whitespace 32"
  by (simp_all add: is_whitespace_def)

lemma http_get_lines:
  assumes "plain_text target" and "plain_text token"
  shows "split_str crlf (http_get target token)
    = [lit ''GET '' @ target @ lit '' HTTP/1.1'', lit ''X-Warp-Token: '' @ token, [], []]"
proof -
  have "13 \<notin> set target" "13 \<notin> set token"
    using assms plain_text_no by simp_all
  then have "13 \<notin> set (lit ''GET '' @ target @ lit '' HTTP/1.1'')" "13 \<notin> set (lit ''X-Warp-Token: '' @ token)"
    by (simp_all add: lit_simps)
  from split_str_crlf [OF this(1), of "lit ''X-Warp-Token: '' @ token @ crlf @ crlf"]
    split_str_crlf [OF this(2), of crlf]
  have "split_str crlf (http_get target token)
      = [lit ''GET '' @ target @ lit '' HTTP/1.1'', lit ''X-Warp-Token: '' @ token] @ split_str crlf crlf"
    by (simp add: http_get_def)
  then show ?thesis
    by (simp add: crlf_def)
qed

lemma http_get_words:
  assumes "plain_text target" and "target \<noteq> []"
  shows "split_whitespace (lit ''GET '' @ target @ lit '' HTTP/1.1'') = [lit ''GET'', target, lit ''HTTP/1.1'']"
proof -
  have t: "\<forall>c \<in> set target. \<not> is_whitespace c"
    using assms(1) by (simp add: plain_text_def)
  have g: "\<forall>c \<in> set (lit ''GET''). \<not> is_whitespace c" "\<forall>c \<in> set (lit ''HTTP/1.1''). \<not> is_whitespace c"
    by (simp_all add: lit_simps is_whitespace_def)
  have "lit ''GET '' @ target @ lit '' HTTP/1.1'' = lit ''GET'' @ 32 # target @ 32 # lit ''HTTP/1.1''"
    by (simp add: lit_simps)
  then show ?thesis
    using split_by_append [OF g(1), of 32 "target @ 32 # lit ''HTTP/1.1''"]
      split_by_append [OF t, of 32 "lit ''HTTP/1.1''"] split_by_none [OF g(2)] assms(2)
    by (simp add: split_whitespace_def) (simp add: lit_simps)
qed

lemma presented_token_get:
  assumes "plain_text token"
  shows "presented_token [lit ''X-Warp-Token: '' @ token, [], []] = token"
proof -
  have v: "trim (32 # token) = token"
    using assms by (intro trim_leading_space) (simp add: plain_text_def)
  have "split_once 58 (lit ''X-Warp-Token: '' @ token) = Some (lit ''X-Warp-Token'', 32 # token)"
    by (simp add: split_once_Some_iff) (simp add: lit_simps)
  moreover have "eq_ignore_ascii_case (trim (lit ''X-Warp-Token'')) (lit ''x-warp-token'')"
    by (subst trim_id) (simp_all add: lit_simps is_whitespace_def eq_ignore_ascii_case_def to_ascii_lower_def)
  ultimately show ?thesis
    by (simp add: presented_token_def token_header_def v)
qed

lemma request_of_get:
  assumes "plain_text (path @ 63 # query)" and "63 \<notin> set path" and "plain_text token"
  shows "request_of token (utf8 (http_get (path @ 63 # query) token)) = Call path query"
proof -
  let ?t = "path @ 63 # query"
  have "\<forall>c \<in> set (http_get ?t token). scalar c"
    using assms(1,3) by (auto simp: http_get_def crlf_def lit_simps plain_text_def scalar_def)
  then have head: "from_utf8_lossy (utf8 (http_get ?t token)) = http_get ?t token"
    by (rule from_utf8_lossy_utf8)
  have "split_once 63 ?t = Some (path, query)"
    using assms(2) by (simp add: split_once_Some_iff)
  then show ?thesis
    using http_get_lines [OF assms(1,3)] http_get_words [OF assms(1)] presented_token_get [OF assms(3)]
    by (simp add: request_of_def head nth_word_def Let_def)
qed

lemma parse_i64_show: "n < 2 ^ 63 \<Longrightarrow> parse_i64 (show_nat n) = Some (int n)"
proof -
  assume n: "n < 2 ^ 63"
  obtain c r where s: "show_nat n = c # r"
    by (cases "show_nat n") simp_all
  then have "48 \<le> c"
    using show_nat_digits [of c n] by simp
  then show ?thesis
    using digits_val_show [of 10 n] n s by (simp add: parse_i64_def)
qed

lemma param_single:
  assumes "61 \<notin> set key" and "38 \<notin> set key" and "38 \<notin> set v"
  shows "param (key @ 61 # v) key = Some v"
proof -
  have "split_char 38 (key @ 61 # v) = [key @ 61 # v]"
    using assms(2,3) by (intro split_char_none) simp
  moreover have "split_once 61 (key @ 61 # v) = Some (key, v)"
    using assms(1) by (simp add: split_once_Some_iff)
  ultimately show ?thesis by (simp add: param_def)
qed

lemma as_u64_int: "n < 2 ^ 63 \<Longrightarrow> as_u64 (int n) = n"
  by (simp add: as_u64_def unsigned_of_nat take_bit_eq_mod)

lemma int_param_show:
  assumes "61 \<notin> set key" and "38 \<notin> set key" and "n < 2 ^ 63"
  shows "int_param (key @ 61 # show_nat n) key = Some (int n)"
proof -
  have "38 \<notin> set (show_nat n)" using show_nat_digits [of 38 n] by auto
  with assms show ?thesis
    by (simp add: int_param_def param_single parse_i64_show)
qed

lemma route_pool [simp]: "snd (route W path query p) = snd (endpoint W path query p)"
  by (simp add: route_def split: prod.split)

lemma respond_pool: "snd (respond W token buf p) =
    (case request_of token buf of Call path query \<Rightarrow> snd (endpoint W path query p) | _ \<Rightarrow> p)"
  by (simp add: respond_def case_prod_unfold split: request.split)

text \<open>A call needs the token, on a line of its own.\<close>

lemma call_has_token:
  assumes "token \<noteq> []" and "request_of token buf = Call path query"
  shows "\<exists>l \<in> set (split_str crlf (from_utf8_lossy buf)). token_header l = Some token"
proof -
  let ?ls = "split_str crlf (from_utf8_lossy buf)"
  have "presented_token (tl ?ls) = token"
    using assms(2) by (simp add: request_of_def Let_def split: if_splits)
  then have "find_map token_header (tl ?ls) = Some token"
    using assms(1) by (auto simp: presented_token_def split: option.splits)
  from find_map_SomeD [OF this] obtain l where "l \<in> set (tl ?ls)" "token_header l = Some token"
    by auto
  then show ?thesis
    using list.set_sel(2) [of ?ls] by (cases ?ls) auto
qed

text \<open>The same without a query.\<close>

lemma request_of_bare:
  assumes "plain_text path" and "path \<noteq> []" and "63 \<notin> set path" and "plain_text token"
  shows "request_of token (utf8 (http_get path token)) = Call path []"
proof -
  have "\<forall>c \<in> set (http_get path token). scalar c"
    using assms(1,4) by (auto simp: http_get_def crlf_def lit_simps plain_text_def scalar_def)
  then have head: "from_utf8_lossy (utf8 (http_get path token)) = http_get path token"
    by (rule from_utf8_lossy_utf8)
  have "split_once 63 path = None"
    using assms(3) by (induction path) simp_all
  then show ?thesis
    using http_get_lines [OF assms(1,4)] http_get_words [OF assms(1,2)] presented_token_get [OF assms(4)]
    by (simp add: request_of_def head nth_word_def Let_def)
qed

text \<open>
  The table of the calls: path, query, result and pool afterwards, for a slot or a number of seconds \<open>n\<close>
  and for a switch \<open>on\<close> written as \<open>v\<close>.
\<close>

definition switch_words :: "bool \<Rightarrow> rstr set" where
  "switch_words on =
     (if on then {lit ''1'', lit ''true'', lit ''on'', lit ''yes''}
      else {lit ''0'', lit ''false'', lit ''off'', lit ''no''})"

definition api_calls :: "'n world \<Rightarrow> nat \<Rightarrow> bool \<Rightarrow> rstr \<Rightarrow> 'n pool
    \<Rightarrow> (rstr \<times> rstr \<times> (rstr + unit) \<times> 'n pool) set" where
  "api_calls W n on v p =
     (let slot = lit ''slot'' @ 61 # show_nat n; switch = lit ''on'' @ 61 # v in
      {(lit ''/api/status'', [], Inr (), p),
       (lit ''/api/toggle'', switch, Inr (), set_enabled on p),
       (lit ''/api/select'', slot, Inr (), select n p),
       (lit ''/api/reconnect'', slot, Inr (), reconnect n p),
       (lit ''/api/rotate'', slot, map_err error_text (fst (rotate (wd_register W) n p)),
         snd (rotate (wd_register W) n p)),
       (lit ''/api/http2'', switch, Inr (), set_http2 on p),
       (lit ''/api/interval'', lit ''seconds'' @ 61 # show_nat n, Inr (), set_rotate_interval n p),
       (lit ''/api/trace'', slot, Inr (), refresh_trace (wd_fetch W) n p),
       (lit ''/api/account/add'', [],
         rbind (map_err error_text (fst (add_account (wd_register W) (wd_build W) p))) (\<lambda>_. Inr ()),
         snd (add_account (wd_register W) (wd_build W) p)),
       (lit ''/api/account/remove'', slot, map_err error_text (fst (remove_account n p)),
         snd (remove_account n p))})"

lemma bool_param_word:
  assumes "v \<in> switch_words on"
  shows "bool_param (lit ''on'' @ 61 # v) (lit ''on'') d = on"
proof -
  have "param (lit ''on'' @ 61 # v) (lit ''on'') = Some v"
    by (rule param_single) (use assms in \<open>auto simp: switch_words_def lit_simps split: if_splits\<close>)
  moreover have "v \<notin> switch_words True" if "v \<in> switch_words False"
    using that by (simp only: switch_words_def if_True if_False) (elim insertE emptyE; simp)
  ultimately show ?thesis
    using assms by (cases on) (simp_all add: bool_param_def switch_words_def [of True, simplified if_True, symmetric]
        switch_words_def [of False, simplified if_False, symmetric])
qed

lemma endpoint_paths:
  "endpoint W (lit ''/api/status'') q p = (Inr (), p)"
  "endpoint W (lit ''/api/toggle'') q p = (Inr (), set_enabled (bool_param q (lit ''on'') True) p)"
  "endpoint W (lit ''/api/select'') q p = (Inr (), select (slot_param q) p)"
  "endpoint W (lit ''/api/reconnect'') q p = (Inr (), reconnect (slot_param q) p)"
  "endpoint W (lit ''/api/rotate'') q p = (map_err error_text (fst (rotate (wd_register W) (slot_param q) p)),
     snd (rotate (wd_register W) (slot_param q) p))"
  "endpoint W (lit ''/api/http2'') q p = (Inr (), set_http2 (bool_param q (lit ''on'') False) p)"
  "endpoint W (lit ''/api/interval'') q p = (Inr (), set_rotate_interval
     (as_u64 (max (case int_param q (lit ''seconds'') of Some n \<Rightarrow> n | None \<Rightarrow> 0) 0)) p)"
  "endpoint W (lit ''/api/trace'') q p = (Inr (), refresh_trace (wd_fetch W) (slot_param q) p)"
  by (simp_all add: endpoint_def case_prod_unfold)

lemma endpoint_accounts:
  "endpoint W (lit ''/api/account/add'') q p
     = (rbind (map_err error_text (fst (add_account (wd_register W) (wd_build W) p))) (\<lambda>_. Inr ()),
        snd (add_account (wd_register W) (wd_build W) p))"
  "int_param q (lit ''slot'') = Some n \<Longrightarrow> endpoint W (lit ''/api/account/remove'') q p
     = (map_err error_text (fst (remove_account (as_u64 n) p)), snd (remove_account (as_u64 n) p))"
  by (simp_all add: endpoint_def case_prod_unfold split: prod.split sum.split)

lemma endpoint_call:
  assumes "n < 2 ^ 63" and "v \<in> switch_words on" and "(path, query, r, p') \<in> api_calls W n on v p"
  shows "endpoint W path query p = (r, p')"
proof -
  have q: "int_param (lit ''slot'' @ 61 # show_nat n) (lit ''slot'') = Some (int n)"
    "int_param (lit ''seconds'' @ 61 # show_nat n) (lit ''seconds'') = Some (int n)"
    by (rule int_param_show; use assms(1) in \<open>simp add: lit_simps\<close>)+
  have s: "slot_param (lit ''slot'' @ 61 # show_nat n) = n"
    using q(1) as_u64_int [OF assms(1)] by (simp add: slot_param_def)
  note e = endpoint_paths endpoint_accounts(1) endpoint_accounts(2) [OF q(1)] s q(2) as_u64_int [OF assms(1)]
    bool_param_word [OF assms(2)]
  from assms(3) show ?thesis
    unfolding api_calls_def Let_def
    by (elim insertE emptyE; simp only: prod.inject e fst_conv snd_conv; simp add: e)
qed

lemma api_call_text:
  assumes "v \<in> switch_words on" and "(path, query, r, p') \<in> api_calls W n on v p"
  shows "plain_text (path @ 63 # query)" "63 \<notin> set path" "path \<noteq> []"
proof -
  have v: "plain_text v" using assms(1)
    by (auto simp: switch_words_def plain_text_def lit_simps scalar_def is_whitespace_def split: if_splits)
  have n: "plain_text (show_nat n)"
    by (auto simp: plain_text_def scalar_def is_whitespace_def dest: show_nat_digits)
  have c: "plain_text (x @ a # y) \<longleftrightarrow> plain_text x \<and> plain_text [a] \<and> plain_text y" for x y a
    by (auto simp: plain_text_def)
  have w: "plain_text (lit ''slot'')" "plain_text (lit ''on'')" "plain_text (lit ''seconds'')" "plain_text [61]"
    "plain_text [63]" "plain_text []"
    by (simp_all add: plain_text_def lit_simps scalar_def is_whitespace_def)
  have path: "plain_text path" "63 \<notin> set path" "path \<noteq> []"
    if "path \<in> {lit ''/api/status'', lit ''/api/toggle'', lit ''/api/select'', lit ''/api/reconnect'',
      lit ''/api/rotate'', lit ''/api/http2'', lit ''/api/interval'', lit ''/api/trace'',
      lit ''/api/account/add'', lit ''/api/account/remove''}"
    using that by (elim insertE emptyE; simp add: plain_text_def lit_simps scalar_def is_whitespace_def)+
  have "(path \<in> {lit ''/api/status'', lit ''/api/toggle'', lit ''/api/select'', lit ''/api/reconnect'',
      lit ''/api/rotate'', lit ''/api/http2'', lit ''/api/interval'', lit ''/api/trace'',
      lit ''/api/account/add'', lit ''/api/account/remove''}) \<and> plain_text query"
    using assms(2) unfolding api_calls_def Let_def
    by (elim insertE emptyE; simp only: prod.inject; simp add: c w v n)
  with path show "plain_text (path @ 63 # query)" "63 \<notin> set path" "path \<noteq> []"
    using w(5) by (auto simp: plain_text_def)
qed

section \<open>Properties\<close>

text \<open>
  C7. No token, no effect: a connection none of whose lines carries the token in an \<open>X-Warp-Token\<close>
  header (any case, any white space around it) leaves the pool exactly as it is and is answered with
  \<open>403\<close>, or with the preflight's \<open>204\<close>, or not at all when the read fails.
\<close>

theorem control_requires_token:
  assumes "token \<noteq> []"
    and "\<forall>buf. read_head [] reads = Inr buf \<longrightarrow>
      (\<forall>l \<in> set (split_str crlf (from_utf8_lossy buf)). token_header l \<noteq> Some token)"
  shows "snd (handle W token reads p) = p
    \<and> fst (handle W token reads p) \<in> {Inr (plain_response (lit ''204 No Content'') []),
        Inr (json_response (lit ''403 Forbidden'')
          (lit ''{'' @ [34] @ lit ''error'' @ [34] @ lit '':'' @ [34] @ lit ''forbidden'' @ [34] @ lit ''}''))}
      \<union> range Inl"
proof (cases "read_head [] reads")
  case (Inr buf)
  have "request_of token buf \<noteq> Call path query" for path query
    using call_has_token [OF assms(1)] assms(2) Inr by blast
  with Inr show ?thesis
    by (cases "request_of token buf") (auto simp: handle_def respond_def forbidden_response_def)
qed (simp add: handle_def)

text \<open>
  C25. An authorised call does what it says: a \<open>GET\<close> with the token, however its bytes were read, has exactly
  the effect of its endpoint with the slot, the number of seconds or the switch given, for each of the ten
  endpoints of the API, and is answered with the status of the pool it leaves, or the endpoint's error.
\<close>

theorem control_calls_take_effect:
  assumes "plain_text token" and "n < 2 ^ 63" and "v \<in> switch_words on"
    and "(path, query, r, p') \<in> api_calls W n on v p"
    and "target \<in> {path @ 63 # query} \<union> (if query = [] then {path} else {})"
    and "read_head [] reads = Inr (utf8 (http_get target token))"
  shows "handle W token reads p
    = (Inr (call_response (rbind r (\<lambda>_. wd_print W (status_to_json (status p'))))), p')"
proof -
  note t = api_call_text [OF assms(3,4)]
  then have "plain_text path" by (auto simp: plain_text_def)
  with request_of_get [OF t(1,2) assms(1)] request_of_bare [OF _ t(3,2) assms(1)] assms(5)
  have "request_of token (utf8 (http_get target token)) = Call path query"
    by (auto split: if_splits)
  then show ?thesis
    using endpoint_call [OF assms(2-4)] assms(6) by (simp add: handle_def respond_def route_def call_result_def)
qed

lemma read_head_single: "read_head [] [Inr c] = Inr c"
  by simp

definition toy_world :: "nat world" where
  "toy_world = \<lparr>wd_register = (\<lambda>_. Inr sample_config), wd_build = (\<lambda>_. Inl (Tunnel [])),
     wd_fetch = (\<lambda>_. trace_default), wd_print = (\<lambda>_. Inr [])\<rparr>"

theorem control_requires_token_witness:
  "snd (handle toy_world (lit ''tok'') [Inr (utf8 (lit ''GET /api/toggle?on=0''))] (toy_pool None 0))
    = toy_pool None 0"
proof -
  have "from_utf8_lossy (utf8 (lit ''GET /api/toggle?on=0'')) = lit ''GET /api/toggle?on=0''"
    by (rule from_utf8_lossy_utf8) (simp add: lit_simps scalar_def)
  moreover have "split_str crlf (lit ''GET /api/toggle?on=0'') = [lit ''GET /api/toggle?on=0'']"
    by (simp add: lit_simps crlf_def)
  moreover have "token_header (lit ''GET /api/toggle?on=0'') = None"
    by (simp add: token_header_def lit_simps)
  moreover have "lit ''tok'' \<noteq> []"
    by (simp add: lit_simps)
  ultimately show ?thesis
    using control_requires_token [of "lit ''tok''" "[Inr (utf8 (lit ''GET /api/toggle?on=0''))]" toy_world
        "toy_pool None 0"] by (simp del: read_head.simps add: read_head_single)
qed

theorem control_calls_take_effect_witness:
  "pinned (snd (handle toy_world (lit ''tok'')
      [Inr (utf8 (http_get (lit ''/api/select'' @ 63 # lit ''slot'' @ 61 # show_nat 3) (lit ''tok'')))]
      (toy_pool None 0))) = 3"
proof -
  have "plain_text (lit ''tok'')"
    by (simp add: plain_text_def lit_simps scalar_def is_whitespace_def)
  moreover have "(lit ''/api/select'', lit ''slot'' @ 61 # show_nat 3, Inr (), select 3 (toy_pool None 0))
      \<in> api_calls toy_world 3 True (lit ''1'') (toy_pool None 0)"
    by (simp add: api_calls_def Let_def)
  ultimately show ?thesis
    using control_calls_take_effect [of "lit ''tok''" 3 "lit ''1''" True "lit ''/api/select''"
        "lit ''slot'' @ 61 # show_nat 3" "Inr ()" "select 3 (toy_pool None 0)" toy_world "toy_pool None 0"
        "lit ''/api/select'' @ 63 # lit ''slot'' @ 61 # show_nat 3"
        "[Inr (utf8 (http_get (lit ''/api/select'' @ 63 # lit ''slot'' @ 61 # show_nat 3) (lit ''tok'')))]"]
    by (simp del: read_head.simps add: read_head_single select_def switch_words_def)
qed

end
