(* ===== verification/Http_Client.thy ===== *)
theory Http_Client
  imports Control
begin

text \<open>
  The answers of the control API as a client reads them: a reference reader for an HTTP/1.1 response
  with a declared length and one for a JSON string, and the proof that every answer of \<open>handle\<close> is a
  well-formed message that carries what \<open>route\<close> gave.
\<close>

section \<open>A client\<close>

text \<open>The head up to the first empty line, and what follows it.\<close>

fun split_head :: "bytes \<Rightarrow> (bytes \<times> bytes) option" where
  "split_head [] = None"
| "split_head (b # bs) =
     (if take 4 (b # bs) = [13, 10, 13, 10] then Some ([], drop 4 (b # bs))
      else map_option (\<lambda>(h, rest). (b # h, rest)) (split_head bs))"

definition content_length :: "rstr \<Rightarrow> nat option" where
  "content_length line =
     (case split_once 58 line of
        Some (k, v) \<Rightarrow> if eq_ignore_ascii_case k (lit ''content-length'') then digits_val 10 (trim v) else None
      | None \<Rightarrow> None)"

text \<open>The status line, the body of the length declared, and the bytes after it.\<close>

definition read_response :: "bytes \<Rightarrow> (rstr \<times> bytes \<times> bytes) option" where
  "read_response buf =
     (case split_head buf of
        None \<Rightarrow> None
      | Some (head, rest) \<Rightarrow>
          (let lines = split_str crlf (from_utf8_lossy head) in
           case find_map content_length (tl lines) of
             None \<Rightarrow> None
           | Some n \<Rightarrow> if length rest < n then None else Some (hd lines, take n rest, drop n rest)))"

text \<open>
  The rest of a JSON string after its opening quote, and what follows it: a raw control character is
  not allowed. The escapes the program does not write are left out.
\<close>

fun read_json_string :: "rstr \<Rightarrow> (rstr \<times> rstr) option" where
  "read_json_string [] = None"
| "read_json_string [c] = (if c = 34 then Some ([], []) else None)"
| "read_json_string (c # e # r) =
     (if c = 34 then Some ([], e # r)
      else if c = 92 then
        (if e = 34 \<or> e = 92 then map_option (\<lambda>(s, t). (e # s, t)) (read_json_string r) else None)
      else if c < 32 then None
      else map_option (\<lambda>(s, t). (c # s, t)) (read_json_string (e # r)))"

text \<open>The message of an object with the one field \<open>error\<close>.\<close>

definition error_message :: "rstr \<Rightarrow> rstr option" where
  "error_message body =
     (let start = lit ''{'' @ [34] @ lit ''error'' @ [34] @ lit '':'' @ [34]; n = length start in
      if take n body = start then
        (case read_json_string (drop n body) of
           Some (msg, rest) \<Rightarrow> if rest = lit ''}'' then Some msg else None
         | None \<Rightarrow> None)
      else None)"

section \<open>Framing\<close>

lemma split_head_line:
  assumes "13 \<notin> set l"
  shows "split_head (l @ bs) = map_option (\<lambda>(h, rest). (l @ h, rest)) (split_head bs)"
  using assms by (induction l) (auto simp: option.map_ident option.map_comp o_def case_prod_unfold)

lemma split_head_crlf:
  assumes "c \<noteq> 13"
  shows "split_head (13 # 10 # c # bs) = map_option (\<lambda>(h, rest). (13 # 10 # h, rest)) (split_head (c # bs))"
  using assms by (simp add: option.map_comp o_def case_prod_unfold del: split_head.simps(2))
    (simp add: split_head.simps(2) [of 13] split_head.simps(2) [of 10] option.map_comp o_def case_prod_unfold
      del: split_head.simps)

fun head_text :: "rstr list \<Rightarrow> rstr" where
  "head_text [] = []"
| "head_text [l] = l"
| "head_text (l # m # ls) = l @ crlf @ head_text (m # ls)"

definition head_line :: "rstr \<Rightarrow> bool" where
  "head_line l \<longleftrightarrow> l \<noteq> [] \<and> 13 \<notin> set l \<and> (\<forall>c \<in> set l. c < 128)"

lemma utf8_ascii: "\<forall>c \<in> set s. c < 128 \<Longrightarrow> utf8 s = map of_nat s"
  by (induction s) (simp_all add: utf8_def utf8_char_def utf8_nats_def)

lemma head_line_bytes:
  assumes "head_line l"
  obtains c bs where "utf8 l = c # bs" and "c \<noteq> 13" and "13 \<notin> set (utf8 l)"
proof -
  have u: "utf8 l = map of_nat l" and ne: "l \<noteq> []"
    using assms by (simp_all add: head_line_def utf8_ascii)
  have "(of_nat c :: u8) \<noteq> 13" if "c \<in> set l" for c
  proof
    assume "(of_nat c :: u8) = 13"
    then have "unat (of_nat c :: u8) = 13" by simp
    moreover have "c < 128" using that assms by (simp add: head_line_def)
    ultimately have "c = 13" by (simp add: unsigned_of_nat take_bit_eq_mod)
    with that assms show False by (simp add: head_line_def)
  qed
  then have n: "13 \<notin> set (utf8 l)" by (auto simp: u)
  from ne obtain d ds where "utf8 l = of_nat d # ds" and "(of_nat d :: u8) \<in> set (utf8 l)"
    using u by (cases l) auto
  with n show ?thesis by (intro that [of "of_nat d" ds]) auto
qed

lemma utf8_crlf: "utf8 crlf = [13, 10]"
  by (simp add: crlf_def utf8_def utf8_char_def utf8_nats_def)

lemma split_head_text:
  assumes "ls \<noteq> []" and "\<forall>l \<in> set ls. head_line l"
  shows "split_head (utf8 (head_text ls) @ [13, 10, 13, 10] @ rest) = Some (utf8 (head_text ls), rest)"
  using assms
proof (induction ls rule: head_text.induct)
  case (2 l)
  obtain c bs where "13 \<notin> set (utf8 l)" using 2 by (auto elim: head_line_bytes)
  then show ?case by (simp add: split_head_line)
next
  case (3 l m ls)
  from 3 have l: "13 \<notin> set (utf8 l)" by (auto elim: head_line_bytes)
  from 3 obtain c bs where m: "utf8 m = c # bs" "c \<noteq> 13" by (auto elim: head_line_bytes)
  obtain cs where h: "utf8 (head_text (m # ls)) = c # cs"
    by (cases ls) (auto simp: utf8_append m)
  show ?case
    using 3 split_head_line [OF l] split_head_crlf [OF m(2)]
    by (simp add: utf8_append utf8_crlf h del: split_head.simps)
qed simp

lemma split_str_none: "13 \<notin> set l \<Longrightarrow> split_str crlf l = [l]"
  by (induction l) (simp_all add: crlf_def)

lemma split_str_head:
  assumes "ls \<noteq> []" and "\<forall>l \<in> set ls. head_line l"
  shows "split_str crlf (head_text ls) = ls"
  using assms
proof (induction ls rule: head_text.induct)
  case (2 l)
  then show ?case by (simp add: head_line_def split_str_none)
next
  case (3 l m ls)
  then show ?case by (simp add: split_str_crlf head_line_def)
qed simp

text \<open>A message of such lines, one of which declares the length of the body.\<close>

lemma read_response_lines:
  assumes "\<forall>l \<in> set (st # hs). head_line l" and "find_map content_length hs = Some (length (utf8 body))"
  shows "read_response (utf8 (head_text (st # hs) @ crlf @ crlf @ body)) = Some (st, utf8 body, [])"
proof -
  let ?h = "head_text (st # hs)"
  have "\<forall>c \<in> set (head_text ls). c < 128" if "\<forall>l \<in> set ls. head_line l" for ls
    using that by (induction ls rule: head_text.induct) (auto simp: head_line_def crlf_def)
  then have "\<forall>c \<in> set ?h. scalar c"
    using assms(1) by (fastforce simp: scalar_def)
  then have "from_utf8_lossy (utf8 ?h) = ?h"
    by (rule from_utf8_lossy_utf8)
  moreover have "split_head (utf8 ?h @ [13, 10, 13, 10] @ utf8 body) = Some (utf8 ?h, utf8 body)"
    by (rule split_head_text) (use assms(1) in simp_all)
  moreover have "split_str crlf ?h = st # hs"
    by (rule split_str_head) (use assms(1) in simp_all)
  ultimately show ?thesis
    using assms(2) by (simp add: read_response_def utf8_append utf8_crlf)
qed

lemma content_length_header: "content_length (lit ''Content-Length: '' @ show_nat n) = Some n"
proof -
  have "\<forall>c \<in> set (show_nat n). \<not> is_whitespace c"
    using show_nat_digits by (fastforce simp: is_whitespace_def)
  then have "trim (32 # show_nat n) = show_nat n" by (rule trim_leading_space)
  moreover have "split_once 58 (lit ''Content-Length: '' @ show_nat n) = Some (lit ''Content-Length'', 32 # show_nat n)"
    by (simp add: split_once_Some_iff) (simp add: lit_simps)
  moreover have "eq_ignore_ascii_case (lit ''Content-Length'') (lit ''content-length'')"
    by (simp add: lit_simps eq_ignore_ascii_case_def to_ascii_lower_def)
  ultimately show ?thesis
    by (simp add: content_length_def digits_val_show)
qed

lemma head_line_length: "head_line (lit ''Content-Length: '' @ show_nat n)"
proof -
  have "c \<noteq> 13 \<and> c < 128" if "c \<in> set (show_nat n)" for c
    using show_nat_digits [OF that] by simp
  then show ?thesis by (auto simp: head_line_def lit_simps)
qed

lemma read_json_response:
  assumes "head_line st"
  shows "read_response (utf8 (json_response st body)) = Some (lit ''HTTP/1.1 '' @ st, utf8 body, [])"
proof -
  let ?hs = "[lit ''Content-Type: application/json'', lit ''Content-Length: '' @ show_nat (length (utf8 body)),
    lit ''Access-Control-Allow-Origin: *'', lit ''Access-Control-Allow-Headers: content-type, x-warp-token'',
    lit ''Access-Control-Allow-Methods: GET, POST, OPTIONS'', lit ''Cache-Control: no-store'',
    lit ''Connection: close'']"
  have "json_response st body = head_text ((lit ''HTTP/1.1 '' @ st) # ?hs) @ crlf @ crlf @ body"
    by (simp add: json_response_def cors_headers_def)
  moreover have "\<forall>l \<in> set ((lit ''HTTP/1.1 '' @ st) # ?hs). head_line l"
    using assms head_line_length by (simp) (simp add: head_line_def lit_simps)
  moreover have "content_length (lit ''Content-Type: application/json'') = None"
    by (simp add: content_length_def lit_simps eq_ignore_ascii_case_def to_ascii_lower_def)
  ultimately show ?thesis
    by (simp only: read_response_lines find_map.simps content_length_header option.case)
qed

lemma read_plain_response:
  assumes "head_line st"
  shows "read_response (utf8 (plain_response st body)) = Some (lit ''HTTP/1.1 '' @ st, utf8 body, [])"
proof -
  let ?hs = "[lit ''Content-Length: '' @ show_nat (length (utf8 body)),
    lit ''Access-Control-Allow-Origin: *'', lit ''Access-Control-Allow-Headers: content-type, x-warp-token'',
    lit ''Access-Control-Allow-Methods: GET, POST, OPTIONS'', lit ''Connection: close'']"
  have "plain_response st body = head_text ((lit ''HTTP/1.1 '' @ st) # ?hs) @ crlf @ crlf @ body"
    by (simp add: plain_response_def cors_headers_def)
  moreover have "\<forall>l \<in> set ((lit ''HTTP/1.1 '' @ st) # ?hs). head_line l"
    using assms head_line_length by (simp) (simp add: head_line_def lit_simps)
  ultimately show ?thesis
    by (simp only: read_response_lines find_map.simps content_length_header option.case)
qed

section \<open>Error messages\<close>

text \<open>What a message looks like after \<open>json_string\<close>: line ends become spaces.\<close>

definition one_line :: "rstr \<Rightarrow> rstr" where
  "one_line s = map (\<lambda>c. if c = 10 then 32 else c) s"

definition raw_control :: "rstr \<Rightarrow> bool" where
  "raw_control s \<longleftrightarrow> (\<exists>c \<in> set s. c < 32 \<and> c \<noteq> 10)"

lemma json_string_Cons:
  "json_string [] = [34, 34]"
  "tl (json_string (c # s)) = (if c = 10 then [32] else if c = 34 then [92, 34] else if c = 92 then [92, 92] else [c])
     @ tl (json_string s)"
  by (auto simp: json_string_def replace_char_def Let_def)

lemma read_json_string_inverse:
  "read_json_string (tl (json_string s) @ rest) = (if raw_control s then None else Some (one_line s, rest))"
proof (induction s)
  case Nil
  then show ?case
    by (cases rest) (simp_all add: json_string_Cons raw_control_def one_line_def)
next
  case (Cons c s)
  obtain x xs where t: "tl (json_string s) @ rest = x # xs"
    by (cases "tl (json_string s) @ rest") (auto simp: json_string_def Let_def)
  show ?case
    using Cons by (auto simp: json_string_Cons t raw_control_def one_line_def)
qed

lemma error_message_json:
  "error_message (lit ''{'' @ [34] @ lit ''error'' @ [34] @ lit '':'' @ json_string msg @ lit ''}'')
     = (if raw_control msg then None else Some (one_line msg))"
proof -
  let ?start = "lit ''{'' @ [34] @ lit ''error'' @ [34] @ lit '':'' @ [34]"
  have "json_string msg = 34 # tl (json_string msg)"
    by (simp add: json_string_def Let_def)
  then have "lit ''{'' @ [34] @ lit ''error'' @ [34] @ lit '':'' @ json_string msg @ lit ''}''
      = ?start @ tl (json_string msg) @ lit ''}''"
    by simp
  moreover have "error_message (?start @ r)
      = (case read_json_string r of
           Some (m, rest) \<Rightarrow> if rest = lit ''}'' then Some m else None | None \<Rightarrow> None)" for r
    by (simp add: error_message_def Let_def)
  ultimately show ?thesis
    by (simp only: read_json_string_inverse) simp
qed

lemma error_message_forbidden:
  "error_message (lit ''{'' @ [34] @ lit ''error'' @ [34] @ lit '':'' @ [34] @ lit ''forbidden'' @ [34] @ lit ''}'')
     = Some (lit ''forbidden'')"
  by (simp add: error_message_def Let_def) (simp add: lit_simps)

section \<open>Properties\<close>

text \<open>
  C8. Every answer is a well-formed message: a client that reads a response of the control API to its
  first empty line and then as many bytes as it declares has the whole body and nothing is left over,
  whatever characters the body holds, and finds in it what the call gave: the status for a call that
  went well, the message of the error otherwise, on one line. Only a message with another control
  character than a line end, which the program does not escape, is no JSON.
\<close>

theorem answers_are_framed:
  assumes "handle W token reads p = (Inr resp, p')"
  shows "\<exists>st body buf. read_response (utf8 resp) = Some (lit ''HTTP/1.1 '' @ st, utf8 body, [])
    \<and> read_head [] reads = Inr buf
    \<and> (case request_of token buf of
         Preflight \<Rightarrow> st = lit ''204 No Content'' \<and> body = []
       | Forbidden \<Rightarrow> st = lit ''403 Forbidden'' \<and> error_message body = Some (lit ''forbidden'')
       | Call path query \<Rightarrow>
           (case fst (route W path query p) of
              Inr b \<Rightarrow> st = lit ''200 OK'' \<and> body = b
            | Inl msg \<Rightarrow> st = lit ''400 Bad Request''
                \<and> error_message body = (if raw_control msg then None else Some (one_line msg))))"
proof -
  from assms obtain buf where buf: "read_head [] reads = Inr buf" "resp = fst (respond W token buf p)"
    by (auto simp: handle_def split: sum.splits prod.splits)
  have st: "head_line (lit ''204 No Content'')" "head_line (lit ''403 Forbidden'')" "head_line (lit ''200 OK'')"
    "head_line (lit ''400 Bad Request'')"
    by (simp_all add: head_line_def lit_simps)
  show ?thesis
  proof (cases "request_of token buf")
    case Preflight
    with buf read_plain_response [OF st(1), of "[]"] show ?thesis by (simp add: respond_def)
  next
    case Forbidden
    obtain body where "read_response (utf8 forbidden_response) = Some (lit ''HTTP/1.1 '' @ lit ''403 Forbidden'', utf8 body, [])"
      "error_message body = Some (lit ''forbidden'')"
      unfolding forbidden_response_def using read_json_response [OF st(2)] error_message_forbidden by blast
    with Forbidden buf show ?thesis by (auto simp: respond_def)
  next
    case (Call path query)
    with buf read_json_response [OF st(3)] read_json_response [OF st(4)] error_message_json show ?thesis
      by (cases "fst (route W path query p)") (auto simp: respond_def case_prod_unfold)
  qed
qed

theorem answers_are_framed_witness:
  "\<exists>resp p' body. handle toy_world (lit ''tok'') [Inr (utf8 (http_get (lit ''/x'' @ 63 # []) (lit ''tok'')))]
      (toy_pool None 0) = (Inr resp, p')
    \<and> read_response (utf8 resp) = Some (lit ''HTTP/1.1 400 Bad Request'', utf8 body, [])
    \<and> error_message body = Some (lit ''no such endpoint /x'')"
proof -
  let ?buf = "utf8 (http_get (lit ''/x'' @ 63 # []) (lit ''tok''))"
  have "plain_text (lit ''/x'' @ 63 # [])" "63 \<notin> set (lit ''/x'')" "plain_text (lit ''tok'')"
    by (simp_all add: plain_text_def lit_simps scalar_def is_whitespace_def)
  then have r: "request_of (lit ''tok'') ?buf = Call (lit ''/x'') []"
    by (rule request_of_get)
  obtain resp p' where h: "handle toy_world (lit ''tok'') [Inr ?buf] (toy_pool None 0) = (Inr resp, p')"
    by (simp add: handle_def case_prod_unfold read_head_single del: read_head.simps)
  have "fst (route toy_world (lit ''/x'') [] (toy_pool None 0)) = Inl (lit ''no such endpoint /x'')"
    by (simp add: route_def endpoint_def call_result_def) (simp add: lit_simps)
  moreover have "\<not> raw_control (lit ''no such endpoint /x'')"
    "one_line (lit ''no such endpoint /x'') = lit ''no such endpoint /x''"
    by (simp_all add: raw_control_def one_line_def lit_simps)
  moreover have "lit ''HTTP/1.1 '' @ lit ''400 Bad Request'' = lit ''HTTP/1.1 400 Bad Request''"
    by (simp add: lit_simps)
  ultimately show ?thesis
    using answers_are_framed [OF h] r h by (simp add: read_head_single del: read_head.simps)
qed

end
