(* ===== verification/Pool_Service.thy ===== *)
theory Pool_Service
  imports Control Supervisor
begin

text \<open>
  The pool as a running service: the start-up \<open>Pool::new\<close>, the auto-rotation task and the control
  connections of \<open>pool.rs\<close> and \<open>control.rs\<close> as runs of the step relation of the supervisors, so that
  what is proved of every reachable state holds of the daemon.
\<close>

section \<open>Start-up\<close>

text \<open>
  \<open>Pool::new\<close>: one account after the other gets an id, is pushed, connected (\<open>build\<close> is the outcome for
  an id and its inputs; a failure is only logged) and supervised.
\<close>

definition start_worker :: "(nat \<Rightarrow> inputs \<Rightarrow> error + tunnel \<times> 'n) \<Rightarrow> warp_config \<Rightarrow> 'n system \<Rightarrow> 'n system" where
  "start_worker build cfg s =
     (case reserve_id (pl s) of (i, p) \<Rightarrow>
        (let inputs = (cfg, transport_of p); s1 = s\<lparr>pl := push_worker i cfg p\<rparr> in
         set_phase i Loop_Top
           (case build i inputs of
              Inl e \<Rightarrow> s1
            | Inr (t, net) \<Rightarrow> upd_worker i (install_tunnel inputs t net) s1)))"

definition pool_new :: "(nat \<Rightarrow> inputs \<Rightarrow> error + tunnel \<times> 'n) \<Rightarrow> warp_config list \<Rightarrow> bool \<Rightarrow> 'n system" where
  "pool_new build configs use_http2 = fold (start_worker build) configs (init_system use_http2)"

section \<open>The rotator\<close>

text \<open>
  Where the task of \<open>spawn_rotator\<close> is when it runs next: at the head of its loop, after the idle sleep
  of 30 seconds, or after the sleep of the interval read at the head.
\<close>

datatype rot_phase = Rot_Head | Rot_Idle | Rot_Slept nat

record rotator =
  rot_idx :: u64
  rot_phase :: rot_phase

datatype rot_event = Sleep nat | Rotate nat

definition IDLE_SECS :: nat where "IDLE_SECS = 30"

text \<open>What the task does up to its next suspension point, on the pool as it finds it.\<close>

definition rotator_step :: "'n pool \<Rightarrow> rotator \<Rightarrow> rot_event list \<times> rotator" where
  "rotator_step p r =
     (case rot_phase r of
        Rot_Head \<Rightarrow>
          if rotate_secs p = 0 then ([Sleep IDLE_SECS], r\<lparr>rot_phase := Rot_Idle\<rparr>)
          else ([Sleep (rotate_secs p)], r\<lparr>rot_phase := Rot_Slept (rotate_secs p)\<rparr>)
      | Rot_Idle \<Rightarrow> ([], r\<lparr>rot_phase := Rot_Head\<rparr>)
      | Rot_Slept _ \<Rightarrow>
          if rotate_secs p = 0 then ([], r\<lparr>rot_phase := Rot_Head\<rparr>)
          else if members p = [] then ([], r\<lparr>rot_phase := Rot_Head\<rparr>)
          else ([Rotate (members p ! (unat (rot_idx r) mod length (members p)))],
                r\<lparr>rot_idx := rot_idx r + 1, rot_phase := Rot_Head\<rparr>))"

definition rotator_init :: rotator where
  "rotator_init = \<lparr>rot_idx = 0, rot_phase = Rot_Head\<rparr>"

text \<open>A whole run of the task over the pools it finds each time it is resumed.\<close>

fun rotator_run :: "'n pool list \<Rightarrow> rotator \<Rightarrow> rot_event list" where
  "rotator_run [] r = []"
| "rotator_run (p # ps) r = (case rotator_step p r of (evs, r') \<Rightarrow> evs @ rotator_run ps r')"

section \<open>Control connections\<close>

text \<open>
  The pool after a sequence of control connections, each with the outcomes of its registrations, tunnel
  builds and traces. (Handlers that wait for one of those interleave; the relation has their parts as
  separate steps.)
\<close>

fun serve_control :: "rstr \<Rightarrow> ('n world \<times> (rstr + bytes) list) list \<Rightarrow> 'n pool \<Rightarrow> 'n pool" where
  "serve_control token [] p = p"
| "serve_control token ((W, reads) # cs) p = serve_control token cs (snd (handle W token reads p))"

section \<open>Runs\<close>

lemma system_pl_same [simp]: "s\<lparr>pl := pl s\<rparr> = (s :: 'n system)"
  by simp

lemma steps_controls: "steps s (s\<lparr>pl := fold apply_control cs (pl s)\<rparr>)"
proof (induction cs arbitrary: s)
  case (Cons c cs)
  have "step s (s\<lparr>pl := apply_control c (pl s)\<rparr>)" by (rule step.control)
  moreover have "steps (s\<lparr>pl := apply_control c (pl s)\<rparr>) (s\<lparr>pl := fold apply_control (c # cs) (pl s)\<rparr>)"
    using Cons.IH [of "s\<lparr>pl := apply_control c (pl s)\<rparr>"] by simp
  ultimately show ?case by (rule converse_rtranclp_into_rtranclp)
qed simp

text \<open>Everything but \<open>add_account\<close> is a sequence of control steps.\<close>

lemma refresh_trace_controls: "\<exists>cs. refresh_trace fetch i p = fold apply_control cs p"
proof -
  have "\<exists>cs. fold (\<lambda>j p. if i \<noteq> 0 \<and> j \<noteq> i then p
                else (case net_of p j of
                        None \<Rightarrow> p
                      | Some net \<Rightarrow> on_worker j (set_trace (fetch net)) p)) ms p
      = fold apply_control cs p" (is "\<exists>cs. fold ?f ms p = _") for ms
  proof (induction ms arbitrary: p)
    case Nil
    show ?case by (rule exI [of _ "[]"]) simp
  next
    case (Cons j ms)
    have "\<exists>cs. ?f j p = fold apply_control cs p"
    proof (cases "(i \<noteq> 0 \<and> j \<noteq> i) \<or> net_of p j = None")
      case True
      then show ?thesis by (intro exI [of _ "[]"]) auto
    next
      case False
      then obtain net where "net_of p j = Some net" by auto
      with False show ?thesis by (intro exI [of _ "[Store_Trace j (fetch net)]"]) auto
    qed
    then obtain cs where "?f j p = fold apply_control cs p" ..
    moreover obtain cs' where "fold ?f ms (?f j p) = fold apply_control cs' (?f j p)"
      using Cons.IH by blast
    ultimately show ?case
      by (intro exI [of _ "cs @ cs'"]) simp
  qed
  then show ?thesis by (simp only: refresh_trace_def)
qed

lemma rotate_controls: "\<exists>cs. snd (rotate register i p) = fold apply_control cs p"
proof (cases "\<exists>j fresh. rotate_target i p = Inr j \<and> register (account_name p j) = Inr fresh")
  case True
  then obtain j fresh where "rotate_target i p = Inr j" "register (account_name p j) = Inr fresh" by blast
  then show ?thesis
    by (intro exI [of _ "[Rotate_Commit j fresh]"]) (simp add: rotate_def)
next
  case False
  then show ?thesis
    by (intro exI [of _ "[]"]) (auto simp: rotate_def split: sum.splits)
qed

lemma control_one: "snd r = apply_control c p \<Longrightarrow> \<exists>cs. snd r = fold apply_control cs p"
  by (rule exI [of _ "[c]"]) simp

lemma control_none: "snd r = p \<Longrightarrow> \<exists>cs. snd r = fold apply_control cs p"
  by (rule exI [of _ "[]"]) simp

lemma endpoint_one:
  "snd (endpoint W (lit ''/api/toggle'') query p)
    = apply_control (Set_Enabled (bool_param query (lit ''on'') True)) p"
  "snd (endpoint W (lit ''/api/select'') query p)
    = apply_control (Select (slot_param query)) p"
  "snd (endpoint W (lit ''/api/reconnect'') query p)
    = apply_control (Reconnect (slot_param query)) p"
  "snd (endpoint W (lit ''/api/http2'') query p)
    = apply_control (Set_Http2 (bool_param query (lit ''on'') False)) p"
  "snd (endpoint W (lit ''/api/interval'') query p)
    = apply_control (Set_Interval (as_u64 (max (case int_param query (lit ''seconds'') of Some n \<Rightarrow> n | None \<Rightarrow> 0) 0))) p"
  by (simp_all add: endpoint_def Let_def)

lemma endpoint_remove:
  "\<exists>cs. snd (endpoint W (lit ''/api/account/remove'') query p) = fold apply_control cs p"
proof (cases "int_param query (lit ''slot'')")
  case None
  then show ?thesis by (intro control_none) (simp add: endpoint_def)
next
  case (Some n)
  then show ?thesis
    by (intro control_one [where c = "Remove (as_u64 n)"]) (simp add: endpoint_def split: prod.split)
qed

lemma endpoint_controls:
  assumes "path \<noteq> lit ''/api/account/add''"
  shows "\<exists>cs. snd (endpoint W path query p) = fold apply_control cs p"
proof -
  consider (toggle) "path = lit ''/api/toggle''"
    | (select) "path = lit ''/api/select''"
    | (reconnect) "path = lit ''/api/reconnect''"
    | (http2) "path = lit ''/api/http2''"
    | (interval) "path = lit ''/api/interval''"
    | (rotate) "path = lit ''/api/rotate''"
    | (trace) "path = lit ''/api/trace''"
    | (remove) "path = lit ''/api/account/remove''"
    | (other) "path \<notin> {lit ''/api/toggle'', lit ''/api/select'', lit ''/api/reconnect'', lit ''/api/http2'', lit ''/api/interval'', lit ''/api/rotate'', lit ''/api/trace'', lit ''/api/account/remove''}"
    by blast
  then show ?thesis
  proof cases
    case toggle
    show ?thesis unfolding toggle by (rule control_one [OF endpoint_one(1)])
  next
    case select
    show ?thesis unfolding select by (rule control_one [OF endpoint_one(2)])
  next
    case reconnect
    show ?thesis unfolding reconnect by (rule control_one [OF endpoint_one(3)])
  next
    case http2
    show ?thesis unfolding http2 by (rule control_one [OF endpoint_one(4)])
  next
    case interval
    show ?thesis unfolding interval by (rule control_one [OF endpoint_one(5)])
  next
    case rotate
    then show ?thesis
      using rotate_controls [of "wd_register W" "slot_param query" p]
      by (auto simp: endpoint_def split: prod.split)
  next
    case trace
    then show ?thesis
      using refresh_trace_controls [of "wd_fetch W" "slot_param query" p] by (simp add: endpoint_def)
  next
    case remove
    show ?thesis unfolding remove by (rule endpoint_remove)
  next
    case other
    then show ?thesis
      using assms by (intro control_none) (simp add: endpoint_def)
  qed
qed

text \<open>A reserved id is new.\<close>

lemma reserved:
  assumes "system_inv s" and "reserve_id (pl s) = (i, p)"
  shows "0 < i" and "i < next_id p" and "store p i = None"
proof -
  have "store (pl s) (next_id (pl s)) = None"
    using system_invD(2) [OF assms(1)] by (cases "store (pl s) (next_id (pl s))") auto
  then show "0 < i" "i < next_id p" "store p i = None"
    using assms by (auto simp: reserve_id_def system_inv_def)
qed

text \<open>\<open>add_account\<close> hands out an id, pushes the worker and makes its first connection.\<close>

lemma add_account_steps:
  assumes "system_inv s"
  shows "\<exists>s'. steps s s' \<and> pl s' = snd (add_account register build (pl s))"
proof -
  obtain i p where r: "reserve_id (pl s) = (i, p)" by (cases "reserve_id (pl s)")
  let ?s1 = "s\<lparr>pl := p\<rparr>"
  have s1: "steps s ?s1"
    using step.control [of s Reserve_Id] r by (simp add: r_into_rtranclp)
  have i: "0 < i" "i < next_id p" "store p i = None"
    by (rule reserved [OF assms r])+
  show ?thesis
  proof (cases "register (account_name p i)")
    case (Inl e)
    with s1 r show ?thesis
      by (intro exI [of _ ?s1]) (simp add: add_account_def)
  next
    case (Inr cfg)
    let ?inp = "(cfg, transport_of (push_worker i cfg p))"
    let ?s2 = "set_phase i (Initial False (cfg, transport_of p)) (?s1\<lparr>pl := push_worker i cfg p\<rparr>)"
    have "step ?s1 ?s2"
      using step.push [of i ?s1 False cfg] i by simp
    with s1 have s2: "steps s ?s2" by (rule rtranclp.rtrancl_into_rtrancl)
    have inp: "?inp = (cfg, transport_of p)"
      by (simp add: transport_of_def push_worker_def)
    show ?thesis
    proof (cases "build ?inp")
      case (Inl e)
      with s2 r Inr show ?thesis
        by (intro exI [of _ ?s2]) (simp add: add_account_def set_phase_def Let_def)
    next
      case up: (Inr tn)
      obtain t net where tn: "tn = (t, net)" by (cases tn)
      have "step ?s2 (set_phase i Loop_Top (upd_worker i (install_tunnel ?inp t net) ?s2))"
        by (rule step.initial_ok [of _ _ False]) (simp add: set_phase_def inp)
      with s2 have "steps s (set_phase i Loop_Top (upd_worker i (install_tunnel ?inp t net) ?s2))"
        by (rule rtranclp.rtrancl_into_rtrancl)
      with r Inr up tn show ?thesis
        by (intro exI [of _ "set_phase i Loop_Top (upd_worker i (install_tunnel ?inp t net) ?s2)"])
          (simp add: add_account_def set_phase_def upd_worker_def Let_def)
    qed
  qed
qed

lemma endpoint_steps:
  assumes "system_inv s"
  shows "\<exists>s'. steps s s' \<and> pl s' = snd (endpoint W path query (pl s))"
proof (cases "path = lit ''/api/account/add''")
  case True
  then show ?thesis
    using add_account_steps [OF assms, of "wd_register W" "wd_build W"]
    by (auto simp: endpoint_def split: prod.split sum.split)
next
  case False
  then obtain cs where "snd (endpoint W path query (pl s)) = fold apply_control cs (pl s)"
    using endpoint_controls by blast
  then show ?thesis
    using steps_controls [of s cs] by (intro exI [of _ "s\<lparr>pl := fold apply_control cs (pl s)\<rparr>"]) simp
qed

lemma handle_endpoint: "snd (handle W token reads p) = p
    \<or> (\<exists>path query. snd (handle W token reads p) = snd (endpoint W path query p))"
proof -
  have "snd (respond W token buf p) = p \<or> (\<exists>path query. snd (respond W token buf p) = snd (endpoint W path query p))"
    for buf
    by (auto simp: respond_pool split: request.split)
  then show ?thesis
    by (cases "read_head [] reads") (auto simp: handle_def case_prod_unfold)
qed

lemma steps_inv: "steps s s' \<Longrightarrow> system_inv s \<Longrightarrow> system_inv s'"
  by (induction rule: rtranclp_induct) (auto simp: step_inv)

lemma start_worker_steps:
  assumes "system_inv s"
  shows "steps s (start_worker build cfg s)"
proof -
  obtain i p where r: "reserve_id (pl s) = (i, p)" by (cases "reserve_id (pl s)")
  let ?s1 = "s\<lparr>pl := p\<rparr>" and ?inp = "(cfg, transport_of p)"
  let ?s2 = "set_phase i (Initial True ?inp) (?s1\<lparr>pl := push_worker i cfg p\<rparr>)"
  have "step s ?s1"
    using step.control [of s Reserve_Id] r by simp
  moreover have "step ?s1 ?s2"
    using step.push [of i ?s1 True cfg] reserved [OF assms r] by simp
  moreover have "step ?s2 (start_worker build cfg s)"
  proof (cases "build i ?inp")
    case (Inl e)
    then show ?thesis
      using step.initial_err [of ?s2 i True ?inp]
      by (simp add: start_worker_def r Let_def set_phase_def)
  next
    case (Inr tn)
    then show ?thesis
      using step.initial_ok [of ?s2 i True ?inp "fst tn" "snd tn"]
      by (cases tn) (simp add: start_worker_def r Let_def set_phase_def upd_worker_def)
  qed
  ultimately show ?thesis by (meson r_into_rtranclp rtranclp_trans)
qed

text \<open>The worker that start-up leaves for an account.\<close>

definition started :: "(nat \<Rightarrow> inputs \<Rightarrow> error + tunnel \<times> 'n) \<Rightarrow> transport \<Rightarrow> nat \<Rightarrow> warp_config \<Rightarrow> 'n worker" where
  "started build tr i cfg =
     (case build i (cfg, tr) of
        Inl e \<Rightarrow> worker_new cfg
      | Inr (t, net) \<Rightarrow> install_tunnel (cfg, tr) t net (worker_new cfg))"

lemma start_worker_eq:
  "start_worker build cfg s =
     set_phase (next_id (pl s)) Loop_Top (s\<lparr>pl := (pl s)\<lparr>next_id := next_id (pl s) + 1,
       store := (store (pl s))(next_id (pl s) \<mapsto> started build (transport_of (pl s)) (next_id (pl s)) cfg),
       members := members (pl s) @ [next_id (pl s)]\<rparr>\<rparr>)"
  by (simp add: start_worker_def started_def reserve_id_def push_worker_def set_phase_def upd_worker_def
      on_worker_def transport_of_def Let_def split: sum.split prod.split)

lemma pool_new_snoc:
  "pool_new build (cfgs @ [c]) b = start_worker build c (pool_new build cfgs b)"
  by (simp add: pool_new_def)

lemma pool_new_shape:
  fixes build :: "nat \<Rightarrow> inputs \<Rightarrow> error + tunnel \<times> 'n"
  defines "s \<equiv> \<lambda>cfgs b. pool_new build cfgs b"
  shows "members (pl (s cfgs b)) = [1..<Suc (length cfgs)] \<and> next_id (pl (s cfgs b)) = Suc (length cfgs)
    \<and> http2 (pl (s cfgs b)) = b
    \<and> map (store (pl (s cfgs b))) [1..<Suc (length cfgs)]
      = map (\<lambda>(i, c). Some (started build (if b then Http2 else Http3) i c)) (enumerate 1 cfgs)
    \<and> map (phase_of (s cfgs b)) [1..<Suc (length cfgs)] = replicate (length cfgs) Loop_Top"
proof (induction cfgs rule: rev_induct)
  case Nil
  then show ?case by (simp add: s_def pool_new_def init_system_def pool_init_def)
next
  case (snoc c cfgs)
  let ?n = "Suc (length cfgs)"
  have other: "map (f(?n := x)) [1..<?n] = map f [1..<?n]" for f :: "nat \<Rightarrow> 'x" and x
    by (intro map_cong) auto
  from snoc have old: "members (pl (s cfgs b)) = [1..<?n]" "next_id (pl (s cfgs b)) = ?n"
    "http2 (pl (s cfgs b)) = b"
    "map (store (pl (s cfgs b))) [1..<?n]
      = map (\<lambda>(i, c). Some (started build (if b then Http2 else Http3) i c)) (enumerate 1 cfgs)"
    "map (phase_of (s cfgs b)) [1..<?n] = replicate (length cfgs) Loop_Top"
    by simp_all
  have new: "s (cfgs @ [c]) b = start_worker build c (s cfgs b)"
    by (simp add: s_def pool_new_snoc)
  have split: "[1..<Suc (length (cfgs @ [c]))] = [1..<?n] @ [?n]"
    by simp
  show ?case
    unfolding split new start_worker_eq old(2)
    using old
    by (cases b) (simp_all add: other set_phase_def transport_of_def enumerate_append_eq
        replicate_append_same fun_upd_same plus_1_eq_Suc del: upt_Suc fun_upd_apply One_nat_def)
qed

lemma pool_new_steps: "steps (init_system b) (pool_new build cfgs b)"
proof (induction cfgs rule: rev_induct)
  case Nil
  show ?case by (simp add: pool_new_def)
next
  case (snoc c cfgs)
  then show ?case
    unfolding pool_new_snoc
    by (rule rtranclp_trans) (rule start_worker_steps [OF reachable_inv [OF snoc.IH]])
qed

text \<open>The interval is off or at least a minute, in every reachable state.\<close>

lemma interval_control:
  assumes "rotate_secs p = 0 \<or> 60 \<le> rotate_secs p"
  shows "rotate_secs (apply_control c p) = 0 \<or> 60 \<le> rotate_secs (apply_control c p)"
proof (cases c)
  case Pick
  then show ?thesis
    using assms pick_rr_start [of p "fst (pick p)" "snd (pick p)"] by auto
qed (use assms in \<open>auto simp: set_enabled_def select_def rotate_commit_def set_http2_def
    set_rotate_interval_def reserve_id_def remove_account_def reconnect_eq MIN_ROTATE_SECS_def
    on_worker_def Let_def\<close>)

lemma reachable_interval:
  assumes "steps (init_system b) s"
  shows "rotate_secs (pl s) = 0 \<or> 60 \<le> rotate_secs (pl s)"
  using assms
proof (induction rule: rtranclp_induct)
  case base
  show ?case by (simp add: init_system_def pool_init_def)
next
  case (step t u)
  from step.hyps(2) show ?case
  proof cases
    case (control c)
    then show ?thesis using interval_control step.IH by simp
  qed (use step.IH in \<open>auto simp: set_phase_def upd_worker_def push_worker_def elim!: worker_stepE\<close>)
qed

text \<open>Every rotation directly follows a sleep of at least a minute.\<close>

fun paced_from :: "bool \<Rightarrow> rot_event list \<Rightarrow> bool" where
  "paced_from slept [] \<longleftrightarrow> True"
| "paced_from slept (Rotate i # evs) \<longleftrightarrow> slept \<and> paced_from False evs"
| "paced_from slept (Sleep n # evs) \<longleftrightarrow> paced_from (60 \<le> n) evs"

definition paced :: "rot_event list \<Rightarrow> bool" where
  "paced evs \<longleftrightarrow> paced_from False evs"

fun rotated :: "rot_event list \<Rightarrow> nat list" where
  "rotated [] = []"
| "rotated (Rotate i # evs) = i # rotated evs"
| "rotated (Sleep n # evs) = rotated evs"

lemma rotated_append [simp]: "rotated (xs @ ys) = rotated xs @ rotated ys"
  by (induction xs rule: rotated.induct) simp_all

lemma rotator_run_paced:
  assumes "\<forall>p \<in> set ps. rotate_secs p = 0 \<or> 60 \<le> rotate_secs p"
    and "\<forall>n. rot_phase r = Rot_Slept n \<longrightarrow> slept"
  shows "paced_from slept (rotator_run ps r)"
  using assms
proof (induction ps arbitrary: slept r)
  case (Cons p ps)
  then show ?case
    by (auto simp: rotator_step_def split: rot_phase.splits)
qed simp

lemma rotator_run_rotated:
  assumes "\<forall>p \<in> set ps. members p = ms" and "ms \<noteq> []" and "unat (rot_idx r) + length ps < 2 ^ 64"
  shows "\<exists>n. rotated (rotator_run ps r)
    = map (\<lambda>k. ms ! ((unat (rot_idx r) + k) mod length ms)) [0..<n] \<and> n \<le> length ps"
  using assms
proof (induction ps arbitrary: r)
  case (Cons p ps)
  obtain new r' where s: "rotator_step p r = (new, r')" by (cases "rotator_step p r")
  have bump: "unat (rot_idx r + 1) = Suc (unat (rot_idx r))"
    using Cons.prems(3) scan_index [of "rot_idx r" 1] by simp
  consider "rot_idx r' = rot_idx r" "rotated new = []"
    | "rot_idx r' = rot_idx r + 1" "rotated new = [ms ! (unat (rot_idx r) mod length ms)]"
    using s Cons.prems(1,2) by (auto simp: rotator_step_def split: rot_phase.splits if_splits)
  then show ?case
  proof cases
    case 1
    with Cons.IH [of r'] Cons.prems s show ?thesis by (auto intro: le_SucI)
  next
    case 2
    with bump Cons.IH [of r'] Cons.prems obtain n where n: "n \<le> length ps"
      "rotated (rotator_run ps r') = map (\<lambda>k. ms ! ((Suc (unat (rot_idx r)) + k) mod length ms)) [0..<n]"
      by auto
    have "[0..<Suc n] = 0 # map Suc [0..<n]"
      by (simp add: upt_conv_Cons map_Suc_upt del: upt_Suc)
    with 2 s n show ?thesis
      by (intro exI [of _ "Suc n"]) (simp add: o_def del: upt_Suc)
  qed
qed simp

section \<open>Properties\<close>

text \<open>
  The control API refines the step relation: whatever the connections send, with the token or not,
  whatever their registrations, connections and traces give, from every reachable state the pool they
  leave is the pool of a state the step relation reaches, so that no sequence of control calls ever
  loses a stale tunnel, reuses an id or pools an account without a worker.
\<close>

theorem serve_control_refines:
  assumes "steps (init_system b) s"
  shows "\<exists>s'. steps s s' \<and> pl s' = serve_control token cs (pl s) \<and> system_inv s'"
proof -
  have "\<exists>s'. steps s s' \<and> pl s' = serve_control token cs (pl s)" if "system_inv s" for s
    using that
  proof (induction token cs "pl s" arbitrary: s rule: serve_control.induct)
    case (2 token W reads cs)
    have "\<exists>t. steps s t \<and> pl t = snd (handle W token reads (pl s))"
      using handle_endpoint [of W token reads "pl s"]
    proof (elim disjE exE)
      fix path query
      assume "snd (handle W token reads (pl s)) = snd (endpoint W path query (pl s))"
      then show ?thesis
        using endpoint_steps [OF 2(2), of W path query] by simp
    qed auto
    then obtain t where t: "steps s t" "pl t = snd (handle W token reads (pl s))" by blast
    then obtain s' where "steps t s'" "pl s' = serve_control token cs (pl t)"
      using 2(1) [of t] steps_inv [OF _ 2(2)] by auto
    with t show ?case by (auto intro: rtranclp_trans)
  qed auto
  then show ?thesis
    using reachable_inv [OF assms] steps_inv by blast
qed

text \<open>
  Start-up refines the step relation and provides every account: \<open>Pool::new\<close> is a run of the
  relation; it pools the configurations in order under the ids \<open>1, 2, \<dots>\<close>, each supervised, and up
  exactly when its first connection succeeded.
\<close>

theorem pool_new_refines:
  "steps (init_system b) (pool_new build cfgs b)
   \<and> members (pl (pool_new build cfgs b)) = [1..<Suc (length cfgs)]
   \<and> map (store (pl (pool_new build cfgs b))) [1..<Suc (length cfgs)]
     = map (\<lambda>(i, c). Some (started build (if b then Http2 else Http3) i c)) (enumerate 1 cfgs)
   \<and> map (phase_of (pool_new build cfgs b)) [1..<Suc (length cfgs)] = replicate (length cfgs) Loop_Top"
  using pool_new_steps [of b build cfgs] pool_new_shape [where build = build and cfgs = cfgs and b = b] by blast

text \<open>
  C27. Auto-rotation is paced and fair: over any run of the rotator, with the pool in any reachable
  state each time it wakes, every rotation comes right after a sleep of at least a minute; and while
  the membership stays the same, the accounts are rotated one after the other in the pool's order.
\<close>

theorem rotation_paced_and_fair:
  assumes "\<forall>p \<in> set ps. \<exists>s. steps (init_system b) s \<and> pl s = p"
  shows "paced (rotator_run ps rotator_init)
    \<and> ((\<forall>p \<in> set ps. members p = ms) \<and> ms \<noteq> [] \<and> length ps < 2 ^ 64
       \<longrightarrow> (\<exists>n. rotated (rotator_run ps rotator_init) = map (\<lambda>k. ms ! (k mod length ms)) [0..<n]))"
proof -
  have "\<forall>p \<in> set ps. rotate_secs p = 0 \<or> 60 \<le> rotate_secs p"
    using assms by (auto dest: reachable_interval)
  then have "paced (rotator_run ps rotator_init)"
    unfolding paced_def by (rule rotator_run_paced) (simp add: rotator_init_def)
  then show ?thesis
    using rotator_run_rotated [of ps ms rotator_init] by (auto simp: rotator_init_def)
qed

section \<open>Concrete runs\<close>

theorem serve_control_refines_witness:
  "\<exists>s'. steps (init_system False) s' \<and> pl s' = serve_control (lit ''tok'')
      [(toy_world, [Inr (utf8 (http_get (lit ''/api/account/add'') (lit ''tok'')))]), (toy_world, [])]
      (pl (init_system False)) \<and> system_inv s'"
  by (rule serve_control_refines) (rule rtranclp.rtrancl_refl)

definition toy_service :: "nat pool" where
  "toy_service = set_rotate_interval 5
     (pl (pool_new (\<lambda>_ _. Inl (Tunnel [])) [sample_config, sample_config] False))"

lemma toy_service_members: "members toy_service = [1, 2]"
  using pool_new_shape [where build = "\<lambda>_ _. Inl (Tunnel []) :: error + tunnel \<times> nat"
      and cfgs = "[sample_config, sample_config]" and b = False]
  by (simp add: toy_service_def set_rotate_interval_def numeral_2_eq_2)

lemma toy_service_reachable: "\<exists>s. steps (init_system False) s \<and> pl s = toy_service"
proof -
  let ?s = "pool_new (\<lambda>_ _. Inl (Tunnel [])) [sample_config, sample_config] False :: nat system"
  have "steps (init_system False) ?s" by (rule pool_new_steps)
  moreover have "step ?s (?s\<lparr>pl := apply_control (Set_Interval 5) (pl ?s)\<rparr>)" by (rule step.control)
  ultimately have "steps (init_system False) (?s\<lparr>pl := apply_control (Set_Interval 5) (pl ?s)\<rparr>)"
    by (rule rtranclp.rtrancl_into_rtrancl)
  then show ?thesis
    by (intro exI [of _ "?s\<lparr>pl := apply_control (Set_Interval 5) (pl ?s)\<rparr>"]) (simp add: toy_service_def)
qed

theorem rotation_paced_and_fair_witness:
  "paced (rotator_run (replicate 6 toy_service) rotator_init)
   \<and> (\<exists>n. rotated (rotator_run (replicate 6 toy_service) rotator_init)
        = map (\<lambda>k. [1, 2] ! (k mod 2)) [0..<n])"
  using rotation_paced_and_fair [of "replicate 6 toy_service" False "[1, 2]"]
    toy_service_reachable toy_service_members by (simp add: numeral_2_eq_2 [symmetric])

end
