(* ===== verification/Task_Claims.thy ===== *)
theory Task_Claims
  imports Prelude
begin

text \<open>
  The contract between a shared state and the tasks that interleave on it. A task may claim a number,
  and while it does nobody else touches what the number stands for: the locale asks of a step that it
  leaves alone whatever its task does not claim, and gives in return that the tasks stay consistent
  and their claims apart, in any order of their steps. The daemon's handlers interpret it with the
  accounts they add.
\<close>

definition tasks_ok :: "('s \<Rightarrow> 't \<Rightarrow> bool) \<Rightarrow> ('t \<Rightarrow> nat option) \<Rightarrow> 's \<Rightarrow> 't list \<Rightarrow> bool" where
  "tasks_ok good claim s ts \<longleftrightarrow> (\<forall>t \<in> set ts. good s t)
     \<and> (\<forall>j k i. j < length ts \<and> k < length ts \<and> claim (ts ! j) = Some i \<and> claim (ts ! k) = Some i \<longrightarrow> j = k)"

lemma tasks_okD:
  assumes "tasks_ok good claim s ts" and "j < length ts"
  shows "good s (ts ! j)" and "k < length ts \<Longrightarrow> claim (ts ! j) = claim (ts ! k) \<Longrightarrow> claim (ts ! k) \<noteq> None \<Longrightarrow> j = k"
  using assms by (auto simp: tasks_ok_def)

locale task_contract =
  fixes invariant :: "'s \<Rightarrow> bool"
    and good :: "'s \<Rightarrow> 't \<Rightarrow> bool"
    and claim :: "'t \<Rightarrow> nat option"
    and limit :: "'s \<Rightarrow> nat"
    and leaves :: "nat option \<Rightarrow> 's \<Rightarrow> 's \<Rightarrow> bool"
  assumes stable: "leaves own s s' \<Longrightarrow> good s t \<Longrightarrow> own = None \<or> claim t \<noteq> own \<Longrightarrow> good s' t"
    and unclaimed: "claim t = None \<Longrightarrow> good s t"
    and below: "invariant s \<Longrightarrow> good s t \<Longrightarrow> claim t = Some i \<Longrightarrow> i < limit s"
begin

text \<open>Nobody's step, and new tasks that claim nothing.\<close>

lemma spawn:
  assumes "tasks_ok good claim s ts" and "leaves None s s'" and "\<forall>u \<in> set new. claim u = None"
  shows "tasks_ok good claim s' (ts @ new)"
proof -
  have "claim ((ts @ new) ! k) = None" if "length ts \<le> k" "k < length ts + length new" for k
    using that assms(3) by (simp add: nth_append)
  then show ?thesis
    using assms stable [OF assms(2)] unclaimed
    by (auto simp: tasks_ok_def) (metis nth_append not_le option.distinct(1))
qed

text \<open>A task moves on: it gives up its claim, keeps it, or claims the next free number.\<close>

lemma move:
  assumes "invariant s" and ts: "tasks_ok good claim s ts" and k: "k < length ts"
    and "leaves (claim (ts ! k)) s s'" and "good s' t"
    and claims: "claim t = None \<or> claim t = claim (ts ! k) \<or> claim t = Some (limit s)"
  shows "tasks_ok good claim s' (ts[k := t])"
proof -
  have alone: "claim (ts ! j) \<noteq> claim (ts ! k)" if "j < length ts" "j \<noteq> k" "claim (ts ! k) \<noteq> None" for j
    using tasks_okD(2) [OF ts that(1) k] that by auto
  have apart: "claim (ts ! j) \<noteq> claim t" if "j < length ts" "j \<noteq> k" "claim t \<noteq> None" for j
    using claims alone [OF that(1,2)] below [OF assms(1) tasks_okD(1) [OF ts that(1)], of "limit s"] that(3)
    by (metis less_irrefl)
  have "good s' (ts ! j)" if "j < length ts" "j \<noteq> k" for j
    using stable [OF assms(4) tasks_okD(1) [OF ts that(1)]] alone [OF that] by blast
  then have "good s' u" if "u \<in> set (ts[k := t])" for u
    using that k assms(5) by (auto simp: in_set_conv_nth nth_list_update split: if_splits)
  moreover have "j = l" if "j < length ts" "l < length ts" "claim (ts[k := t] ! j) = Some i"
    "claim (ts[k := t] ! l) = Some i" for j l i
    using that apart [of j] apart [of l] tasks_okD(2) [OF ts that(1,2)] k
    by (auto simp: nth_list_update split: if_splits)
  ultimately show ?thesis
    by (auto simp: tasks_ok_def)
qed

end

end
