(* ===== verification/Service.thy ===== *)
theory Service
  imports Task_Claims Pool_Service Socks
begin

text \<open>
  The running daemon: the accept loops of \<open>control.rs\<close> and \<open>socks.rs\<close>, the handlers they spawn, the
  rotator and the trace tasks of \<open>pool.rs\<close>, and the supervisors, in every interleaving of their
  sections between two suspension points. A task is a coroutine: \<open>resume\<close> runs it from the answer it
  waited for to its next wait. The handlers that the other theories model from start to end are here
  cut at their awaits, and proved to do the same when nothing else runs.
\<close>

section \<open>Tasks\<close>

text \<open>
  What each task waits for: a control connection for its next bytes, for the registration of the
  account it rotates, for a trace (with the accounts still to visit), for the registration or the
  first connection of the account it adds; a SOCKS connection for its request, and then it is on the
  direct path or in the tunnel of the netstack picked; a trace task for its turn or its answer; the
  rotator for the end of its sleep or for a registration.
\<close>

datatype 'n task =
    Ctl_Reading bytes
  | Ctl_Rotating nat rstr
  | Ctl_Tracing nat 'n "nat list"
  | Ctl_Registering nat rstr
  | Ctl_Building nat inputs
  | Ctl_Done "rstr + rstr"
  | Socks_Reading
  | Socks_Direct rstr u16
  | Socks_Via 'n rstr u16
  | Socks_Done
  | Trace_Start nat
  | Trace_Fetching nat 'n
  | Trace_Done
  | Rotator rotator
  | Rotator_Rotating rotator nat rstr

datatype 'n answer =
    Read "rstr + bytes"
  | Registered "error + warp_config"
  | Built "error + tunnel \<times> 'n"
  | Fetched trace_info
  | Asked "rstr + (rstr \<times> u16) option"
  | Woken

type_synonym 'n resumed = "'n task \<times> 'n task list \<times> 'n system"

section \<open>Control connections\<close>

definition finish_call :: "'n world \<Rightarrow> rstr + unit \<Rightarrow> 'n system \<Rightarrow> 'n resumed" where
  "finish_call W r s = (Ctl_Done (Inr (call_response (call_result W r (pl s)))), [], s)"

text \<open>The loop of \<open>refresh_trace\<close> over its snapshot, up to the next netstack to ask.\<close>

fun trace_next :: "'n world \<Rightarrow> nat list \<Rightarrow> 'n system \<Rightarrow> 'n resumed" where
  "trace_next W [] s = finish_call W (Inr ()) s"
| "trace_next W (j # ids) s =
     (case net_of (pl s) j of
        None \<Rightarrow> trace_next W ids s
      | Some net \<Rightarrow> (Ctl_Tracing j net ids, [], s))"

text \<open>A call up to its first wait. The endpoints that wait for nothing run to their end.\<close>

definition start_call :: "'n world \<Rightarrow> rstr \<Rightarrow> rstr \<Rightarrow> 'n system \<Rightarrow> 'n resumed" where
  "start_call W path query s =
     (if path = lit ''/api/rotate'' then
        (case rotate_target (slot_param query) (pl s) of
           Inl e \<Rightarrow> finish_call W (Inl (error_text e)) s
         | Inr j \<Rightarrow> (Ctl_Rotating j (account_name (pl s) j), [], s))
      else if path = lit ''/api/trace'' then
        trace_next W (filter (\<lambda>j. slot_param query = 0 \<or> j = slot_param query) (members (pl s))) s
      else if path = lit ''/api/account/add'' then
        (case reserve_id (pl s) of
           (i, p) \<Rightarrow> (Ctl_Registering i (account_name p i), [], s\<lparr>pl := p\<rparr>))
      else (case endpoint W path query (pl s) of (r, p) \<Rightarrow> finish_call W r (s\<lparr>pl := p\<rparr>)))"

definition start_request :: "'n world \<Rightarrow> rstr \<Rightarrow> bytes \<Rightarrow> 'n system \<Rightarrow> 'n resumed" where
  "start_request W token buf s =
     (case request_of token buf of
        Preflight \<Rightarrow> (Ctl_Done (Inr (plain_response (lit ''204 No Content'') [])), [], s)
      | Forbidden \<Rightarrow> (Ctl_Done (Inr forbidden_response), [], s)
      | Call path query \<Rightarrow> start_call W path query s)"

definition head_complete :: "bytes \<Rightarrow> bool" where
  "head_complete buf \<longleftrightarrow> has_blank_line buf \<or> length buf > 16 * 1024"

section \<open>SOCKS connections\<close>

text \<open>
  \<open>handle_pool\<close> from its request to the decision where the connection goes. What follows is
  \<open>via_netstack\<close>, or the direct dial, and leaves the pool alone.
\<close>

definition route_socks :: "rstr \<Rightarrow> u16 \<Rightarrow> 'n system \<Rightarrow> 'n resumed" where
  "route_socks host port s =
     (if \<not> enabled (pl s) \<or> is_loopback_host host then (Socks_Direct host port, [], s)
      else (case pick (pl s) of
              (None, p) \<Rightarrow> (Socks_Done, [], s\<lparr>pl := p\<rparr>)
            | (Some net, p) \<Rightarrow> (Socks_Via net host port, [], s\<lparr>pl := p\<rparr>)))"

section \<open>The rotator\<close>

definition resume_rotator :: "rotator \<Rightarrow> 'n system \<Rightarrow> 'n resumed" where
  "resume_rotator r s =
     (case rotator_step (pl s) r of (evs, r') \<Rightarrow>
       (case rotated evs of
          [] \<Rightarrow> (Rotator r', [], s)
        | i # _ \<Rightarrow>
            (case rotate_target i (pl s) of
               Inl _ \<Rightarrow> (Rotator r', [], s)
             | Inr j \<Rightarrow> (Rotator_Rotating r' j (account_name (pl s) j), [], s))))"

section \<open>Trace tasks\<close>

text \<open>\<open>spawn_trace\<close> in its first turn: it keeps the netstack it finds, if there is one.\<close>

definition start_trace :: "nat \<Rightarrow> 'n system \<Rightarrow> 'n task" where
  "start_trace i s = (case net_of (pl s) i of None \<Rightarrow> Trace_Done | Some net \<Rightarrow> Trace_Fetching i net)"

section \<open>Resuming a task\<close>

fun resume_reading :: "'n world \<Rightarrow> rstr \<Rightarrow> bytes \<Rightarrow> rstr + bytes \<Rightarrow> 'n system \<Rightarrow> 'n resumed" where
  "resume_reading W token buf (Inl e) s = (Ctl_Done (Inl e), [], s)"
| "resume_reading W token buf (Inr chunk) s =
     (if chunk = [] then start_request W token buf s
      else if head_complete (buf @ chunk) then start_request W token (buf @ chunk) s
      else (Ctl_Reading (buf @ chunk), [], s))"

definition store_fresh :: "nat \<Rightarrow> error + warp_config \<Rightarrow> 'n system \<Rightarrow> 'n system" where
  "store_fresh j r s = (case r of Inl _ \<Rightarrow> s | Inr cfg \<Rightarrow> s\<lparr>pl := rotate_commit j cfg (pl s)\<rparr>)"

definition resume_registering :: "'n world \<Rightarrow> nat \<Rightarrow> error + warp_config \<Rightarrow> 'n system \<Rightarrow> 'n resumed" where
  "resume_registering W i r s =
     (case r of
        Inl e \<Rightarrow> finish_call W (Inl (error_text e)) s
      | Inr cfg \<Rightarrow>
          (let inp = (cfg, transport_of (pl s)) in
           (Ctl_Building i inp, [], set_phase i (Initial False inp) (s\<lparr>pl := push_worker i cfg (pl s)\<rparr>))))"

definition resume_building :: "'n world \<Rightarrow> nat \<Rightarrow> inputs \<Rightarrow> error + tunnel \<times> 'n \<Rightarrow> 'n system \<Rightarrow> 'n resumed" where
  "resume_building W i inp r s =
     (case r of
        Inl e \<Rightarrow> finish_call W (Inl (error_text e)) (set_phase i No_Supervisor s)
      | Inr (t, net) \<Rightarrow>
          (case finish_call W (Inr ()) (set_phase i Loop_Top (upd_worker i (install_tunnel inp t net) s)) of
             (d, _, s) \<Rightarrow> (d, [Trace_Start i], s)))"

text \<open>A finished task, and one that gets an answer it does not wait for, does not run.\<close>

fun resume :: "'n world \<Rightarrow> rstr \<Rightarrow> 'n task \<Rightarrow> 'n answer \<Rightarrow> 'n system \<Rightarrow> 'n resumed option" where
  "resume W token (Ctl_Reading buf) a s =
     (case a of Read r \<Rightarrow> Some (resume_reading W token buf r s) | _ \<Rightarrow> None)"
| "resume W token (Ctl_Rotating j name) a s =
     (case a of
        Registered r \<Rightarrow> Some (finish_call W (map_err error_text (map_sum id (\<lambda>_. ()) r)) (store_fresh j r s))
      | _ \<Rightarrow> None)"
| "resume W token (Ctl_Tracing j net ids) a s =
     (case a of Fetched t \<Rightarrow> Some (trace_next W ids (upd_worker j (set_trace t) s)) | _ \<Rightarrow> None)"
| "resume W token (Ctl_Registering i name) a s =
     (case a of Registered r \<Rightarrow> Some (resume_registering W i r s) | _ \<Rightarrow> None)"
| "resume W token (Ctl_Building i inp) a s =
     (case a of Built r \<Rightarrow> Some (resume_building W i inp r s) | _ \<Rightarrow> None)"
| "resume W token (Ctl_Done r) a s = None"
| "resume W token Socks_Reading a s =
     (case a of
        Asked (Inr (Some (host, port))) \<Rightarrow> Some (route_socks host port s)
      | Asked _ \<Rightarrow> Some (Socks_Done, [], s)
      | _ \<Rightarrow> None)"
| "resume W token (Socks_Direct host port) a s = None"
| "resume W token (Socks_Via net host port) a s = None"
| "resume W token Socks_Done a s = None"
| "resume W token (Trace_Start i) a s =
     (case a of
        Woken \<Rightarrow> Some (start_trace i s, [], s)
      | _ \<Rightarrow> None)"
| "resume W token (Trace_Fetching i net) a s =
     (case a of Fetched t \<Rightarrow> Some (Trace_Done, [], upd_worker i (set_trace t) s) | _ \<Rightarrow> None)"
| "resume W token Trace_Done a s = None"
| "resume W token (Rotator r) a s = (case a of Woken \<Rightarrow> Some (resume_rotator r s) | _ \<Rightarrow> None)"
| "resume W token (Rotator_Rotating r j name) a s =
     (case a of Registered x \<Rightarrow> Some (Rotator r, [], store_fresh j x s) | _ \<Rightarrow> None)"

declare start_trace_def [simp]

section \<open>The service\<close>

record 'n service =
  sys :: "'n system"
  tasks :: "'n task list"

text \<open>The loops of \<open>control::serve\<close> and \<open>socks::serve_pool\<close>: a failed accept is ignored.\<close>

definition accept_control :: "rstr + unit \<Rightarrow> 'n service \<Rightarrow> 'n service" where
  "accept_control r \<sigma> = (case r of Inl _ \<Rightarrow> \<sigma> | Inr _ \<Rightarrow> \<sigma>\<lparr>tasks := tasks \<sigma> @ [Ctl_Reading []]\<rparr>)"

definition accept_socks :: "rstr + unit \<Rightarrow> 'n service \<Rightarrow> 'n service" where
  "accept_socks r \<sigma> = (case r of Inl _ \<Rightarrow> \<sigma> | Inr _ \<Rightarrow> \<sigma>\<lparr>tasks := tasks \<sigma> @ [Socks_Reading]\<rparr>)"

text \<open>A supervisor that has connected spawns a trace task.\<close>

definition spawned :: "nat \<Rightarrow> 'n system \<Rightarrow> 'n system \<Rightarrow> 'n task list" where
  "spawned i s s' =
     (case phase_of s i of
        Building b inp \<Rightarrow> (if phase_of s' i = Loop_Top then [Trace_Start i] else [])
      | _ \<Rightarrow> [])"

datatype 'n label =
    Worker nat
  | Accept_Control "rstr + unit"
  | Accept_Socks "rstr + unit"
  | Run nat "'n answer"

inductive service_step :: "'n world \<Rightarrow> rstr \<Rightarrow> 'n label \<Rightarrow> 'n service \<Rightarrow> 'n service \<Rightarrow> bool"
  for W token where
  worker: "worker_step i (sys \<sigma>) s' \<Longrightarrow>
    service_step W token (Worker i) \<sigma> \<lparr>sys = s', tasks = tasks \<sigma> @ spawned i (sys \<sigma>) s'\<rparr>"
| accept_control: "service_step W token (Accept_Control r) \<sigma> (accept_control r \<sigma>)"
| accept_socks: "service_step W token (Accept_Socks r) \<sigma> (accept_socks r \<sigma>)"
| run: "k < length (tasks \<sigma>) \<Longrightarrow> resume W token (tasks \<sigma> ! k) a (sys \<sigma>) = Some (t, new, s') \<Longrightarrow>
    service_step W token (Run k a) \<sigma> \<lparr>sys = s', tasks = (tasks \<sigma>)[k := t] @ new\<rparr>"

inductive_cases service_stepE: "service_step W token l \<sigma> \<sigma>'"

inductive service_run :: "'n world \<Rightarrow> rstr \<Rightarrow> 'n service \<Rightarrow> 'n label list \<Rightarrow> 'n service \<Rightarrow> bool"
  for W token where
  idle: "service_run W token \<sigma> [] \<sigma>"
| more: "service_run W token \<sigma> ls \<sigma>' \<Longrightarrow> service_step W token l \<sigma>' \<sigma>'' \<Longrightarrow>
    service_run W token \<sigma> (ls @ [l]) \<sigma>''"

text \<open>What \<open>Pool::new\<close> leaves running: the supervisors and the rotator.\<close>

definition start_service :: "'n system \<Rightarrow> 'n service" where
  "start_service s = \<lparr>sys = s, tasks = [Rotator rotator_init]\<rparr>"

section \<open>Every run is a run of the supervisors\<close>

text \<open>The account a task is adding.\<close>

fun adding :: "'n task \<Rightarrow> nat option" where
  "adding (Ctl_Registering i name) = Some i"
| "adding (Ctl_Building i inp) = Some i"
| "adding _ = None"

text \<open>An id reserved is still free; an account pushed waits for its first connection.\<close>

fun task_ok :: "'n system \<Rightarrow> 'n task \<Rightarrow> bool" where
  "task_ok s (Ctl_Registering i name) \<longleftrightarrow> 0 < i \<and> i < next_id (pl s) \<and> store (pl s) i = None"
| "task_ok s (Ctl_Building i inp) \<longleftrightarrow> phase_of s i = Initial False inp"
| "task_ok s _ \<longleftrightarrow> True"

lemma task_ok_other: "adding t = None \<Longrightarrow> task_ok s t"
  by (cases t) simp_all

lemma finish_call_simps [simp]:
  "finish_call W r s = (t, new, s') \<longleftrightarrow>
     t = Ctl_Done (Inr (call_response (call_result W r (pl s)))) \<and> new = [] \<and> s' = s"
  by (auto simp: finish_call_def)

lemma trace_next_same:
  "trace_next W ids s = (t, new, s') \<Longrightarrow> adding t = None \<and> new = [] \<and> s' = s"
  by (induction ids) (auto split: option.splits)

text \<open>What a task can do to the rest of the service: it leaves the accounts that others add alone.\<close>

definition undisturbed :: "nat option \<Rightarrow> 'n system \<Rightarrow> 'n system \<Rightarrow> bool" where
  "undisturbed own s s' \<longleftrightarrow> next_id (pl s) \<le> next_id (pl s')
     \<and> (\<forall>i. own \<noteq> Some i \<longrightarrow>
          (store (pl s) i = None \<longrightarrow> store (pl s') i = None)
          \<and> (\<forall>inp. phase_of s i = Initial False inp \<longrightarrow> phase_of s' i = Initial False inp))"

lemma undisturbed_refl [simp]: "undisturbed own s s"
  by (simp add: undisturbed_def)

lemma undisturbed_task_ok:
  assumes "undisturbed own s s'" and "task_ok s t" and "own = None \<or> adding t \<noteq> own"
  shows "task_ok s' t"
  using assms by (cases t) (auto simp: undisturbed_def)

lemma undisturbed_control [simp]: "undisturbed own s (s\<lparr>pl := apply_control c (pl s)\<rparr>)"
proof -
  have "store (apply_control c (pl s)) i = None \<longleftrightarrow> store (pl s) i = None" for i
    using control_shape(1) [of c "pl s"] domIff by metis
  then show ?thesis
    by (simp add: undisturbed_def control_shape(4))
qed

lemma undisturbed_fold: "undisturbed own s (s\<lparr>pl := fold apply_control cs (pl s)\<rparr>)"
proof (induction cs arbitrary: s)
  case (Cons c cs)
  have "undisturbed own s (s\<lparr>pl := apply_control c (pl s)\<rparr>)" by simp
  with Cons.IH [of "s\<lparr>pl := apply_control c (pl s)\<rparr>"] show ?case
    by (auto simp: undisturbed_def)
qed simp

text \<open>A part of a handler that is a sequence of control steps.\<close>

definition controls :: "'n system \<Rightarrow> 'n system \<Rightarrow> bool" where
  "controls s s' \<longleftrightarrow> (\<exists>cs. s' = s\<lparr>pl := fold apply_control cs (pl s)\<rparr>)"

lemma controls_refl [simp]: "controls s s"
  unfolding controls_def by (rule exI [of _ "[]"]) simp

lemma controls_one: "s' = s\<lparr>pl := apply_control c (pl s)\<rparr> \<Longrightarrow> controls s s'"
  unfolding controls_def by (rule exI [of _ "[c]"]) simp

lemma controls_steps: "controls s s' \<Longrightarrow> steps s s' \<and> undisturbed own s s'"
  by (auto simp: controls_def steps_controls undisturbed_fold)

lemma controls_store_fresh: "controls s (store_fresh j r s)"
  by (cases r) (auto simp: store_fresh_def intro: controls_one [where c = "Rotate_Commit j _"])

lemma controls_set_trace: "controls s (upd_worker i (set_trace t) s)"
  by (rule controls_one [where c = "Store_Trace i t"]) (simp add: upd_worker_def)

lemma controls_route_socks: "route_socks host port s = (t, new, s') \<Longrightarrow> controls s s' \<and> adding t = None \<and> new = []"
  by (auto simp: route_socks_def split: if_splits prod.splits option.splits intro!: controls_one [where c = Pick])

lemma controls_rotator: "resume_rotator r s = (t, new, s') \<Longrightarrow> s' = s \<and> adding t = None \<and> new = []"
  by (auto simp: resume_rotator_def split: prod.splits list.splits sum.splits)

lemma controls_start_call:
  assumes "start_call W path query s = (t, new, s')"
  shows "controls s s' \<and> new = [] \<and> (adding t = None
    \<or> (\<exists>name. t = Ctl_Registering (next_id (pl s)) name) \<and> next_id (pl s') = next_id (pl s) + 1
      \<and> store (pl s') = store (pl s))"
proof -
  consider (rotate) "path = lit ''/api/rotate''" | (trace) "path = lit ''/api/trace''"
    | (add) "path = lit ''/api/account/add''"
    | (other) "path \<noteq> lit ''/api/rotate''" "path \<noteq> lit ''/api/trace''" "path \<noteq> lit ''/api/account/add''"
    by blast
  then show ?thesis
  proof cases
    case rotate
    with assms show ?thesis by (auto simp: start_call_def split: sum.splits)
  next
    case trace
    have ne: "lit ''/api/trace'' \<noteq> lit ''/api/rotate''" by (simp add: lit_simps)
    from assms trace ne show ?thesis
      by (auto simp: start_call_def dest!: trace_next_same)
  next
    case add
    have ne: "lit ''/api/account/add'' \<noteq> lit ''/api/rotate''" "lit ''/api/account/add'' \<noteq> lit ''/api/trace''"
      by (simp_all add: lit_simps)
    have "controls s (s\<lparr>pl := snd (reserve_id (pl s))\<rparr>)"
      by (rule controls_one [where c = Reserve_Id]) simp
    with assms add ne show ?thesis
      by (auto simp: start_call_def reserve_id_def)
  next
    case other
    obtain cs where "snd (endpoint W path query (pl s)) = fold apply_control cs (pl s)"
      using endpoint_controls [OF other(3)] by blast
    with assms other show ?thesis
      by (auto simp: start_call_def controls_def split: prod.splits)
  qed
qed

definition task_effect :: "'n task \<Rightarrow> 'n system \<Rightarrow> 'n resumed \<Rightarrow> bool" where
  "task_effect t s r \<longleftrightarrow> (case r of (t', new, s') \<Rightarrow>
     steps s s' \<and> undisturbed (adding t) s s' \<and> task_ok s' t' \<and> (\<forall>u \<in> set new. adding u = None)
     \<and> (adding t' = None \<or> adding t' = adding t
        \<or> adding t' = Some (next_id (pl s)) \<and> next_id (pl s') = next_id (pl s) + 1))"

lemma controls_effect:
  assumes "controls s s'" and "adding t' = None" and "new = []"
  shows "task_effect t s (t', new, s')"
  using assms controls_steps [OF assms(1)] by (simp add: task_effect_def task_ok_other)

lemma start_call_effect:
  assumes "system_inv s"
  shows "task_effect t s (start_call W path query s)"
proof -
  obtain t' new s' where r: "start_call W path query s = (t', new, s')"
    by (cases "start_call W path query s")
  note c = controls_start_call [OF r]
  show ?thesis
  proof (cases "adding t' = None")
    case True
    with c r show ?thesis by (simp add: controls_effect)
  next
    case False
    with c obtain name where t': "t' = Ctl_Registering (next_id (pl s)) name"
      "next_id (pl s') = next_id (pl s) + 1" "store (pl s') = store (pl s)"
      by auto
    have "reserve_id (pl s) = (next_id (pl s), pl s\<lparr>next_id := next_id (pl s) + 1\<rparr>)"
      by (simp add: reserve_id_def)
    with reserved [OF assms this] t' c r controls_steps show ?thesis
      by (auto simp: task_effect_def)
  qed
qed

lemma start_request_effect:
  assumes "system_inv s"
  shows "task_effect t s (start_request W token buf s)"
  using start_call_effect [OF assms]
  by (auto simp: start_request_def intro!: controls_effect split: request.split)

lemma resume_reading_effect:
  assumes "system_inv s"
  shows "task_effect t s (resume_reading W token buf r s)"
  using start_request_effect [OF assms] by (cases r) (auto intro!: controls_effect)

lemma resume_registering_effect:
  assumes "task_ok s (Ctl_Registering i name)"
  shows "task_effect (Ctl_Registering i name) s (resume_registering W i r s)"
proof (cases r)
  case (Inl e)
  then show ?thesis
    by (simp add: resume_registering_def finish_call_def controls_effect)
next
  case (Inr cfg)
  let ?s = "set_phase i (Initial False (cfg, transport_of (pl s))) (s\<lparr>pl := push_worker i cfg (pl s)\<rparr>)"
  have "step s ?s"
    using assms by (intro step.push) simp_all
  then show ?thesis
    using Inr assms
    by (auto simp: resume_registering_def task_effect_def undisturbed_def set_phase_def push_worker_def Let_def)
qed

lemma resume_building_effect:
  assumes "phase_of s i = Initial False inp"
  shows "task_effect (Ctl_Building i inp) s (resume_building W i inp r s)"
proof (cases r)
  case (Inl e)
  have "step s (set_phase i No_Supervisor s)"
    using step.initial_err [OF assms] by simp
  with Inl show ?thesis
    by (auto simp: resume_building_def finish_call_def task_effect_def undisturbed_def set_phase_def)
next
  case (Inr tn)
  obtain t net where tn: "tn = (t, net)" by (cases tn)
  have "step s (set_phase i Loop_Top (upd_worker i (install_tunnel inp t net) s))"
    by (rule step.initial_ok [OF assms])
  with Inr tn show ?thesis
    by (auto simp: resume_building_def finish_call_def task_effect_def undisturbed_def set_phase_def
        upd_worker_def)
qed

lemma resume_effect:
  assumes "resume W token t a s = Some r" and "system_inv s" and "task_ok s t"
  shows "task_effect t s r"
proof (cases t)
  case (Ctl_Reading buf)
  with assms show ?thesis by (auto simp: resume_reading_effect split: answer.splits)
next
  case (Ctl_Registering i name)
  with assms show ?thesis
    using resume_registering_effect [of s i name] by (auto split: answer.splits)
next
  case (Ctl_Building i inp)
  with assms show ?thesis using resume_building_effect [of s i inp] by (auto split: answer.splits)
next
  case (Ctl_Tracing j net ids)
  with assms show ?thesis
    by (cases r) (auto dest!: trace_next_same intro!: controls_effect controls_set_trace split: answer.splits)
next
  case Socks_Reading
  with assms show ?thesis
    using controls_route_socks
    by (cases r) (fastforce intro!: controls_effect split: answer.splits sum.splits option.splits)
next
  case (Rotator ro)
  with assms show ?thesis
    using controls_rotator by (cases r) (fastforce intro!: controls_effect split: answer.splits)
qed (use assms in \<open>auto simp: finish_call_def controls_store_fresh controls_set_trace intro!: controls_effect
    split: answer.splits option.splits\<close>)

lemma adding_below:
  assumes "system_inv s" and "task_ok s t" and "adding t = Some i"
  shows "i < next_id (pl s)"
proof (cases t)
  case (Ctl_Building j inp)
  with assms(2,3) have "phase_of s i \<noteq> No_Supervisor" by simp
  then obtain w where "store (pl s) i = Some w" using phase_stored [OF assms(1)] by blast
  then show ?thesis by (rule system_invD(2) [OF assms(1)])
qed (use assms in simp_all)

interpretation accounts: task_contract system_inv task_ok adding "\<lambda>s. next_id (pl s)" undisturbed
  by unfold_locales (fact undisturbed_task_ok, fact task_ok_other, fact adding_below)

text \<open>The invariant of the service: no two tasks add the same account.\<close>

definition service_inv :: "'n service \<Rightarrow> bool" where
  "service_inv \<sigma> \<longleftrightarrow> system_inv (sys \<sigma>) \<and> tasks_ok task_ok adding (sys \<sigma>) (tasks \<sigma>)"

lemma worker_undisturbed:
  assumes "worker_step i s s'"
  shows "undisturbed None s s'"
  using assms by cases (auto simp: undisturbed_def set_phase_def upd_worker_def)

lemma service_inv_spawn:
  assumes "service_inv \<sigma>" and "steps (sys \<sigma>) s'" and "undisturbed None (sys \<sigma>) s'"
    and "\<forall>u \<in> set new. adding u = None"
  shows "service_inv \<lparr>sys = s', tasks = tasks \<sigma> @ new\<rparr>"
  using assms accounts.spawn [OF _ assms(3,4)] steps_inv [OF assms(2)] by (simp add: service_inv_def)

lemma service_inv_run:
  assumes "service_inv \<sigma>" and "k < length (tasks \<sigma>)"
    and "task_effect (tasks \<sigma> ! k) (sys \<sigma>) (t, new, s')"
  shows "service_inv \<lparr>sys = s', tasks = (tasks \<sigma>)[k := t] @ new\<rparr>"
proof -
  note e = assms(3) [unfolded task_effect_def, simplified]
  have "service_inv \<lparr>sys = s', tasks = (tasks \<sigma>)[k := t]\<rparr>"
    using assms(1,2) e accounts.move [of "sys \<sigma>" "tasks \<sigma>" k s' t] steps_inv [of "sys \<sigma>" s']
    by (auto simp: service_inv_def)
  from service_inv_spawn [OF this, of s' new] e show ?thesis by simp
qed

lemma set_tasks_eq: "\<sigma>\<lparr>tasks := ts\<rparr> = \<lparr>sys = sys \<sigma>, tasks = ts\<rparr>"
  by (cases \<sigma>) simp

text \<open>A step of the service is a run of the supervisors' relation.\<close>

lemma service_step_refines:
  assumes "service_step W token l \<sigma> \<sigma>'" and "service_inv \<sigma>"
  shows "steps (sys \<sigma>) (sys \<sigma>') \<and> service_inv \<sigma>'"
  using assms(1)
proof cases
  case (worker i s')
  have "steps (sys \<sigma>) s'"
    using step.worker [OF worker(3)] by (rule r_into_rtranclp)
  moreover have "\<forall>u \<in> set (spawned i (sys \<sigma>) s'). adding u = None"
    by (simp add: spawned_def split: phase.split)
  ultimately show ?thesis
    using worker service_inv_spawn [OF assms(2) _ worker_undisturbed [OF worker(3)]] by simp
next
  case (accept_control r)
  then show ?thesis
    using assms(2) service_inv_spawn [OF assms(2), of "sys \<sigma>" "[Ctl_Reading []]"]
    by (cases r) (simp_all add: accept_control_def set_tasks_eq)
next
  case (accept_socks r)
  then show ?thesis
    using assms(2) service_inv_spawn [OF assms(2), of "sys \<sigma>" "[Socks_Reading]"]
    by (cases r) (simp_all add: accept_socks_def set_tasks_eq)
next
  case (run k a t new s')
  have "task_effect (tasks \<sigma> ! k) (sys \<sigma>) (t, new, s')"
    using assms(2) run(3,4) by (intro resume_effect) (auto simp: service_inv_def tasks_ok_def)
  with service_inv_run [OF assms(2) run(3) this] run show ?thesis
    by (simp add: task_effect_def)
qed

lemma service_run_refines:
  assumes "service_run W token \<sigma> ls \<sigma>'" and "service_inv \<sigma>"
  shows "steps (sys \<sigma>) (sys \<sigma>') \<and> service_inv \<sigma>'"
  using assms by (induction) (auto dest: service_step_refines)

lemma start_service_inv: "steps (init_system b) s \<Longrightarrow> service_inv (start_service s)"
  by (simp add: service_inv_def tasks_ok_def start_service_def reachable_inv)

lemma finish_call_rest [simp]: "snd (finish_call W r s) = ([], s)"
  by (simp add: finish_call_def)

lemma trace_next_rest [simp]: "snd (trace_next W ids s) = ([], s)"
  by (induction ids) (auto split: option.split)

lemma set_phase_pl [simp]: "pl (set_phase i ph s) = pl s"
  by (simp add: set_phase_def)

lemma service_run_append:
  assumes "service_run W token \<sigma>2 ls2 \<sigma>3" and "service_run W token \<sigma>1 ls1 \<sigma>2"
  shows "service_run W token \<sigma>1 (ls1 @ ls2) \<sigma>3"
  using assms by (induction) (simp, metis append.assoc service_run.more)

lemma service_run_one: "service_step W token l \<sigma> \<sigma>' \<Longrightarrow> service_run W token \<sigma> [l] \<sigma>'"
  using service_run.more [OF service_run.idle, of W token l \<sigma> \<sigma>'] by simp

text \<open>A complete \<open>GET\<close> with the token starts its call at once.\<close>

lemma http_get_complete: "head_complete (utf8 (http_get target token))"
proof -
  have blank: "has_blank_line (x @ [13, 10, 13, 10])" for x
    unfolding has_blank_line_def by (rule exI [of _ "length x"]) simp
  have "utf8 crlf = [13, 10]"
    by (simp add: utf8_def crlf_def utf8_char_def utf8_nats_def)
  then show ?thesis
    using blank [of "utf8 (lit ''GET '' @ target @ lit '' HTTP/1.1'' @ crlf @ lit ''X-Warp-Token: '' @ token)"]
    by (simp add: head_complete_def http_get_def utf8_append)
qed

lemma resume_get:
  assumes "plain_text (path @ 63 # query)" and "63 \<notin> set path" and "plain_text token"
  shows "resume W token (Ctl_Reading []) (Read (Inr (utf8 (http_get (path @ 63 # query) token)))) s
    = Some (start_call W path query s)"
  using request_of_get [OF assms] http_get_complete [of "path @ 63 # query" token]
  by (auto simp: start_request_def)

section \<open>Properties\<close>

text \<open>
  C4. The whole service refines the step relation: whatever the two accept loops, the handlers they
  spawn, the rotator, the trace tasks and the supervisors interleave, the pool is always that of a
  reachable state of the supervisors, so everything proved of those holds of the running daemon; and
  two handlers that add accounts at the same time add different ones, under ids never handed out
  again.
\<close>

theorem service_refines:
  assumes "steps (init_system b) s" and "service_run W token (start_service s) ls \<sigma>"
  shows "steps (init_system b) (sys \<sigma>)
    \<and> (j < length (tasks \<sigma>) \<and> k < length (tasks \<sigma>) \<and> adding (tasks \<sigma> ! j) = Some i \<longrightarrow>
         i < next_id (pl (sys \<sigma>)) \<and> (adding (tasks \<sigma> ! k) = Some i \<longrightarrow> j = k))"
proof -
  have inv: "steps s (sys \<sigma>)" "service_inv \<sigma>"
    using service_run_refines [OF assms(2) start_service_inv [OF assms(1)]]
    by (simp_all add: start_service_def)
  moreover have "i < next_id (pl (sys \<sigma>))" if "j < length (tasks \<sigma>)" "adding (tasks \<sigma> ! j) = Some i"
    using that inv(2) by (intro adding_below [of _ "tasks \<sigma> ! j"]) (auto simp: service_inv_def dest: tasks_okD(1))
  ultimately show ?thesis
    using assms(1) by (auto simp: service_inv_def dest: tasks_okD(2))
qed

section \<open>Witnesses\<close>

lemma toy_plain: "plain_text (lit ''tok'')" "plain_text (lit ''/api/account/add'' @ 63 # [])"
  "plain_text (lit ''/api/toggle'' @ 63 # lit ''on=0'')" "63 \<notin> set (lit ''/api/account/add'')"
  "63 \<notin> set (lit ''/api/toggle'')"
  by (simp_all add: plain_text_def lit_simps scalar_def is_whitespace_def)

definition toy_add :: "nat answer" where
  "toy_add = Read (Inr (utf8 (http_get (lit ''/api/account/add'' @ 63 # []) (lit ''tok''))))"

definition toy_toggle :: "nat answer" where
  "toy_toggle = Read (Inr (utf8 (http_get (lit ''/api/toggle'' @ 63 # lit ''on=0'') (lit ''tok''))))"

lemma toy_add_starts:
  "resume toy_world (lit ''tok'') (Ctl_Reading []) toy_add s
    = Some (Ctl_Registering (next_id (pl s)) (account_name (pl s) (next_id (pl s))), [],
        s\<lparr>pl := snd (reserve_id (pl s))\<rparr>)"
  unfolding toy_add_def
  by (subst resume_get [OF toy_plain(2,4,1)])
    (simp add: start_call_def reserve_id_def account_name_def lit_simps)

lemma toy_toggle_starts:
  "\<exists>r. resume toy_world (lit ''tok'') (Ctl_Reading []) toy_toggle s
    = Some (Ctl_Done r, [], s\<lparr>pl := set_enabled False (pl s)\<rparr>)"
proof -
  have "lit ''on=0'' = lit ''on'' @ 61 # lit ''0''" by (simp add: lit_simps)
  then have "param (lit ''on=0'') (lit ''on'') = Some (lit ''0'')"
    by (simp only:) (rule param_single, simp_all add: lit_simps)
  then have "bool_param (lit ''on=0'') (lit ''on'') True = False"
    by (simp add: bool_param_def lit_simps)
  then have "endpoint toy_world (lit ''/api/toggle'') (lit ''on=0'') (pl s) = (Inr (), set_enabled False (pl s))"
    by (simp add: endpoint_def lit_simps)
  then show ?thesis
    unfolding toy_toggle_def
    by (subst resume_get [OF toy_plain(3,5,1)]) (simp add: start_call_def finish_call_def lit_simps)
qed

lemma service_run_cons:
  "service_step W token l \<sigma> \<sigma>1 \<Longrightarrow> service_run W token \<sigma>1 ls \<sigma>' \<Longrightarrow> service_run W token \<sigma> (l # ls) \<sigma>'"
  using service_run_append [of W token \<sigma>1 ls \<sigma>' \<sigma> "[l]"] service_run_one by fastforce

lemma service_run_accept:
  "service_run W token \<lparr>sys = s, tasks = ts @ [Ctl_Reading []]\<rparr> ls \<sigma>' \<Longrightarrow>
    service_run W token \<lparr>sys = s, tasks = ts\<rparr> (Accept_Control (Inr ()) # ls) \<sigma>'"
  using service_step.accept_control [of W token "Inr ()" "\<lparr>sys = s, tasks = ts\<rparr>"]
  by (auto simp: accept_control_def intro: service_run_cons)

lemma service_run_resume:
  assumes "service_run W token \<lparr>sys = s', tasks = ts[k := t] @ new\<rparr> ls \<sigma>'"
    and "k < length ts" and "resume W token (ts ! k) a s = Some (t, new, s')"
  shows "service_run W token \<lparr>sys = s, tasks = ts\<rparr> (Run k a # ls) \<sigma>'"
  using service_step.run [of k "\<lparr>sys = s, tasks = ts\<rparr>" W token a t new s'] assms
  by (auto intro: service_run_cons)

text \<open>Two clients add an account at the same time.\<close>

definition toy_name :: "nat \<Rightarrow> rstr" where
  "toy_name i = account_name (pool_init False :: nat pool) i"

definition toy_adds :: "nat service" where
  "toy_adds = \<lparr>sys = (init_system False)\<lparr>pl := (pool_init False)\<lparr>next_id := 3\<rparr>\<rparr>,
     tasks = [Rotator rotator_init, Ctl_Registering 1 (toy_name 1), Ctl_Registering 2 (toy_name 2)]\<rparr>"

lemma toy_adds_run:
  "service_run toy_world (lit ''tok'') (start_service (init_system False))
    [Accept_Control (Inr ()), Accept_Control (Inr ()), Run 1 toy_add, Run 2 toy_add] toy_adds"
proof -
  let ?s = "\<lambda>n. (init_system False)\<lparr>pl := (pool_init False)\<lparr>next_id := n\<rparr>\<rparr> :: nat system"
  let ?ts = "[Rotator rotator_init, Ctl_Reading [], Ctl_Reading []]"
  have one: "resume toy_world (lit ''tok'') (?ts ! 1) toy_add (init_system False)
      = Some (Ctl_Registering 1 (toy_name 1), [], ?s 2)"
    by (simp add: toy_add_starts toy_name_def account_name_def init_system_def pool_init_def reserve_id_def
        del: resume.simps)
  have two: "resume toy_world (lit ''tok'') (?ts[1 := Ctl_Registering 1 (toy_name 1)] ! 2) toy_add (?s 2)
      = Some (Ctl_Registering 2 (toy_name 2), [], ?s 3)"
    by (simp add: toy_add_starts toy_name_def account_name_def init_system_def pool_init_def reserve_id_def
        del: resume.simps)
  have "service_run toy_world (lit ''tok'') \<lparr>sys = ?s 2, tasks = ?ts[1 := Ctl_Registering 1 (toy_name 1)] @ []\<rparr>
      [Run 2 toy_add] toy_adds"
    using service_run_resume [OF service_run.idle _ two]
    by (simp add: toy_adds_def)
  from service_run_resume [OF this _ one]
  have "service_run toy_world (lit ''tok'') \<lparr>sys = init_system False, tasks = ?ts\<rparr>
      [Run 1 toy_add, Run 2 toy_add] toy_adds"
    by simp
  then show ?thesis
    unfolding start_service_def by (intro service_run_accept) simp
qed

theorem service_refines_witness:
  "steps (init_system False) (sys toy_adds) \<and> adding (tasks toy_adds ! 1) = Some 1
    \<and> adding (tasks toy_adds ! 2) \<noteq> Some 1"
  using service_refines [OF rtranclp.rtrancl_refl toy_adds_run, of 1 2 1]
  by (simp add: toy_adds_def)

end
