(* ===== verification/Service_Token.thy ===== *)
theory Service_Token
  imports Service
begin

text \<open>
  What a run of the service does without its token: the settings, the accounts and the way connections
  are routed stay as they are, until a control connection has shown the token.
\<close>

section \<open>What the token protects\<close>

text \<open>A step in which a control connection has shown the token.\<close>

fun authorised :: "rstr \<Rightarrow> 'n service \<Rightarrow> 'n label \<Rightarrow> bool" where
  "authorised token \<sigma> (Run k (Read (Inr chunk))) \<longleftrightarrow>
     (case tasks \<sigma> ! k of
        Ctl_Reading buf \<Rightarrow>
          (\<exists>l \<in> set (split_str crlf (from_utf8_lossy (buf @ chunk))). token_header l = Some token)
      | _ \<Rightarrow> False)"
| "authorised token \<sigma> _ \<longleftrightarrow> False"

definition settings :: "'n pool \<Rightarrow> bool \<times> nat \<times> bool \<times> nat \<times> nat list \<times> nat" where
  "settings p = (enabled p, pinned p, http2 p, rotate_secs p, members p, next_id p)"

definition configs :: "'n pool \<Rightarrow> nat \<Rightarrow> warp_config option" where
  "configs p i = map_option w_config (store p i)"

text \<open>Tasks that no longer act for an authorised call, nor for the rotator.\<close>

fun idle :: "'n task \<Rightarrow> bool" where
  "idle (Ctl_Rotating j name) \<longleftrightarrow> False"
| "idle (Ctl_Registering i name) \<longleftrightarrow> False"
| "idle (Rotator_Rotating r j name) \<longleftrightarrow> False"
| "idle _ \<longleftrightarrow> True"

lemma idle_done [simp]: "idle (fst (finish_call W r s))"
  by (simp add: finish_call_def)

lemma trace_next_idle [simp]: "idle (fst (trace_next W ids s))"
  by (induction ids) (auto split: option.split)

lemma upd_worker_settings [simp]:
  "settings (pl (upd_worker i f s)) = settings (pl s)"
  by (simp add: upd_worker_def settings_def)

lemma upd_worker_configs:
  "\<forall>w. w_config (f w) = w_config w \<Longrightarrow> configs (pl (upd_worker i f s)) = configs (pl s)"
  by (intro ext) (simp add: upd_worker_def configs_def option.map_comp o_def)

lemma worker_step_settings:
  assumes "worker_step i s s'"
  shows "settings (pl s') = settings (pl s) \<and> configs (pl s') = configs (pl s)"
  using assms by cases (simp_all add: upd_worker_configs worker_ops)

text \<open>A task leaves the settings alone unless its connection has shown the token.\<close>

definition keeps :: "'n system \<Rightarrow> 'n resumed \<Rightarrow> bool" where
  "keeps s r \<longleftrightarrow> (case r of (t, new, s') \<Rightarrow>
     settings (pl s') = settings (pl s) \<and> configs (pl s') = configs (pl s) \<and> idle t
     \<and> (\<forall>u \<in> set new. idle u))"

lemma keeps_same [simp]: "keeps s (t, [], s) \<longleftrightarrow> idle t"
  by (simp add: keeps_def)

lemma keeps_finish [simp]: "keeps s (finish_call W r s)"
  by (simp add: finish_call_def)

lemma keeps_set_trace: "keeps s (Trace_Done, [], upd_worker i (set_trace t) s)"
  by (simp add: keeps_def upd_worker_configs set_trace_def)

lemma keeps_trace: "keeps s (trace_next W ids (upd_worker j (set_trace t) s))"
  using trace_next_idle [of W ids "upd_worker j (set_trace t) s"] trace_next_rest [of W ids "upd_worker j (set_trace t) s"]
  by (cases "trace_next W ids (upd_worker j (set_trace t) s)")
    (simp add: keeps_def upd_worker_configs set_trace_def)

lemma keeps_building: "keeps s (resume_building W i inp r s)"
  by (auto simp: keeps_def resume_building_def finish_call_def upd_worker_configs install_tunnel_def
      split: sum.split)

lemma keeps_route_socks: "keeps s (route_socks host port s)"
proof -
  obtain net p where p: "pick (pl s) = (net, p)" by (cases "pick (pl s)")
  then have "settings p = settings (pl s)" "configs p = configs (pl s)"
    using pick_rr_start [OF p] by (auto simp: settings_def configs_def)
  with p show ?thesis
    by (auto simp: keeps_def route_socks_def split: option.split)
qed

lemma keeps_rotator: "rotate_secs (pl s) = 0 \<Longrightarrow> keeps s (resume_rotator r s)"
  by (simp add: keeps_def resume_rotator_def rotator_step_def split: rot_phase.split)

lemma keeps_reading:
  assumes "token \<noteq> []"
    and "\<And>chunk l. r = Inr chunk \<Longrightarrow> l \<in> set (split_str crlf (from_utf8_lossy (buf @ chunk)))
      \<Longrightarrow> token_header l \<noteq> Some token"
  shows "keeps s (resume_reading W token buf r s)"
proof (cases r)
  case (Inr chunk)
  have "request_of token (buf @ chunk) \<noteq> Call path query" for path query
    using call_has_token [OF assms(1)] assms(2) [OF Inr] by blast
  then have "keeps s (start_request W token (buf @ chunk) s)"
    by (auto simp: start_request_def split: request.split)
  with Inr show ?thesis by auto
qed simp

lemma resume_keeps:
  assumes "resume W token t a s = Some r" and "token \<noteq> []" and "idle t" and "rotate_secs (pl s) = 0"
    and "\<And>buf chunk l. t = Ctl_Reading buf \<Longrightarrow> a = Read (Inr chunk)
      \<Longrightarrow> l \<in> set (split_str crlf (from_utf8_lossy (buf @ chunk))) \<Longrightarrow> token_header l \<noteq> Some token"
  shows "keeps s r"
proof (cases t)
  case (Ctl_Reading buf)
  with assms show ?thesis by (auto intro!: keeps_reading split: answer.splits)
qed (use assms in \<open>auto simp: keeps_trace keeps_building keeps_route_socks keeps_rotator keeps_set_trace
    split: answer.splits sum.splits option.splits\<close>)

inductive quiet_run :: "'n world \<Rightarrow> rstr \<Rightarrow> 'n service \<Rightarrow> 'n service \<Rightarrow> bool" for W token where
  idle: "quiet_run W token \<sigma> \<sigma>"
| more: "quiet_run W token \<sigma> \<sigma>' \<Longrightarrow> service_step W token l \<sigma>' \<sigma>'' \<Longrightarrow> \<not> authorised token \<sigma>' l \<Longrightarrow>
    quiet_run W token \<sigma> \<sigma>''"

lemma run_quiet_or_authorised:
  assumes "service_run W token \<sigma> ls \<sigma>'"
  shows "quiet_run W token \<sigma> \<sigma>' \<or> (\<exists>before l after \<sigma>1. ls = before @ l # after
    \<and> service_run W token \<sigma> before \<sigma>1 \<and> authorised token \<sigma>1 l)"
  using assms
proof (induction rule: service_run.induct)
  case (idle \<sigma>)
  show ?case by (simp add: quiet_run.idle)
next
  case (more \<sigma> ls \<sigma>' l \<sigma>'')
  then show ?case
    using quiet_run.more [of W token \<sigma> \<sigma>' l \<sigma>''] by (metis append.assoc append_Cons)
qed

definition undisturbed_settings :: "'n service \<Rightarrow> 'n service \<Rightarrow> bool" where
  "undisturbed_settings \<sigma> \<sigma>' \<longleftrightarrow> settings (pl (sys \<sigma>')) = settings (pl (sys \<sigma>))
     \<and> configs (pl (sys \<sigma>')) = configs (pl (sys \<sigma>)) \<and> (\<forall>t \<in> set (tasks \<sigma>'). idle t)"

lemma quiet_step_keeps:
  assumes "service_step W token l \<sigma> \<sigma>'" and "\<not> authorised token \<sigma> l" and "token \<noteq> []"
    and "\<forall>t \<in> set (tasks \<sigma>). idle t" and "rotate_secs (pl (sys \<sigma>)) = 0"
  shows "undisturbed_settings \<sigma> \<sigma>'"
  using assms(1)
proof cases
  case (worker i s')
  have "\<forall>t \<in> set (spawned i (sys \<sigma>) s'). idle t"
    by (simp add: spawned_def split: phase.split)
  with worker assms(4) worker_step_settings [OF worker(3)] show ?thesis
    by (auto simp: undisturbed_settings_def)
next
  case (accept_control r)
  with assms(4) show ?thesis by (cases r) (auto simp: undisturbed_settings_def accept_control_def)
next
  case (accept_socks r)
  with assms(4) show ?thesis by (cases r) (auto simp: undisturbed_settings_def accept_socks_def)
next
  case (run k a t new s')
  have "keeps (sys \<sigma>) (t, new, s')"
    using assms(2,4) run(1,3)
    by (intro resume_keeps [OF run(4) assms(3) _ assms(5)]) auto
  with run assms(4) set_update_subset_insert [of "tasks \<sigma>" k t] show ?thesis
    by (auto simp: undisturbed_settings_def keeps_def)
qed

lemma quiet_run_keeps:
  assumes "quiet_run W token \<sigma> \<sigma>'" and "token \<noteq> []" and "\<forall>t \<in> set (tasks \<sigma>). idle t"
    and "rotate_secs (pl (sys \<sigma>)) = 0"
  shows "undisturbed_settings \<sigma> \<sigma>'"
  using assms
proof (induction rule: quiet_run.induct)
  case (idle \<sigma>)
  then show ?case by (simp add: undisturbed_settings_def)
next
  case (more \<sigma> \<sigma>' l \<sigma>'')
  then have IH: "undisturbed_settings \<sigma> \<sigma>'" by simp
  then have "rotate_secs (pl (sys \<sigma>')) = 0" "\<forall>t \<in> set (tasks \<sigma>'). idle t"
    using more.prems by (simp_all add: undisturbed_settings_def settings_def)
  from quiet_step_keeps [OF more.hyps(2,3) more.prems(1) this(2,1)] IH show ?case
    by (simp add: undisturbed_settings_def)
qed

text \<open>A connection that has been routed was routed as the switch says.\<close>

fun routed_by :: "bool \<Rightarrow> 'n task \<Rightarrow> bool" where
  "routed_by on (Socks_Via net host port) \<longleftrightarrow> on \<and> \<not> is_loopback_host host"
| "routed_by on (Socks_Direct host port) \<longleftrightarrow> \<not> on \<or> is_loopback_host host"
| "routed_by on _ \<longleftrightarrow> True"

lemma routed_finish [simp]: "routed_by on (fst (finish_call W r s))"
  by (simp add: finish_call_def)

lemma routed_trace [simp]: "routed_by on (fst (trace_next W ids s))"
  by (induction ids) (auto split: option.split)

lemma routed_start_call [simp]:
  "routed_by on (fst (start_call W path query s))" "fst (snd (start_call W path query s)) = []"
  by (simp_all add: start_call_def split: sum.split prod.split)

lemma routed_reading:
  assumes "resume_reading W token buf r s = (t, new, s')"
  shows "routed_by on t \<and> new = []"
proof -
  have "routed_by on (fst (start_request W token b s))" "fst (snd (start_request W token b s)) = []" for b
    by (simp_all add: start_request_def split: request.split)
  then have "routed_by on (fst (resume_reading W token buf r s))" "fst (snd (resume_reading W token buf r s)) = []"
    by (cases r; simp)+
  with assms show ?thesis by simp
qed

lemma routed_trace_next: "trace_next W ids s = (t, new, s') \<Longrightarrow> routed_by on t \<and> new = []"
  using routed_trace [of on W ids s] trace_next_rest [of W ids s] by simp

lemma resume_routes:
  assumes "resume W token t a s = Some (t', new, s')"
  shows "routed_by (enabled (pl s)) t' \<and> (\<forall>u \<in> set new. routed_by on u)"
proof (cases t)
  case (Ctl_Reading buf)
  with assms show ?thesis
    by (auto dest: routed_reading split: answer.splits)
next
  case (Ctl_Tracing j net ids)
  with assms show ?thesis
    by (auto dest: routed_trace_next split: answer.splits)
next
  case (Ctl_Registering i name)
  with assms show ?thesis
    by (auto simp: resume_registering_def Let_def split: answer.splits sum.splits)
next
  case (Ctl_Building i inp)
  with assms show ?thesis
    by (auto simp: resume_building_def finish_call_def split: answer.splits sum.splits)
next
  case Socks_Reading
  with assms show ?thesis
    by (auto simp: route_socks_def split: answer.splits sum.splits option.splits if_splits prod.splits)
next
  case (Rotator r)
  with assms show ?thesis
    by (auto simp: resume_rotator_def split: answer.splits sum.splits list.splits prod.splits)
qed (use assms in \<open>auto split: answer.splits option.splits\<close>)

lemma quiet_run_routes:
  assumes "quiet_run W token \<sigma> \<sigma>'" and "token \<noteq> []" and "\<forall>t \<in> set (tasks \<sigma>). idle t"
    and "rotate_secs (pl (sys \<sigma>)) = 0"
  shows "\<forall>t \<in> set (tasks \<sigma>'). t \<in> set (tasks \<sigma>) \<or> routed_by (enabled (pl (sys \<sigma>))) t"
  using assms
proof (induction rule: quiet_run.induct)
  case (more \<sigma> \<sigma>' l \<sigma>'')
  have on: "enabled (pl (sys \<sigma>')) = enabled (pl (sys \<sigma>))"
    using quiet_run_keeps [OF more.hyps(1) more.prems] by (simp add: undisturbed_settings_def settings_def)
  note IH = more.IH [OF more.prems]
  from more.hyps(2) show ?case
  proof cases
    case (worker i s')
    with IH show ?thesis by (auto simp: spawned_def split: phase.splits if_splits)
  next
    case (accept_control r)
    with IH show ?thesis by (cases r) (auto simp: accept_control_def)
  next
    case (accept_socks r)
    with IH show ?thesis by (cases r) (auto simp: accept_socks_def)
  next
    case (run k a t new s')
    with IH on resume_routes [OF run(4)] set_update_subset_insert [of "tasks \<sigma>'" k t] show ?thesis
      by auto
  qed
qed simp

text \<open>The settings a pool starts with.\<close>

lemma pool_new_settings:
  "settings (pl (pool_new build cfgs b))
    = (True, 0, b, 0, [1..<Suc (length cfgs)], Suc (length cfgs))"
proof -
  have "enabled (pl (pool_new build cfgs b)) \<and> pinned (pl (pool_new build cfgs b)) = 0
      \<and> rotate_secs (pl (pool_new build cfgs b)) = 0"
    by (induction cfgs rule: rev_induct)
      (simp_all add: pool_new_def init_system_def pool_init_def start_worker_eq)
  then show ?thesis
    using pool_new_shape [where build = build and cfgs = cfgs and b = b] by (simp add: settings_def del: upt_Suc)
qed

lemma start_service_idle: "t \<in> set (tasks (start_service s)) \<Longrightarrow> idle t"
  by (simp add: start_service_def)

section \<open>Properties\<close>

text \<open>
  C9. Only the token changes the settings: in every run that starts with no authorised call in
  progress and automatic rotation off, if the switch, the pinned account, the transport, the rotation
  interval, the membership, the ids handed out or any account's configuration ever change, then
  before that a control connection had sent bytes with the token in an \<open>X-Warp-Token\<close> header.
  SOCKS traffic, supervisors, trace tasks and the rotator never change any of them.
\<close>

theorem settings_need_token:
  assumes "service_run W token \<sigma> ls \<sigma>'" and "token \<noteq> []" and "\<forall>t \<in> set (tasks \<sigma>). idle t"
    and "rotate_secs (pl (sys \<sigma>)) = 0"
    and "settings (pl (sys \<sigma>')) \<noteq> settings (pl (sys \<sigma>)) \<or> configs (pl (sys \<sigma>')) \<noteq> configs (pl (sys \<sigma>))"
  shows "\<exists>before l after \<sigma>1. ls = before @ l # after \<and> service_run W token \<sigma> before \<sigma>1
    \<and> authorised token \<sigma>1 l"
  using run_quiet_or_authorised [OF assms(1)] quiet_run_keeps [OF _ assms(2-4)] assms(5)
  by (auto simp: undisturbed_settings_def)

text \<open>
  C10. The switch governs every new connection: in a run in which no control connection shows the token
  (and none was in progress, and rotation is off), every connection that is routed goes into the
  tunnel only if WARP was on at the start and its host is not a loopback one, and directly only if
  WARP was off or its host is one, no matter what else happens meanwhile.
\<close>

theorem switch_governs_connections:
  assumes "service_run W token \<sigma> ls \<sigma>'" and "token \<noteq> []" and "\<forall>t \<in> set (tasks \<sigma>). idle t"
    and "rotate_secs (pl (sys \<sigma>)) = 0"
    and "\<forall>before l after \<sigma>1. ls = before @ l # after \<longrightarrow> service_run W token \<sigma> before \<sigma>1
      \<longrightarrow> \<not> authorised token \<sigma>1 l"
    and "t \<in> set (tasks \<sigma>')" and "t \<notin> set (tasks \<sigma>)"
  shows "(t = Socks_Via net host port \<longrightarrow> enabled (pl (sys \<sigma>)) \<and> \<not> is_loopback_host host)
    \<and> (t = Socks_Direct host port \<longrightarrow> \<not> enabled (pl (sys \<sigma>)) \<or> is_loopback_host host)"
proof -
  have "quiet_run W token \<sigma> \<sigma>'"
    using run_quiet_or_authorised [OF assms(1)] assms(5) by blast
  from quiet_run_routes [OF this assms(2-4)] assms(6,7) show ?thesis
    by (auto dest!: bspec [of _ _ t])
qed

section \<open>Witnesses\<close>

text \<open>A client with the token turns WARP off.\<close>

definition toy_off :: "nat service \<Rightarrow> bool" where
  "toy_off \<sigma> \<longleftrightarrow> service_run toy_world (lit ''tok'') (start_service (init_system False))
     [Accept_Control (Inr ()), Run 1 toy_toggle] \<sigma> \<and> \<not> enabled (pl (sys \<sigma>))"

lemma toy_off_run: "\<exists>\<sigma>. toy_off \<sigma>"
proof -
  let ?ts = "[Rotator rotator_init, Ctl_Reading []]"
  obtain r where r: "resume toy_world (lit ''tok'') (?ts ! 1) toy_toggle (init_system False)
      = Some (Ctl_Done r, [], (init_system False)\<lparr>pl := set_enabled False (pl (init_system False))\<rparr>)"
    using toy_toggle_starts by auto
  from service_run_resume [OF service_run.idle _ r]
  have "service_run toy_world (lit ''tok'') \<lparr>sys = init_system False, tasks = ?ts\<rparr> [Run 1 toy_toggle]
      \<lparr>sys = (init_system False)\<lparr>pl := set_enabled False (pl (init_system False))\<rparr>, tasks = ?ts[1 := Ctl_Done r] @ []\<rparr>"
    by simp
  then have "toy_off \<lparr>sys = (init_system False)\<lparr>pl := set_enabled False (pl (init_system False))\<rparr>,
      tasks = ?ts[1 := Ctl_Done r] @ []\<rparr>"
    unfolding toy_off_def start_service_def by (intro conjI service_run_accept) (simp_all add: set_enabled_def)
  then show ?thesis ..
qed

theorem settings_need_token_witness:
  "\<exists>before l after. [Accept_Control (Inr ()), Run 1 toy_toggle] = before @ l # after \<and> (\<exists>\<sigma>1. authorised (lit ''tok'') \<sigma>1 l)"
proof -
  obtain \<sigma> where s: "toy_off \<sigma>" using toy_off_run ..
  then have "settings (pl (sys \<sigma>)) \<noteq> settings (pl (sys (start_service (init_system False :: nat system))))"
    by (simp add: toy_off_def settings_def start_service_def init_system_def pool_init_def)
  with s show ?thesis
    using settings_need_token [of toy_world "lit ''tok''" "start_service (init_system False)"
        "[Accept_Control (Inr ()), Run 1 toy_toggle]" \<sigma>]
    by (auto simp: toy_off_def start_service_def init_system_def pool_init_def lit_simps)
qed

text \<open>A connection to a loopback host goes out directly.\<close>

definition toy_direct :: "nat service" where
  "toy_direct = \<lparr>sys = init_system False, tasks = [Rotator rotator_init, Socks_Direct (lit ''localhost'') 80]\<rparr>"

lemma toy_loopback: "is_loopback_host (lit ''localhost'')"
  by (simp add: is_loopback_host_def)

lemma toy_token: "lit ''tok'' \<noteq> []"
  by (simp add: lit_simps)

lemma toy_direct_run:
  "service_run toy_world (lit ''tok'') \<lparr>sys = init_system False, tasks = [Rotator rotator_init, Socks_Reading]\<rparr>
    [Run 1 (Asked (Inr (Some (lit ''localhost'', 80))))] toy_direct"
proof -
  have r: "resume toy_world (lit ''tok'') ([Rotator rotator_init, Socks_Reading] ! 1)
      (Asked (Inr (Some (lit ''localhost'', 80)))) (init_system False)
      = Some (Socks_Direct (lit ''localhost'') 80, [], init_system False)"
    by (simp add: route_socks_def toy_loopback)
  from service_run_resume [OF service_run.idle _ r] show ?thesis
    by (simp add: toy_direct_def)
qed

theorem switch_governs_connections_witness:
  "Socks_Direct (lit ''localhost'') 80 \<in> set (tasks toy_direct) \<and> is_loopback_host (lit ''localhost'')"
proof -
  have quiet: "\<not> authorised (lit ''tok'') \<sigma>1 l"
    if "[Run 1 (Asked (Inr (Some (lit ''localhost'', 80))))] = before @ l # after"
    for before after \<sigma>1 and l :: "nat label"
    using that by (cases before) auto
  show ?thesis
    using switch_governs_connections [OF toy_direct_run toy_token _ _ _ _ _, of
        "Socks_Direct (lit ''localhost'') 80" 0 "lit ''localhost''" 80] quiet
    by (auto simp: toy_direct_def init_system_def pool_init_def simp del: authorised.simps)
qed

end
