(* ===== verification/Service_Tasks.thy ===== *)
theory Service_Tasks
  imports Service
begin

text \<open>
  Single tasks of the service: a handler left alone does what the sequential model of it does, where a
  SOCKS connection goes, and the answers that come late.
\<close>

section \<open>A handler on its own\<close>

text \<open>The answers that a world gives; what is read comes from the client.\<close>

fun answers :: "'n world \<Rightarrow> 'n task \<Rightarrow> 'n answer \<Rightarrow> bool" where
  "answers W (Ctl_Rotating j name) a \<longleftrightarrow> a = Registered (wd_register W name)"
| "answers W (Ctl_Tracing j net ids) a \<longleftrightarrow> a = Fetched (wd_fetch W net)"
| "answers W (Ctl_Registering i name) a \<longleftrightarrow> a = Registered (wd_register W name)"
| "answers W (Ctl_Building i inp) a \<longleftrightarrow> a = Built (wd_build W inp)"
| "answers W (Trace_Fetching i net) a \<longleftrightarrow> a = Fetched (wd_fetch W net)"
| "answers W (Rotator_Rotating r j name) a \<longleftrightarrow> a = Registered (wd_register W name)"
| "answers W _ a \<longleftrightarrow> True"

fun resume_all :: "'n world \<Rightarrow> rstr \<Rightarrow> 'n task \<Rightarrow> 'n answer list \<Rightarrow> 'n system \<Rightarrow> ('n task \<times> 'n system) option" where
  "resume_all W token t [] s = Some (t, s)"
| "resume_all W token t (a # as) s =
     (if answers W t a then
        (case resume W token t a s of
           None \<Rightarrow> None
         | Some (t', new, s') \<Rightarrow> resume_all W token t' as s')
      else None)"

text \<open>It gets to its end, with the result and the pool \<open>r\<close>.\<close>

definition completes :: "'n world \<Rightarrow> rstr \<Rightarrow> 'n task \<Rightarrow> 'n system \<Rightarrow> rstr \<times> 'n pool \<Rightarrow> bool" where
  "completes W token t s r \<longleftrightarrow>
     (\<exists>as s'. resume_all W token t as s = Some (Ctl_Done (Inr (fst r)), s') \<and> pl s' = snd r
        \<and> set as \<inter> range Read = {})"

lemma completes_done: "pl s = p \<Longrightarrow> completes W token (Ctl_Done (Inr x)) s (x, p)"
  unfolding completes_def by (intro exI [of _ "[]"]) simp

lemma completes_finish:
  "pl s = p \<Longrightarrow> completes W token (fst (finish_call W r s)) s (call_response (call_result W r p), p)"
  by (auto simp: finish_call_def intro: completes_done)

lemma completes_more:
  assumes "resume W token t a s = Some r'" and "answers W t a" and "a \<notin> range Read"
    and "completes W token (fst r') (snd (snd r')) r"
  shows "completes W token t s r"
proof -
  obtain as s'' where "resume_all W token (fst r') as (snd (snd r')) = Some (Ctl_Done (Inr (fst r)), s'')"
    "pl s'' = snd r" "set as \<inter> range Read = {}"
    using assms(4) by (auto simp: completes_def)
  with assms(1-3) show ?thesis
    unfolding completes_def
    by (intro exI [of _ "a # as"] exI [of _ s'']) (auto split: prod.split)
qed

lemma not_read [simp]:
  "Registered r \<notin> range Read" "Built b \<notin> range Read" "Fetched t \<notin> range Read"
  by auto

definition trace_all :: "'n world \<Rightarrow> nat list \<Rightarrow> 'n pool \<Rightarrow> 'n pool" where
  "trace_all W ids p = fold (\<lambda>j p. case net_of p j of None \<Rightarrow> p
     | Some net \<Rightarrow> on_worker j (set_trace (wd_fetch W net)) p) ids p"

lemma refresh_trace_all:
  "refresh_trace (wd_fetch W) i p = trace_all W (filter (\<lambda>j. i = 0 \<or> j = i) (members p)) p"
proof -
  have "fold (\<lambda>j p. if i \<noteq> 0 \<and> j \<noteq> i then p
          else (case net_of p j of None \<Rightarrow> p | Some net \<Rightarrow> on_worker j (set_trace (wd_fetch W net)) p)) ms p
      = trace_all W (filter (\<lambda>j. i = 0 \<or> j = i) ms) p" for ms
    by (induction ms arbitrary: p) (auto simp: trace_all_def)
  then show ?thesis by (simp add: refresh_trace_def)
qed

lemma trace_completes:
  "completes W token (fst (trace_next W ids s)) s
    (call_response (call_result W (Inr ()) (trace_all W ids (pl s))), trace_all W ids (pl s))"
proof (induction ids arbitrary: s)
  case Nil
  show ?case by (simp add: trace_all_def completes_finish)
next
  case (Cons j ids)
  show ?case
  proof (cases "net_of (pl s) j")
    case None
    with Cons show ?thesis by (simp add: trace_all_def)
  next
    case (Some net)
    let ?s = "upd_worker j (set_trace (wd_fetch W net)) s"
    have all: "trace_all W (j # ids) (pl s) = trace_all W ids (pl ?s)"
      using Some by (simp add: trace_all_def upd_worker_def)
    show ?thesis
      unfolding all trace_next.simps Some option.case fst_conv
      by (rule completes_more [of _ _ _ "Fetched (wd_fetch W net)" _ "trace_next W ids ?s"])
        (use Cons.IH [of ?s] in simp_all)
  qed
qed

lemma rotate_completes:
  assumes "rotate_target i (pl s) = Inr j"
  shows "completes W token (Ctl_Rotating j (account_name (pl s) j)) s
    (case rotate (wd_register W) i (pl s) of (r, p) \<Rightarrow> (call_response (call_result W (map_err error_text r) p), p))"
proof -
  let ?r = "wd_register W (account_name (pl s) j)"
  have rot: "rotate (wd_register W) i (pl s) = (map_sum id (\<lambda>_. ()) ?r, pl (store_fresh j ?r s))"
    using assms by (simp add: rotate_def store_fresh_def split: sum.split)
  show ?thesis
    unfolding rot prod.case
    by (rule completes_more [of _ _ _ "Registered ?r" _ "finish_call W (map_err error_text (map_sum id (\<lambda>_. ()) ?r))
          (store_fresh j ?r s)"]) (simp_all add: completes_finish)
qed

lemma building_completes:
  assumes "pl s = push_worker i cfg p" and "inp = (cfg, transport_of p)"
  shows "completes W token (Ctl_Building i inp) s
    (case wd_build W inp of
       Inl e \<Rightarrow> (call_response (call_result W (Inl (error_text e)) (push_worker i cfg p)), push_worker i cfg p)
     | Inr (t, net) \<Rightarrow>
         (let p = on_worker i (install_tunnel inp t net) (push_worker i cfg p) in
          (call_response (call_result W (Inr ()) p), p)))"
proof (rule completes_more)
  show "resume W token (Ctl_Building i inp) (Built (wd_build W inp)) s
      = Some (resume_building W i inp (wd_build W inp) s)"
    by simp
  show "completes W token (fst (resume_building W i inp (wd_build W inp) s))
     (snd (snd (resume_building W i inp (wd_build W inp) s)))
    (case wd_build W inp of
       Inl e \<Rightarrow> (call_response (call_result W (Inl (error_text e)) (push_worker i cfg p)), push_worker i cfg p)
     | Inr (t, net) \<Rightarrow>
         (let p = on_worker i (install_tunnel inp t net) (push_worker i cfg p) in
          (call_response (call_result W (Inr ()) p), p)))"
    using assms
    by (auto simp: resume_building_def completes_finish finish_call_def Let_def upd_worker_def
        intro!: completes_done split: sum.split)
qed simp_all

lemma add_completes:
  assumes "reserve_id (pl s) = (i, p)"
  shows "completes W token (Ctl_Registering i (account_name p i)) (s\<lparr>pl := p\<rparr>)
    (case add_account (wd_register W) (wd_build W) (pl s) of (r, p) \<Rightarrow>
       (call_response (call_result W (map_err error_text (map_sum id (\<lambda>_. ()) r)) p), p))"
proof (rule completes_more)
  let ?r = "wd_register W (account_name p i)"
  show "resume W token (Ctl_Registering i (account_name p i)) (Registered ?r) (s\<lparr>pl := p\<rparr>)
      = Some (resume_registering W i ?r (s\<lparr>pl := p\<rparr>))"
    by simp
  show "completes W token (fst (resume_registering W i ?r (s\<lparr>pl := p\<rparr>)))
      (snd (snd (resume_registering W i ?r (s\<lparr>pl := p\<rparr>))))
    (case add_account (wd_register W) (wd_build W) (pl s) of (r, p) \<Rightarrow>
       (call_response (call_result W (map_err error_text (map_sum id (\<lambda>_. ()) r)) p), p))"
  proof (cases ?r)
    case (Inl e)
    with assms show ?thesis
      by (simp add: add_account_def resume_registering_def completes_finish)
  next
    case (Inr cfg)
    have "transport_of (push_worker i cfg p) = transport_of p"
      by (simp add: transport_of_def push_worker_def)
    with assms Inr building_completes [of "set_phase i (Initial False (cfg, transport_of p))
        (s\<lparr>pl := push_worker i cfg p\<rparr>)" i cfg p "(cfg, transport_of p)" W token]
    show ?thesis
      by (auto simp: add_account_def resume_registering_def Let_def split: sum.splits)
  qed
qed simp_all

lemma start_call_completes:
  "completes W token (fst (start_call W path query s)) (snd (snd (start_call W path query s)))
    (case route W path query (pl s) of (r, p) \<Rightarrow> (call_response r, p))"
proof -
  have ne: "lit ''/api/trace'' \<noteq> lit ''/api/rotate''" "lit ''/api/account/add'' \<noteq> lit ''/api/rotate''"
    "lit ''/api/account/add'' \<noteq> lit ''/api/trace''"
    by (simp_all add: lit_simps)
  consider (rotate) "path = lit ''/api/rotate''" | (trace) "path = lit ''/api/trace''"
    | (add) "path = lit ''/api/account/add''"
    | (other) "path \<noteq> lit ''/api/rotate''" "path \<noteq> lit ''/api/trace''" "path \<noteq> lit ''/api/account/add''"
    by blast
  then show ?thesis
  proof cases
    case rotate
    have e: "endpoint W (lit ''/api/rotate'') query (pl s)
        = (case rotate (wd_register W) (slot_param query) (pl s) of (r, p) \<Rightarrow> (map_err error_text r, p))"
      by (simp add: endpoint_def)
    show ?thesis
    proof (cases "rotate_target (slot_param query) (pl s)")
      case (Inl err)
      with rotate show ?thesis
        by (simp add: start_call_def route_def e rotate_def completes_finish)
    next
      case (Inr j)
      with rotate rotate_completes [OF Inr, of W token] show ?thesis
        by (simp add: start_call_def route_def e case_prod_unfold)
    qed
  next
    case trace
    have e: "endpoint W path query (pl s) = (Inr (), refresh_trace (wd_fetch W) (slot_param query) (pl s))"
      by (simp add: endpoint_def trace)
    with trace ne trace_completes [of W token _ s] show ?thesis
      by (simp add: start_call_def route_def refresh_trace_all)
  next
    case add
    obtain i p where r: "reserve_id (pl s) = (i, p)" by (cases "reserve_id (pl s)")
    have "endpoint W path query (pl s) = (case add_account (wd_register W) (wd_build W) (pl s) of
        (r, p) \<Rightarrow> (map_err error_text (map_sum id (\<lambda>_. ()) r), p))"
      by (simp add: endpoint_def add split: prod.split sum.split)
    with add ne r add_completes [OF r, of W token] show ?thesis
      by (simp add: start_call_def route_def case_prod_unfold)
  next
    case other
    then show ?thesis
      by (simp add: start_call_def route_def completes_finish split: prod.split)
  qed
qed

lemma start_request_completes:
  "completes W token (fst (start_request W token buf s)) (snd (snd (start_request W token buf s)))
    (respond W token buf (pl s))"
  using start_call_completes [of W token _ _ s]
  by (auto simp: start_request_def respond_def completes_done split: request.split)

lemma resume_all_append:
  "resume_all W token t (as @ bs) s =
    (case resume_all W token t as s of None \<Rightarrow> None | Some (t', s') \<Rightarrow> resume_all W token t' bs s')"
  by (induction as arbitrary: t s) (auto split: option.split)

text \<open>The head is read as \<open>read_head\<close> reads it.\<close>

lemma reading_alone:
  "\<exists>n. resume_all W token (Ctl_Reading buf) (map Read (take n (reads @ [Inr []]))) s =
    (case read_head buf reads of
       Inl e \<Rightarrow> Some (Ctl_Done (Inl e), s)
     | Inr b \<Rightarrow> Some (fst (start_request W token b s), snd (snd (start_request W token b s))))"
proof (induction buf reads rule: read_head.induct)
  case (1 buf)
  show ?case by (rule exI [of _ 1]) (simp split: prod.split)
next
  case (2 buf e reads)
  show ?case by (rule exI [of _ 1]) simp
next
  case (3 buf chunk reads)
  show ?case
  proof (cases "chunk = [] \<or> head_complete (buf @ chunk)")
    case True
    then show ?thesis
      by (intro exI [of _ 1]) (auto simp: head_complete_def split: prod.split)
  next
    case False
    then obtain n where "resume_all W token (Ctl_Reading (buf @ chunk)) (map Read (take n (reads @ [Inr []]))) s =
      (case read_head (buf @ chunk) reads of
         Inl e \<Rightarrow> Some (Ctl_Done (Inl e), s)
       | Inr b \<Rightarrow> Some (fst (start_request W token b s), snd (snd (start_request W token b s))))"
      using 3 by (auto simp: head_complete_def)
    with False show ?thesis
      by (intro exI [of _ "Suc n"]) (auto simp: head_complete_def)
  qed
qed

section \<open>Late answers\<close>

text \<open>
  A trace task stores its result whenever it comes. While one waits for its answer over \<open>net\<close>, the
  tunnel may die and be replaced, and then the answer that came over \<open>net\<close> is shown for the account
  although its connections go through another netstack.
\<close>

theorem late_trace_is_stored:
  assumes "k < length (tasks \<sigma>)" and "tasks \<sigma> ! k = Trace_Fetching i net"
    and "phase_of (sys \<sigma>) i = Waiting" and "store (pl (sys \<sigma>)) i = Some w" and "w_dead w \<noteq> None"
  shows "\<exists>\<sigma>' w'. service_run W token \<sigma> [Worker i, Worker i, Worker i, Run k (Fetched t)] \<sigma>'
    \<and> store (pl (sys \<sigma>')) i = Some w' \<and> w_net w' = Some net' \<and> w_trace w' = Some t"
proof -
  obtain tun :: tunnel where "tun = tun" by simp
  let ?inp = "(w_config w, transport_of (pl (sys \<sigma>)))"
  define dead where "dead = upd_worker i transport_dies (sys \<sigma>)"
  define down where "down = set_phase i (Building 1 ?inp) (upd_worker i clear_net dead)"
  define up where "up = set_phase i Loop_Top (upd_worker i (install_tunnel ?inp tun net') down)"
  define last where "last = upd_worker i (set_trace t) up"
  let ?\<sigma> = "\<lambda>s new. \<lparr>sys = s, tasks = tasks \<sigma> @ new\<rparr>"
  note d = dead_def down_def up_def last_def upd_worker_def set_phase_def on_worker_def
  have w: "store (pl dead) i = Some (transport_dies w)" "phase_of dead i = Waiting"
    using assms(3,4) by (simp_all add: d)
  have "worker_step i dead down"
    unfolding down_def using assms(5) w
    by (intro worker_step.wake_dead) (auto simp: transport_dies_def build_inputs_def d transport_of_def)
  then have 2: "service_step W token (Worker i) (?\<sigma> dead []) (?\<sigma> down [])"
    using service_step.worker [of i "?\<sigma> dead []" down W token] w(2) by (simp add: spawned_def)
  have b: "phase_of down i = Building 1 ?inp" by (simp add: d)
  then have "worker_step i down up"
    unfolding up_def by (rule worker_step.build_ok)
  then have 3: "service_step W token (Worker i) (?\<sigma> down []) (?\<sigma> up [Trace_Start i])"
    using service_step.worker [of i "?\<sigma> down []" up W token] b by (simp add: spawned_def up_def set_phase_def)
  have 1: "service_step W token (Worker i) \<sigma> (?\<sigma> dead [])"
    using service_step.worker [of i \<sigma> dead W token] worker_step.dies [of i "sys \<sigma>"] assms(3)
    by (simp add: spawned_def dead_def)
  have "service_step W token (Run k (Fetched t)) (?\<sigma> up [Trace_Start i])
      \<lparr>sys = last, tasks = (tasks \<sigma> @ [Trace_Start i])[k := Trace_Done] @ []\<rparr>"
    using service_step.run [of k "?\<sigma> up [Trace_Start i]" W token "Fetched t" Trace_Done "[]" last] assms(1,2)
    by (simp add: nth_append last_def)
  from service_run_cons [OF 1 service_run_cons [OF 2 service_run_cons [OF 3 service_run_one [OF this]]]]
  have run: "service_run W token \<sigma> [Worker i, Worker i, Worker i, Run k (Fetched t)]
      \<lparr>sys = last, tasks = (tasks \<sigma> @ [Trace_Start i])[k := Trace_Done] @ []\<rparr>" .
  have "store (pl last) i = Some (set_trace t (install_tunnel ?inp tun net' (clear_net (transport_dies w))))"
    using assms(4) by (simp add: d)
  moreover have "w_net (set_trace t (install_tunnel ?inp tun net' w1)) = Some net'"
    "w_trace (set_trace t (install_tunnel ?inp tun net' w1)) = Some t" for w1
    by (simp_all add: set_trace_def install_tunnel_def)
  ultimately show ?thesis
    using run by (metis service.select_convs(1))
qed

section \<open>Properties\<close>

text \<open>
  A handler left alone is the handler read as a sequential program: a control connection that is
  resumed with the client's reads and then with what the registrations, connections and traces give,
  with nothing else running in between, ends with exactly the response and the pool of \<open>handle\<close>.
\<close>

lemma handler_alone:
  "\<exists>n as s'. resume_all W token (Ctl_Reading []) (map Read (take n (reads @ [Inr []])) @ as) s
      = Some (Ctl_Done (fst (handle W token reads (pl s))), s')
    \<and> pl s' = snd (handle W token reads (pl s)) \<and> set as \<inter> range Read = {}"
proof -
  obtain n where n: "resume_all W token (Ctl_Reading []) (map Read (take n (reads @ [Inr []]))) s =
    (case read_head [] reads of
       Inl e \<Rightarrow> Some (Ctl_Done (Inl e), s)
     | Inr b \<Rightarrow> Some (fst (start_request W token b s), snd (snd (start_request W token b s))))"
    using reading_alone by blast
  show ?thesis
  proof (cases "read_head [] reads")
    case (Inl e)
    with n show ?thesis
      by (intro exI [of _ n] exI [of _ "[]"] exI [of _ s]) (simp add: handle_def)
  next
    case (Inr buf)
    obtain as s' where as: "resume_all W token (fst (start_request W token buf s)) as
        (snd (snd (start_request W token buf s))) = Some (Ctl_Done (Inr (fst (respond W token buf (pl s)))), s')"
      "pl s' = snd (respond W token buf (pl s))" "set as \<inter> range Read = {}"
      using start_request_completes [of W token buf s] by (auto simp: completes_def)
    with Inr n show ?thesis
      by (intro exI [of _ n] exI [of _ as] exI [of _ s'])
        (simp add: handle_def resume_all_append case_prod_unfold del: take_append map_append)
  qed
qed

text \<open>
  C20. Where a SOCKS connection goes: when its task is put into a tunnel, that is the netstack of an
  account that is pooled and up at that moment (the pinned account's, when that one is up), WARP is
  on, and what it does from there is what \<open>handle_pool\<close> does, \<open>via_netstack\<close> over that netstack.
\<close>

theorem socks_uses_live_member:
  assumes "resume W token Socks_Reading (Asked (fst (read_request c))) s
    = Some (Socks_Via net host port, new, s')"
  shows "enabled (pl s) \<and> (\<exists>i \<in> set (members (pl s)). net_of (pl s) i = Some net)
    \<and> (pinned_net (pl s) \<noteq> None \<longrightarrow> pinned_net (pl s) = Some net)
    \<and> handle_pool (enabled (pl s)) (fst (pick (pl s))) dial c = via_netstack net host port (snd (read_request c))"
proof -
  obtain r c1 where r: "read_request c = (r, c1)" by (cases "read_request c")
  from assms r have req: "r = Inr (Some (host, port))" "enabled (pl s)" "\<not> is_loopback_host host"
    and net: "fst (pick (pl s)) = Some net"
    by (auto simp: route_socks_def split: sum.splits option.splits if_splits prod.splits)
  then show ?thesis
    using r pick_is_member [of "pl s" net] by (auto simp: handle_pool_def)
qed

section \<open>Witnesses\<close>

definition toy_net_world :: "net_handle world" where
  "toy_net_world = \<lparr>wd_register = (\<lambda>_. Inr sample_config), wd_build = (\<lambda>_. Inl (Tunnel [])),
     wd_fetch = (\<lambda>_. trace_default), wd_print = (\<lambda>_. Inr [])\<rparr>"

definition toy_live :: "net_handle system" where
  "toy_live = \<lparr>pl = on_worker 1 (\<lambda>w. w\<lparr>w_net := Some toy_handle\<rparr>) (push_worker 1 sample_config (pool_init False)),
     phase_of = (\<lambda>_. Loop_Top)\<rparr>"

theorem socks_uses_live_member_witness:
  "\<exists>i \<in> set (members (pl toy_live)). net_of (pl toy_live) i = Some toy_handle"
proof -
  let ?c = "\<lparr>c_in = connect_bytes [] 0 1 [10, 0, 0, 7] 80 @ [], c_out = [], c_writes = None\<rparr>"
  have a: "ip_wf (V4 (Ipv4 10 0 0 7))" "addr_bytes (V4 (Ipv4 10 0 0 7)) = (1, [10, 0, 0, 7])"
    by (simp_all add: ATYP_V4_def)
  have "read_request ?c = (Inr (Some (show_ip (V4 (Ipv4 10 0 0 7)), 80)), \<lparr>c_in = [], c_out = [5, 0], c_writes = None\<rparr>)"
    using read_request_literal [of "[]" "\<lparr>c_in = [], c_out = [], c_writes = None\<rparr>", OF _ _ a, of 0 80 "[]"] by simp
  moreover have "\<not> is_loopback_host (show_ip (V4 (Ipv4 10 0 0 7)))"
    using is_loopback_host_literal [OF a(1)] by (simp del: show_ip.simps)
  ultimately have "\<exists>new s'. resume toy_net_world [] Socks_Reading (Asked (fst (read_request ?c))) toy_live
      = Some (Socks_Via toy_handle (show_ip (V4 (Ipv4 10 0 0 7))) 80, new, s')"
    by (simp add: route_socks_def toy_live_def pick_def push_worker_def pool_init_def net_of_def on_worker_def
        scan_def worker_new_def del: show_ip.simps)
  then show ?thesis
    using socks_uses_live_member by blast
qed

end
