(* ===== verification/Register.thy ===== *)
theory Register
  imports Tunnel
begin

text \<open>
  Device registration: \<open>crates/warp-masque/src/register.rs\<close> with the DNS-over-HTTPS bootstrap of
  \<open>doh.rs\<close>. The HTTP client is the function \<open>send\<close> from a request to the outcome of sending it and of
  reading its text; the JSON parser, the clock and the random sources are parameters too.
\<close>

section \<open>Requests and responses\<close>

definition API_URL :: rstr where "API_URL = lit ''https://api.cloudflareclient.com''"
definition API_VERSION :: rstr where "API_VERSION = lit ''v0a4471''"
definition USER_AGENT :: rstr where "USER_AGENT = lit ''WARP for Android''"
definition CF_CLIENT_VERSION :: rstr where "CF_CLIENT_VERSION = lit ''a-6.35-4471''"
text \<open>The key and tunnel types of the two calls, and the defaults of the options.\<close>

definition KEY_TYPE_WG :: rstr where [simp]: "KEY_TYPE_WG = lit ''curve25519''"
definition TUN_TYPE_WG :: rstr where [simp]: "TUN_TYPE_WG = lit ''wireguard''"
definition KEY_TYPE_MASQUE :: rstr where [simp]: "KEY_TYPE_MASQUE = lit ''secp256r1''"
definition TUN_TYPE_MASQUE :: rstr where [simp]: "TUN_TYPE_MASQUE = lit ''masque''"
definition DEFAULT_MODEL :: rstr where [simp]: "DEFAULT_MODEL = lit ''PC''"
definition DEFAULT_LOCALE :: rstr where [simp]: "DEFAULT_LOCALE = lit ''en_US''"

definition API_HOST :: rstr where "API_HOST = lit ''api.cloudflareclient.com''"

record register_options =
  ro_model :: rstr
  ro_locale :: rstr
  ro_device_name :: "rstr option"
  ro_jwt :: "rstr option"

definition default_options :: register_options where
  "default_options = \<lparr>ro_model = DEFAULT_MODEL, ro_locale = DEFAULT_LOCALE, ro_device_name = None,
     ro_jwt = None\<rparr>"

record api_request =
  api_method :: rstr
  api_url :: rstr
  api_headers :: "(rstr \<times> rstr) list"
  api_body :: json

record ('sk, 'pk) api_env =
  api_send :: "api_request \<Rightarrow> rstr + nat \<times> (rstr + rstr)"
  api_parse :: "rstr \<Rightarrow> rstr + json"
  api_wg_random :: bytes
  api_serial_random :: bytes
  api_now :: rstr
  api_new_key :: 'sk
  api_keys :: "('sk, 'pk) key_lib"

text \<open>The response shapes, with the fields that \<open>#[serde(default)]\<close> makes optional.\<close>

record peer =
  peer_public_key :: rstr
  peer_v4 :: rstr
  peer_v6 :: rstr

record account_data =
  ad_id :: rstr
  ad_token :: "rstr option"
  ad_peers :: "peer list"
  ad_v4 :: rstr
  ad_v6 :: rstr

section \<open>Decoding a response\<close>

text \<open>
  A field of a derived \<open>Deserialize\<close>, as in \<open>string_field\<close>, for any type of value.
\<close>

definition field_with :: "(json \<Rightarrow> error + 'a) \<Rightarrow> (rstr \<times> json) list \<Rightarrow> rstr \<Rightarrow> 'a option \<Rightarrow> error + 'a" where
  "field_with conv fs name deflt =
     (case filter (\<lambda>(k, _). k = name) fs of
        [] \<Rightarrow> ok_or (Json (lit ''missing field `'' @ name @ lit ''`'')) deflt
      | [(_, v)] \<Rightarrow> conv v
      | _ \<Rightarrow> Inl (Json (lit ''duplicate field `'' @ name @ lit ''`'')))"

fun as_string :: "json \<Rightarrow> error + rstr" where
  "as_string (JStr s) = Inr s"
| "as_string _ = Inl (Json (lit ''invalid type, expected a string''))"

fun as_opt_string :: "json \<Rightarrow> error + rstr option" where
  "as_opt_string JNull = Inr None"
| "as_opt_string (JStr s) = Inr (Some s)"
| "as_opt_string _ = Inl (Json (lit ''invalid type, expected a string''))"

fun as_fields :: "json \<Rightarrow> error + (rstr \<times> json) list" where
  "as_fields (JObj fs) = Inr fs"
| "as_fields _ = Inl (Json (lit ''invalid type, expected a struct''))"

definition addresses_from_json :: "json \<Rightarrow> error + rstr \<times> rstr" where
  "addresses_from_json j =
     rbind (as_fields j) (\<lambda>fs.
     rbind (field_with as_string fs (lit ''v4'') (Some [])) (\<lambda>v4.
     rbind (field_with as_string fs (lit ''v6'') (Some [])) (\<lambda>v6.
     Inr (v4, v6))))"

definition peer_from_json :: "json \<Rightarrow> error + peer" where
  "peer_from_json j =
     rbind (as_fields j) (\<lambda>fs.
     rbind (field_with as_string fs (lit ''public_key'') (Some [])) (\<lambda>pub.
     rbind (field_with addresses_from_json fs (lit ''endpoint'') (Some ([], []))) (\<lambda>(v4, v6).
     Inr \<lparr>peer_public_key = pub, peer_v4 = v4, peer_v6 = v6\<rparr>)))"

fun all_from_json :: "(json \<Rightarrow> error + 'a) \<Rightarrow> json list \<Rightarrow> error + 'a list" where
  "all_from_json conv [] = Inr []"
| "all_from_json conv (j # js) =
     rbind (conv j) (\<lambda>a. rbind (all_from_json conv js) (\<lambda>as. Inr (a # as)))"

fun peers_from_json :: "json \<Rightarrow> error + peer list" where
  "peers_from_json (JArr js) = all_from_json peer_from_json js"
| "peers_from_json _ = Inl (Json (lit ''invalid type, expected a sequence''))"

definition interface_from_json :: "json \<Rightarrow> error + rstr \<times> rstr" where
  "interface_from_json j =
     rbind (as_fields j) (\<lambda>fs. field_with addresses_from_json fs (lit ''addresses'') (Some ([], [])))"

definition reg_config_from_json :: "json \<Rightarrow> error + peer list \<times> rstr \<times> rstr" where
  "reg_config_from_json j =
     rbind (as_fields j) (\<lambda>fs.
     rbind (field_with peers_from_json fs (lit ''peers'') (Some [])) (\<lambda>ps.
     rbind (field_with interface_from_json fs (lit ''interface'') (Some ([], []))) (\<lambda>addrs.
     Inr (ps, addrs))))"

definition account_from_json :: "json \<Rightarrow> error + account_data" where
  "account_from_json j =
     rbind (as_fields j) (\<lambda>fs.
     rbind (field_with as_string fs (lit ''id'') None) (\<lambda>i.
     rbind (field_with as_opt_string fs (lit ''token'') (Some None)) (\<lambda>tok.
     rbind (field_with reg_config_from_json fs (lit ''config'') (Some ([], [], []))) (\<lambda>(ps, v4, v6).
     Inr \<lparr>ad_id = i, ad_token = tok, ad_peers = ps, ad_v4 = v4, ad_v6 = v6\<rparr>))))"

section \<open>The two calls\<close>

definition base_headers :: "(rstr \<times> rstr) list" where
  "base_headers =
     [(lit ''User-Agent'', USER_AGENT), (lit ''CF-Client-Version'', CF_CLIENT_VERSION),
      (lit ''Content-Type'', lit ''application/json; charset=UTF-8''),
      (lit ''Connection'', lit ''Keep-Alive'')]"

definition send_json :: "('sk, 'pk) api_env \<Rightarrow> api_request \<Rightarrow> error + account_data" where
  "send_json E req =
     rbind (map_err Http (api_send E req)) (\<lambda>(status, body).
     rbind (map_err Http body) (\<lambda>text.
     if \<not> (200 \<le> status \<and> status < 300) then Inl (Api status text)
     else rbind (map_err Json (api_parse E text)) account_from_json))"

definition create_request :: "('sk, 'pk) api_env \<Rightarrow> register_options \<Rightarrow> api_request" where
  "create_request E opts =
     \<lparr>api_method = lit ''POST'', api_url = API_URL @ lit ''/'' @ API_VERSION @ lit ''/reg'',
      api_headers = base_headers @
        (case ro_jwt opts of None \<Rightarrow> [] | Some jwt \<Rightarrow> [(lit ''CF-Access-Jwt-Assertion'', jwt)]),
      api_body = JObj
        [(lit ''key'', JStr (random_wg_pubkey_b64 (api_keys E) (api_wg_random E))),
         (lit ''install_id'', JStr []), (lit ''fcm_token'', JStr []), (lit ''tos'', JStr (api_now E)),
         (lit ''model'', JStr (ro_model opts)),
         (lit ''serial_number'', JStr (random_android_serial (api_serial_random E))),
         (lit ''os_version'', JStr []), (lit ''key_type'', JStr KEY_TYPE_WG),
         (lit ''tunnel_type'', JStr TUN_TYPE_WG), (lit ''locale'', JStr (ro_locale opts))]\<rparr>"

definition create_account :: "('sk, 'pk) api_env \<Rightarrow> register_options \<Rightarrow> error + account_data" where
  "create_account E opts = send_json E (create_request E opts)"

definition enroll_request :: "rstr \<Rightarrow> rstr \<Rightarrow> rstr \<Rightarrow> rstr option \<Rightarrow> api_request" where
  "enroll_request device token pub name =
     \<lparr>api_method = lit ''PATCH'',
      api_url = API_URL @ lit ''/'' @ API_VERSION @ lit ''/reg/'' @ device,
      api_headers = base_headers @ [(lit ''Authorization'', lit ''Bearer '' @ token)],
      api_body = JObj
        ([(lit ''key'', JStr pub), (lit ''key_type'', JStr KEY_TYPE_MASQUE),
          (lit ''tunnel_type'', JStr TUN_TYPE_MASQUE)]
         @ (case name of None \<Rightarrow> [] | Some n \<Rightarrow> [(lit ''name'', JStr n)]))\<rparr>"

definition enroll_key :: "('sk, 'pk) api_env \<Rightarrow> rstr \<Rightarrow> rstr \<Rightarrow> 'sk device_keypair \<Rightarrow> rstr option
    \<Rightarrow> error + account_data" where
  "enroll_key E device token kp name =
     rbind (public_spki_b64 (api_keys E) kp) (\<lambda>pub. send_json E (enroll_request device token pub name))"

definition build_config :: "('sk, 'pk, 'z) key_lib_scheme \<Rightarrow> 'sk device_keypair \<Rightarrow> rstr \<Rightarrow> account_data
    \<Rightarrow> error + warp_config" where
  "build_config L kp token data =
     (case ad_peers data of
        [] \<Rightarrow> Inl (Response (lit ''enroll response had no peers''))
      | peer # _ \<Rightarrow>
          rbind (private_b64 L kp) (\<lambda>pk.
          rbind (strip_v4_port (peer_v4 peer)) (\<lambda>v4.
          rbind (strip_v6_brackets (peer_v6 peer)) (\<lambda>v6.
          Inr \<lparr>private_key = pk, endpoint_v4 = v4, endpoint_v6 = v6,
               endpoint_h2_v4 = DEFAULT_ENDPOINT_H2_V4, endpoint_h2_v6 = [],
               endpoint_pub_key = peer_public_key peer, device_id = ad_id data, access_token = token,
               cfg_ipv4 = ad_v4 data, cfg_ipv6 = ad_v6 data\<rparr>))))"

definition register :: "('sk, 'pk) api_env \<Rightarrow> register_options \<Rightarrow> error + warp_config" where
  "register E opts =
     rbind (create_account E opts) (\<lambda>account.
     rbind (ok_or (Response (lit ''register response had no token'')) (ad_token account)) (\<lambda>token.
     let kp = generate_key (api_new_key E) in
     rbind (enroll_key E (ad_id account) token kp (ro_device_name opts)) (\<lambda>enrolled.
     build_config (api_keys E) kp token enrolled)))"

section \<open>DNS over HTTPS\<close>

definition API_FALLBACK_IPS :: "rstr list" where
  "API_FALLBACK_IPS = [lit ''104.16.24.84'', lit ''104.16.192.82'']"

definition DOH_IP :: rstr where "DOH_IP = lit ''1.1.1.1''"
definition DOH_SNI :: rstr where "DOH_SNI = lit ''cloudflare-dns.com''"

definition doh_url :: "rstr \<Rightarrow> rstr" where
  "doh_url host = lit ''https://'' @ DOH_SNI @ lit ''/dns-query?name='' @ host @ lit ''&type=A''"

text \<open>
  \<open>Value::get\<close> of a field (the last one of a name is kept by the parser), and the A records of an
  answer.
\<close>

fun json_get :: "rstr \<Rightarrow> json \<Rightarrow> json option" where
  "json_get name (JObj fs) = map_of (rev fs) name"
| "json_get name _ = None"

definition a_record :: "json \<Rightarrow> ip_addr option" where
  "a_record a =
     (if json_get (lit ''type'') a = Some (JNum 1) then
        (case json_get (lit ''data'') a of Some (JStr d) \<Rightarrow> parse_ip d | _ \<Rightarrow> None)
      else None)"

definition answer_ips :: "json \<Rightarrow> ip_addr list" where
  "answer_ips j =
     (case json_get (lit ''Answer'') j of
        Some (JArr answers) \<Rightarrow> List.map_filter a_record answers
      | _ \<Rightarrow> [])"

text \<open>
  \<open>SocketAddr\<close>'s parser of the standard library: an IPv4 address, or an IPv6 address in brackets with
  an optional numeric scope, followed by a colon and a port.
\<close>

definition read_port :: "u16 parser" where
  "read_port s =
     Option.bind (read_given_char 58 s) (\<lambda>(_, s).
     map_option (\<lambda>(n, r). (of_nat n, r)) (read_number 10 (length s) True 16 s))"

definition skip_scope :: "rstr \<Rightarrow> rstr" where
  "skip_scope s =
     (case read_given_char 37 s of
        None \<Rightarrow> s
      | Some (_, s') \<Rightarrow>
          (case read_number 10 (length s') True 32 s' of None \<Rightarrow> s | Some (_, r) \<Rightarrow> r))"

definition read_socket_addr_v6 :: "sock_addr parser" where
  "read_socket_addr_v6 s =
     Option.bind (read_given_char 91 s) (\<lambda>(_, s).
     Option.bind (read_ipv6_addr s) (\<lambda>(ip, s).
     Option.bind (read_given_char 93 (skip_scope s)) (\<lambda>(_, s).
     Option.bind (read_port s) (\<lambda>(port, s). Some ((V6 ip, port), s)))))"

definition read_socket_addr_v4 :: "sock_addr parser" where
  "read_socket_addr_v4 s =
     Option.bind (read_ipv4_addr s) (\<lambda>(ip, s).
     Option.bind (read_port s) (\<lambda>(port, s). Some ((V4 ip, port), s)))"

definition parse_socket_addr :: "rstr \<Rightarrow> sock_addr option" where
  "parse_socket_addr s =
     parse_with (\<lambda>s. case read_socket_addr_v4 s of Some r \<Rightarrow> Some r | None \<Rightarrow> read_socket_addr_v6 s) s"

text \<open>
  \<open>resolve_a\<close>, given the outcomes of building the client that pins the name to the address, and of
  sending the request and decoding its JSON.
\<close>

definition resolve_a :: "(rstr \<Rightarrow> sock_addr \<Rightarrow> rstr + unit) \<Rightarrow> (rstr \<Rightarrow> rstr + json) \<Rightarrow> rstr
    \<Rightarrow> error + ip_addr list" where
  "resolve_a build_client fetch host =
     rbind (ok_or (Config (lit ''doh addr: invalid socket address syntax''))
              (parse_socket_addr (DOH_IP @ lit '':443''))) (\<lambda>doh_addr.
     rbind (map_err Http (build_client DOH_SNI doh_addr)) (\<lambda>_.
     rbind (map_err Http (fetch (doh_url host))) (\<lambda>j. Inr (answer_ips j))))"

text \<open>
  \<open>api_addrs\<close> on the outcome of resolving \<open>API_HOST\<close>, its closure \<open>push\<close> on the set seen and the
  list.
\<close>

definition push_addr :: "ip_addr \<Rightarrow> ip_addr set \<times> sock_addr list \<Rightarrow> ip_addr set \<times> sock_addr list" where
  "push_addr ip so =
     (case so of (seen, out) \<Rightarrow>
        if ip \<in> seen then (seen, out) else (insert ip seen, out @ [(ip, 443)]))"

definition api_addrs :: "error + ip_addr list \<Rightarrow> sock_addr list" where
  "api_addrs resolved =
     (let s1 = (case resolved of Inr ips \<Rightarrow> fold push_addr ips ({}, []) | Inl _ \<Rightarrow> ({}, []));
          s2 = fold (\<lambda>f. case parse_ip f of Some ip \<Rightarrow> push_addr ip | None \<Rightarrow> id) API_FALLBACK_IPS s1
      in snd s2)"

section \<open>Registration with fallback\<close>

text \<open>
  \<open>client\<close> builds a \<open>reqwest\<close> client that pins the API host to the given addresses (none: the
  default client) and gives the environment of the calls made through it.
\<close>

definition with_default_client :: "(sock_addr list \<Rightarrow> rstr + 'e) \<Rightarrow> error + 'e" where
  "with_default_client client = map_err Http (client [])"

definition with_doh_bypass :: "(sock_addr list \<Rightarrow> rstr + 'e) \<Rightarrow> error + ip_addr list \<Rightarrow> error + 'e" where
  "with_doh_bypass client resolved =
     (let addrs = api_addrs resolved in
      if addrs = [] then Inl (Response (lit ''DoH bypass could not resolve api.cloudflareclient.com''))
      else map_err Http (client addrs))"

definition register_auto :: "(sock_addr list \<Rightarrow> rstr + ('sk, 'pk) api_env) \<Rightarrow> error + ip_addr list
    \<Rightarrow> register_options \<Rightarrow> error + warp_config" where
  "register_auto client resolved opts =
     rbind (with_default_client client) (\<lambda>direct.
     case register direct opts of
       Inr cfg \<Rightarrow> Inr cfg
     | Inl direct_err \<Rightarrow>
         rbind (map_err (\<lambda>bypass_err. Response (lit ''direct register failed ('' @ error_text direct_err
             @ lit ''); DoH bypass unavailable ('' @ error_text bypass_err @ lit '')''))
           (with_doh_bypass client resolved)) (\<lambda>bypass.
         map_err (\<lambda>bypass_err. Response (lit ''register failed (direct: '' @ error_text direct_err
             @ lit ''; doh-bypass: '' @ error_text bypass_err @ lit '')'')) (register bypass opts)))"

section \<open>Facts\<close>

lemma parse_ip_v4: "parse_ip (show_ipv4 a) = Some (V4 a)"
  using parse_ip_show_ipv4 [of a] by simp

lemma fallback_ips:
  "map parse_ip API_FALLBACK_IPS = [Some (V4 (Ipv4 104 16 24 84)), Some (V4 (Ipv4 104 16 192 82))]"
proof -
  have "API_FALLBACK_IPS = [show_ipv4 (Ipv4 104 16 24 84), show_ipv4 (Ipv4 104 16 192 82)]"
    by (simp add: API_FALLBACK_IPS_def lit_simps show_radix.simps digit_char_def)
  then have "map parse_ip API_FALLBACK_IPS
      = map parse_ip [show_ipv4 (Ipv4 104 16 24 84), show_ipv4 (Ipv4 104 16 192 82)]"
    by (rule arg_cong)
  then show ?thesis by (simp only: list.map parse_ip_v4)
qed

text \<open>The first occurrences of the elements of a list, in order.\<close>

definition firsts :: "'a list \<Rightarrow> 'a list" where
  "firsts xs = rev (remdups (rev xs))"

lemma firsts_snoc: "firsts (xs @ [x]) = (if x \<in> set xs then firsts xs else firsts xs @ [x])"
  by (simp add: firsts_def)

lemma set_firsts [simp]: "set (firsts xs) = set xs"
  by (simp add: firsts_def)

lemma distinct_firsts [simp]: "distinct (firsts xs)"
  by (simp add: firsts_def)

lemma firsts_Nil [simp]: "firsts [] = []"
  by (simp add: firsts_def)

lemma fold_push_addr:
  "fold push_addr ips ({}, []) = (set ips, map (\<lambda>ip. (ip, 443)) (firsts ips))"
  by (induction ips rule: rev_induct) (auto simp: push_addr_def firsts_snoc)

lemma fold_push_parsed:
  assumes "map parse_ip fs = map Some ips"
  shows "fold (\<lambda>f. case parse_ip f of Some ip \<Rightarrow> push_addr ip | None \<Rightarrow> id) fs so = fold push_addr ips so"
  using assms
proof (induction fs arbitrary: ips so)
  case (Cons f fs)
  then obtain ip ips' where "ips = ip # ips'" "parse_ip f = Some ip" "map parse_ip fs = map Some ips'"
    by (cases ips) auto
  with Cons.IH [of ips' "push_addr ip so"] show ?case by simp
qed simp

lemma api_addrs_eq:
  "api_addrs resolved = map (\<lambda>ip. (ip, 443)) (firsts
     ((case resolved of Inr ips \<Rightarrow> ips | Inl _ \<Rightarrow> [])
      @ [V4 (Ipv4 104 16 24 84), V4 (Ipv4 104 16 192 82)]))"
proof -
  let ?fb = "[V4 (Ipv4 104 16 24 84), V4 (Ipv4 104 16 192 82)]"
  define ips where "ips = (case resolved of Inr ips \<Rightarrow> ips | Inl _ \<Rightarrow> [])"
  have f: "map parse_ip API_FALLBACK_IPS = map Some ?fb"
    by (simp only: fallback_ips list.map)
  have "api_addrs resolved = snd (fold push_addr ?fb (fold push_addr ips ({}, [])))"
    by (cases resolved) (simp_all add: api_addrs_def ips_def fold_push_parsed [OF f] Let_def)
  also have "\<dots> = snd (fold push_addr (ips @ ?fb) ({}, []))"
    by (simp only: fold_append o_apply)
  finally show ?thesis
    by (simp only: fold_push_addr snd_conv ips_def)
qed

lemma with_doh_bypass_eq:
  "with_doh_bypass client resolved = map_err Http (client (api_addrs resolved))"
proof -
  have "set (api_addrs resolved) \<noteq> {}"
    unfolding api_addrs_eq by simp
  then have "api_addrs resolved \<noteq> []" by auto
  then show ?thesis by (simp add: with_doh_bypass_def Let_def)
qed

lemma account_from_json_id:
  "account_from_json j = Inr a \<Longrightarrow> \<exists>fs. j = JObj fs \<and> field_with as_string fs (lit ''id'') None = Inr (ad_id a)"
  by (cases j) (auto simp: account_from_json_def result_simps)

lemma send_json_ok:
  assumes "send_json E req = Inr a"
  obtains code body j where "api_send E req = Inr (code, Inr body)" and "200 \<le> code" and "code < 300"
    and "api_parse E body = Inr j" and "account_from_json j = Inr a"
  using assms by (auto simp: send_json_def result_simps split: if_splits)

lemma register_ok:
  assumes "register E opts = Inr cfg"
  obtains account token enrolled where "create_account E opts = Inr account"
    and "ad_token account = Some token"
    and "enroll_key E (ad_id account) token \<lparr>secret = api_new_key E\<rparr> (ro_device_name opts) = Inr enrolled"
    and "build_config (api_keys E) \<lparr>secret = api_new_key E\<rparr> token enrolled = Inr cfg"
  using assms by (auto simp: register_def result_simps Let_def)

lemma build_config_ok:
  assumes "build_config L kp token data = Inr cfg"
  obtains peer rest where "ad_peers data = peer # rest" and "private_b64 L kp = Inr (private_key cfg)"
    and "strip_v4_port (peer_v4 peer) = Inr (endpoint_v4 cfg)"
    and "strip_v6_brackets (peer_v6 peer) = Inr (endpoint_v6 cfg)"
    and "endpoint_h2_v4 cfg = DEFAULT_ENDPOINT_H2_V4" and "endpoint_pub_key cfg = peer_public_key peer"
    and "access_token cfg = token" and "device_id cfg = ad_id data"
    and "cfg_ipv4 cfg = ad_v4 data" and "cfg_ipv6 cfg = ad_v6 data"
  using assms by (cases "ad_peers data") (auto simp: build_config_def result_simps)

text \<open>What the API sends as an endpoint, as the helpers read it.\<close>

lemma endpoint_strings:
  assumes "\<forall>c \<in> set port. 48 \<le> c \<and> c \<le> 57"
  shows "strip_v4_port (show_ipv4 a @ 58 # port) = Inr (show_ipv4 a)"
    and "strip_v6_brackets (91 # show_ipv6 b @ 93 # 58 # port) = Inr (show_ipv6 b)"
proof -
  have d: "\<not> is_whitespace c" if "c \<in> set port" for c
    using assms that by (auto simp: is_whitespace_def)
  have w: "\<not> is_whitespace c" if "c \<in> set (show_ipv4 a) \<or> c \<in> set (show_ipv6 b)" for c
    using that show_ip_ip_char [of c "V4 a"] show_ip_ip_char [of c "V6 b"] ip_char_ascii by auto
  have "trim (show_ipv4 a @ 58 # port) = show_ipv4 a @ 58 # port"
    using d w by (intro trim_id) (auto simp: is_whitespace_def [of 58])
  moreover have "show_ipv4 a \<noteq> []" by (cases a) simp
  ultimately show "strip_v4_port (show_ipv4 a @ 58 # port) = Inr (show_ipv4 a)"
    using assms by (intro strip_v4_port_port) auto
  have "trim (91 # show_ipv6 b @ 93 # 58 # port) = 91 # show_ipv6 b @ 93 # 58 # port"
    using d w by (intro trim_id) (auto simp: is_whitespace_def [of 58] is_whitespace_def [of 91]
        is_whitespace_def [of 93] simp del: show_ipv6.simps)
  then show "strip_v6_brackets (91 # show_ipv6 b @ 93 # 58 # port) = Inr (show_ipv6 b)"
    using assms by (intro strip_v6_brackets_port [where port = "58 # port"]) auto
qed

section \<open>Properties\<close>

text \<open>
  C15. Registration keeps the key it enrolled: when \<open>register\<close> returns a configuration, the account was
  created first and answered with a token, the enrolment was sent to that account's URL with that
  token as bearer, and the base64 key it carried decodes to the public half of the very key that the
  configuration's \<open>private_key\<close> decodes to. The token is kept as \<open>access_token\<close> and the pinned key and
  device id are those of the enrolment answer.
\<close>

theorem register_stores_enrolled_key:
  assumes "key_lib_laws (api_keys E)" and "register E opts = Inr cfg"
  shows "\<exists>account token pub enrolled peer rest der. let kp = \<lparr>secret = api_new_key E\<rparr> in
      send_json E (create_request E opts) = Inr account \<and> ad_token account = Some token
    \<and> send_json E (enroll_request (ad_id account) token pub (ro_device_name opts)) = Inr enrolled
    \<and> from_private_b64 (api_keys E) (private_key cfg) = Inr kp
    \<and> b64_decode (api_keys E) pub = Inr der
    \<and> from_spki_der (api_keys E) der = Inr (public_of (api_keys E) (secret kp))
    \<and> access_token cfg = token \<and> device_id cfg = ad_id enrolled
    \<and> ad_peers enrolled = peer # rest \<and> endpoint_pub_key cfg = peer_public_key peer"
proof -
  let ?kp = "\<lparr>secret = api_new_key E\<rparr>"
  from assms(2) obtain account token enrolled where r: "create_account E opts = Inr account"
    "ad_token account = Some token"
    "enroll_key E (ad_id account) token ?kp (ro_device_name opts) = Inr enrolled"
    and b: "build_config (api_keys E) ?kp token enrolled = Inr cfg"
    by (rule register_ok)
  from r(3) obtain pub where pub: "public_spki_b64 (api_keys E) ?kp = Inr pub"
    "send_json E (enroll_request (ad_id account) token pub (ro_device_name opts)) = Inr enrolled"
    by (auto simp: enroll_key_def result_simps)
  from public_key_roundtrip [OF assms(1) pub(1)] obtain der where
    "b64_decode (api_keys E) pub = Inr der"
    "from_spki_der (api_keys E) der = Inr (public_of (api_keys E) (secret ?kp))" by blast
  moreover from b obtain peer rest where c: "ad_peers enrolled = peer # rest"
    "private_b64 (api_keys E) ?kp = Inr (private_key cfg)" "access_token cfg = token"
    "device_id cfg = ad_id enrolled" "endpoint_pub_key cfg = peer_public_key peer"
    by (rule build_config_ok)
  moreover have "from_private_b64 (api_keys E) (private_key cfg) = Inr ?kp"
    by (rule private_key_roundtrip [OF assms(1) c(2)])
  moreover have "send_json E (create_request E opts) = Inr account"
    using r(1) by (simp add: create_account_def)
  ultimately show ?thesis
    using r(2) pub(2) unfolding Let_def by blast
qed

text \<open>
  C37. A registered configuration can be dialled: when the API names its endpoints as \<open>a.b.c.d:port\<close> and
  \<open>[v6]:port\<close> and the assigned IPv4 as \<open>a.b.c.d/len\<close>, every configuration \<open>build_config\<close> makes of it
  has the endpoint's address on port 443 over either transport and a tunnel address that parses; with
  an unusable IPv4 endpoint the IPv6 one is dialled.
\<close>

theorem registered_config_usable:
  assumes "build_config L kp token data = Inr cfg" and "ad_peers data = peer # rest"
    and "peer_v4 peer = show_ipv4 a @ 58 # port" and "peer_v6 peer = 91 # show_ipv6 b @ 93 # 58 # port"
    and "\<forall>c \<in> set port. 48 \<le> c \<and> c \<le> 57" and "ipv6_wf b"
    and "ad_v4 data = show_ipv4 t @ 47 # len" and "\<forall>c \<in> set len. \<not> is_whitespace c"
  shows "quic_endpoint cfg = Inr (V4 a, 443) \<and> h2_endpoint cfg = Inr (V4 (Ipv4 162 159 198 2), 443)
    \<and> parse_assigned_v4 (cfg_ipv4 cfg) = Inr t
    \<and> quic_endpoint (cfg\<lparr>endpoint_v4 := []\<rparr>) = Inr (V6 b, 443)"
proof -
  from assms(1) obtain peer' rest' where "ad_peers data = peer' # rest'"
    "strip_v4_port (peer_v4 peer') = Inr (endpoint_v4 cfg)"
    "strip_v6_brackets (peer_v6 peer') = Inr (endpoint_v6 cfg)"
    "endpoint_h2_v4 cfg = DEFAULT_ENDPOINT_H2_V4" "cfg_ipv4 cfg = ad_v4 data"
    by (rule build_config_ok)
  with assms endpoint_strings [OF assms(5)] have e: "endpoint_v4 cfg = show_ipv4 a"
    "endpoint_v6 cfg = show_ipv6 b" "endpoint_h2_v4 cfg = show_ipv4 (Ipv4 162 159 198 2)"
    "cfg_ipv4 cfg = show_ipv4 t @ 47 # len"
    by (simp_all add: default_endpoint_h2 del: show_ipv4.simps show_ipv6.simps)
  have t4: "trim (show_ipv4 x) = show_ipv4 x" for x using trim_show_ip [of "V4 x"] by simp
  have t6: "trim (show_ipv6 b) = show_ipv6 b"
    using trim_show_ip [of "V6 b"] by (simp del: show_ipv6.simps)
  have ne: "show_ipv4 x \<noteq> []" for x by (cases x) simp
  have "parse_ipv4 [] = None"
    by (simp add: parse_ipv4_def utf8_def parse_with_def read_ipv4_no_dot)
  then show ?thesis
    using assms(6,8) parse_assigned_v4_show(2) [of len t]
    by (simp add: quic_endpoint_def h2_endpoint_def e t4 t6 ne MASQUE_PORT_def trim_id
        default_endpoint_h2 del: show_ipv4.simps show_ipv6.simps)
qed

text \<open>
  The addresses tried for the registration API are the resolved ones in their order, then the
  baked-in ones, each once, on port 443. The list is never empty, so the bypass client is always
  built over it.
\<close>

theorem api_addrs_exact:
  "api_addrs resolved = map (\<lambda>ip. (ip, 443)) (firsts
      ((case resolved of Inr ips \<Rightarrow> ips | Inl _ \<Rightarrow> [])
       @ [V4 (Ipv4 104 16 24 84), V4 (Ipv4 104 16 192 82)]))
   \<and> distinct (api_addrs resolved) \<and> with_doh_bypass client resolved = map_err Http (client (api_addrs resolved))"
  by (simp only: api_addrs_eq with_doh_bypass_eq) (simp add: distinct_map inj_on_def)

text \<open>
  C30. \<open>register_auto\<close> falls back exactly when the direct attempt fails: once the default client is
  built it succeeds with the configuration of the direct registration, or, when that failed, with
  that of a registration pinned to \<open>api_addrs\<close>; when both fail the error is a response error
  naming both causes.
\<close>

theorem register_auto_falls_back:
  assumes "client [] = Inr direct"
  shows "(register_auto client resolved opts = Inr cfg \<longleftrightarrow>
      register direct opts = Inr cfg
      \<or> (\<exists>e bypass. register direct opts = Inl e \<and> client (api_addrs resolved) = Inr bypass
           \<and> register bypass opts = Inr cfg))
    \<and> (\<forall>e bypass e'. register direct opts = Inl e \<and> client (api_addrs resolved) = Inr bypass
         \<and> register bypass opts = Inl e'
         \<longrightarrow> register_auto client resolved opts = Inl (Response (lit ''register failed (direct: ''
              @ error_text e @ lit ''; doh-bypass: '' @ error_text e' @ lit '')'')))"
  using assms
  by (auto simp: register_auto_def with_default_client_def with_doh_bypass_eq result_simps
      split: sum.splits)

section \<open>A concrete run\<close>

text \<open>
  Keys with a lawful encoding, and an API that answers the two calls: an account with a token for the
  \<open>POST\<close>, one peer and the assigned addresses for the \<open>PATCH\<close>.
\<close>

definition lawful_keys :: "(u8, u8) key_lib" where
  "lawful_keys = toy_keys\<lparr>b64_encode := map (\<lambda>b. 256 + unat b),
     b64_decode := (\<lambda>s. Inr (map (\<lambda>c. of_nat (c - 256)) s))\<rparr>"

definition toy_peer :: json where
  "toy_peer = JObj [(lit ''public_key'', JStr (lit ''PEM'')),
     (lit ''endpoint'', JObj [(lit ''v4'', JStr (lit ''162.159.198.1:0'')), (lit ''v6'', JStr (lit ''[::]:0''))])]"

definition toy_answer :: "rstr \<Rightarrow> rstr + json" where
  "toy_answer body =
     (if body = [1] then Inr (JObj [(lit ''id'', JStr (lit ''dev'')), (lit ''token'', JStr (lit ''tok''))])
      else Inr (JObj [(lit ''id'', JStr (lit ''dev'')),
        (lit ''config'', JObj [(lit ''peers'', JArr [toy_peer])])]))"

definition toy_api :: "nat \<Rightarrow> (u8, u8) api_env" where
  "toy_api status = \<lparr>api_send = (\<lambda>req. Inr (status, Inr (if api_method req = lit ''POST'' then [1] else [2]))),
     api_parse = toy_answer, api_wg_random = [1, 2], api_serial_random = [3], api_now = [],
     api_new_key = 7, api_keys = lawful_keys\<rparr>"

lemma lawful_keys_ok: "key_lib_laws lawful_keys"
proof -
  have w: "\<not> is_whitespace (256 + unat b)" for b :: u8
    using unat_byte_less [of b] by (auto simp: is_whitespace_def)
  have "trim (map (\<lambda>b :: u8. 256 + unat b) bs) = map (\<lambda>b. 256 + unat b) bs" for bs
    using w by (intro trim_id) auto
  moreover have "map ((\<lambda>c. of_nat (c - 256)) \<circ> (\<lambda>b :: u8. 256 + unat b)) bs = bs" for bs
    by (induction bs) simp_all
  ultimately show ?thesis
    by (auto simp: key_lib_laws_def lawful_keys_def toy_keys_def)
qed

definition toy_registered :: warp_config where
  "toy_registered = \<lparr>private_key = [263], endpoint_v4 = lit ''162.159.198.1'', endpoint_v6 = lit ''::'',
     endpoint_h2_v4 = DEFAULT_ENDPOINT_H2_V4, endpoint_h2_v6 = [], endpoint_pub_key = lit ''PEM'',
     device_id = lit ''dev'', access_token = lit ''tok'', cfg_ipv4 = [], cfg_ipv6 = []\<rparr>"

lemmas decode_simps = account_from_json_def reg_config_from_json_def interface_from_json_def
  peer_from_json_def addresses_from_json_def field_with_def

lemma toy_account: "create_account (toy_api 200) opts
    = Inr \<lparr>ad_id = lit ''dev'', ad_token = Some (lit ''tok''), ad_peers = [], ad_v4 = [], ad_v6 = []\<rparr>"
  by (simp add: create_account_def create_request_def send_json_def toy_api_def toy_answer_def decode_simps)

lemma toy_enroll: "enroll_key (toy_api 200) dev tok \<lparr>secret = 7\<rparr> nm
    = Inr \<lparr>ad_id = lit ''dev'', ad_token = None, ad_peers = [\<lparr>peer_public_key = lit ''PEM'',
        peer_v4 = lit ''162.159.198.1:0'', peer_v6 = lit ''[::]:0''\<rparr>], ad_v4 = [], ad_v6 = []\<rparr>"
  by (simp add: enroll_key_def enroll_request_def send_json_def toy_api_def toy_answer_def toy_peer_def
      public_spki_b64_def lawful_keys_def toy_keys_def decode_simps)

lemma toy_register: "register (toy_api 200) opts = Inr toy_registered"
proof -
  have "strip_v4_port (lit ''162.159.198.1:0'') = Inr (lit ''162.159.198.1'')"
    "strip_v6_brackets (lit ''[::]:0'') = Inr (lit ''::'')"
    using endpoint_strings(1) [of "[48]" "Ipv4 162 159 198 1"]
      endpoint_strings(2) [of "[48]" "Ipv6 [0, 0, 0, 0, 0, 0, 0, 0]"]
    by (simp_all add: lit_simps show_radix.simps digit_char_def)
  moreover have "api_keys (toy_api 200) = lawful_keys" "api_new_key (toy_api 200) = 7"
    by (simp_all add: toy_api_def)
  moreover have "private_b64 lawful_keys \<lparr>secret = 7\<rparr> = Inr [263]"
    by (simp add: private_b64_def lawful_keys_def toy_keys_def)
  ultimately show ?thesis
    by (simp add: register_def toy_account toy_enroll build_config_def toy_registered_def)
qed

theorem register_stores_enrolled_key_witness:
  "from_private_b64 lawful_keys (private_key toy_registered) = Inr \<lparr>secret = 7\<rparr>"
proof -
  have "api_keys (toy_api 200) = lawful_keys" "api_new_key (toy_api 200) = 7"
    by (simp_all add: toy_api_def)
  then show ?thesis
    using register_stores_enrolled_key [OF _ toy_register, of default_options] lawful_keys_ok
    by (auto simp: Let_def)
qed

definition toy_enrolled :: account_data where
  "toy_enrolled = \<lparr>ad_id = [], ad_token = None, ad_peers = [\<lparr>peer_public_key = [],
       peer_v4 = show_ipv4 (Ipv4 162 159 198 1) @ 58 # [48],
       peer_v6 = 91 # show_ipv6 (Ipv6 [1, 2, 3, 4, 5, 6, 7, 8]) @ 93 # 58 # [48]\<rparr>],
     ad_v4 = show_ipv4 (Ipv4 172 16 0 2) @ 47 # [51, 50], ad_v6 = []\<rparr>"

theorem registered_config_usable_witness:
  "\<exists>cfg. build_config lawful_keys \<lparr>secret = 7\<rparr> [116] toy_enrolled = Inr cfg
     \<and> quic_endpoint cfg = Inr (V4 (Ipv4 162 159 198 1), 443)"
proof -
  note endpoint_strings [of "[48]"]
  then have "\<exists>cfg. build_config lawful_keys \<lparr>secret = 7\<rparr> [116] toy_enrolled = Inr cfg"
    by (simp add: build_config_def toy_enrolled_def private_b64_def lawful_keys_def toy_keys_def
        del: show_ipv4.simps show_ipv6.simps)
  then obtain cfg where cfg: "build_config lawful_keys \<lparr>secret = 7\<rparr> [116] toy_enrolled = Inr cfg" ..
  have "ipv6_wf (Ipv6 [1, 2, 3, 4, 5, 6, 7, 8])" by (simp add: ipv6_wf_def)
  from registered_config_usable [OF cfg _ _ _ _ this, of _ "[]" "Ipv4 162 159 198 1" "[48]"
      "Ipv4 172 16 0 2" "[51, 50]"] cfg show ?thesis
    by (simp add: toy_enrolled_def is_whitespace_def del: show_ipv4.simps show_ipv6.simps)
qed

theorem register_auto_falls_back_witness:
  "register_auto (\<lambda>addrs. Inr (toy_api (if addrs = [] then 403 else 200))) (Inl (Http [])) default_options
    = Inr toy_registered"
proof -
  let ?client = "\<lambda>addrs. Inr (toy_api (if addrs = [] then 403 else 200)) :: rstr + (u8, u8) api_env"
  have "register (toy_api 403) default_options = Inl (Api 403 [1])"
    by (simp add: register_def create_account_def create_request_def send_json_def toy_api_def)
  moreover have "api_addrs (Inl (Http [])) \<noteq> []"
    by (simp add: api_addrs_eq firsts_def)
  moreover have "register (toy_api 200) default_options = Inr toy_registered"
    by (rule toy_register)
  ultimately show ?thesis
    using register_auto_falls_back [of ?client "toy_api 403" "Inl (Http [])" default_options toy_registered]
    by simp
qed

end
