(* ===== verification/Daemon.thy ===== *)
theory Daemon
  imports Register Pool_Service
begin

text \<open>
  The daemon of \<open>crates/warp-proxy/src/main.rs\<close>: its arguments, the provisioning of accounts from the
  state directory or by registration, the control token, and the start-up sequence with its handshake
  line. The operating system, the registrations and the random bytes are the fields of \<open>os_env\<close>.
\<close>

section \<open>Arguments\<close>

record args =
  arg_accounts :: nat
  arg_socks :: rstr
  arg_control :: rstr
  arg_state_dir :: "rstr option"
  arg_http2 :: bool

definition default_args :: args where
  "default_args = \<lparr>arg_accounts = 2, arg_socks = lit ''127.0.0.1:1080'',
     arg_control = lit ''127.0.0.1:47100'', arg_state_dir = None, arg_http2 = False\<rparr>"

definition parse_usize :: "rstr \<Rightarrow> nat option" where
  "parse_usize s = parse_unsigned 64 s"

text \<open>
  The loop over the arguments. An option that takes a value consumes the next argument, whatever it is;
  at the end of the list it keeps the old value, but for \<open>--state-dir\<close>, which is then unset.
\<close>

fun parse_args_loop :: "args \<Rightarrow> rstr list \<Rightarrow> args" where
  "parse_args_loop a [] = a"
| "parse_args_loop a [arg] =
     (if arg = lit ''--state-dir'' then a\<lparr>arg_state_dir := None\<rparr>
      else if arg = lit ''--http2'' then a\<lparr>arg_http2 := True\<rparr>
      else a)"
| "parse_args_loop a (arg # v # rest) =
     (if arg = lit ''--accounts'' then
        parse_args_loop (a\<lparr>arg_accounts := (case parse_usize v of Some n \<Rightarrow> n | None \<Rightarrow> arg_accounts a)\<rparr>) rest
      else if arg = lit ''--socks'' then parse_args_loop (a\<lparr>arg_socks := v\<rparr>) rest
      else if arg = lit ''--control'' then parse_args_loop (a\<lparr>arg_control := v\<rparr>) rest
      else if arg = lit ''--state-dir'' then parse_args_loop (a\<lparr>arg_state_dir := Some v\<rparr>) rest
      else if arg = lit ''--http2'' then parse_args_loop (a\<lparr>arg_http2 := True\<rparr>) (v # rest)
      else parse_args_loop a (v # rest))"

definition parse_args :: "rstr list \<Rightarrow> args" where
  "parse_args argv =
     (let a = parse_args_loop default_args argv in a\<lparr>arg_accounts := max (arg_accounts a) 1\<rparr>)"

section \<open>Provisioning\<close>

text \<open>\<open>anyhow::Error\<close>: the contexts added to an error, the outermost first.\<close>

type_synonym anyhow = "rstr list \<times> error"

definition with_context :: "rstr \<Rightarrow> anyhow + 'a \<Rightarrow> anyhow + 'a" where
  "with_context msg r = map_err (\<lambda>(ctxs, e). (msg # ctxs, e)) r"

definition anyhow :: "error + 'a \<Rightarrow> anyhow + 'a" where
  "anyhow r = map_err (\<lambda>e. ([], e)) r"

text \<open>
  The state: the files, whether the state directory exists, and the registrations asked for so far.
  \<open>os_register k opts\<close> is the outcome of the \<open>k\<close>-th registration.
\<close>

record disk =
  files :: fs
  dir_there :: bool
  asked :: "register_options list"

record os_env =
  os_parse :: "bytes \<Rightarrow> rstr + json"
  os_print :: "json \<Rightarrow> rstr + bytes"
  os_fail :: "fs_op \<Rightarrow> rstr option"
  os_umask :: nat
  os_register :: "nat \<Rightarrow> register_options \<Rightarrow> error + warp_config"

definition join_path :: "rstr \<Rightarrow> rstr \<Rightarrow> rstr" where
  "join_path dir name = (if dir = [] \<or> last dir = 47 then dir @ name else dir @ [47] @ name)"

definition account_path :: "rstr \<Rightarrow> nat \<Rightarrow> rstr" where
  "account_path dir i = join_path dir (lit ''account-'' @ show_nat i @ lit ''.json'')"

definition account_opts :: "nat \<Rightarrow> register_options" where
  "account_opts i = default_options\<lparr>ro_device_name := Some (lit ''warp-proxy-'' @ show_nat i)\<rparr>"

definition create_dir_all :: "os_env \<Rightarrow> disk \<Rightarrow> disk" where
  "create_dir_all E d = (if os_fail E OpMkdir = None then d\<lparr>dir_there := True\<rparr> else d)"

text \<open>Writing into a directory that does not exist fails.\<close>

definition op_fails :: "os_env \<Rightarrow> disk \<Rightarrow> fs_op \<Rightarrow> rstr option" where
  "op_fails E d op =
     (if op = OpWrite \<and> \<not> dir_there d then Some (lit ''No such file or directory (os error 2)'')
      else os_fail E op)"

definition ask :: "os_env \<Rightarrow> nat \<Rightarrow> disk \<Rightarrow> (anyhow + warp_config) \<times> disk" where
  "ask E i d =
     (anyhow (os_register E (length (asked d)) (account_opts i)), d\<lparr>asked := asked d @ [account_opts i]\<rparr>)"

definition provision_one :: "os_env \<Rightarrow> rstr option \<Rightarrow> nat \<Rightarrow> disk \<Rightarrow> (anyhow + warp_config) \<times> disk" where
  "provision_one E state_dir i d =
     (case state_dir of
        Some dir \<Rightarrow>
          (let path = account_path dir i in
           if files d path \<noteq> None then
             (with_context (lit ''loading '' @ path)
                (anyhow (load_config (os_parse E) (os_fail E) path (files d))), d)
           else
             (case ask E i d of
                (Inl e, d) \<Rightarrow> (Inl e, d)
              | (Inr cfg, d) \<Rightarrow>
                  (let d = create_dir_all E d;
                       (r, states) = save_config (os_print E) (op_fails E d) (os_umask E) cfg path (files d);
                       d = d\<lparr>files := last states\<rparr> in
                   (case r of
                      Inl e \<Rightarrow> (Inl ([lit ''saving '' @ path], e), d)
                    | Inr _ \<Rightarrow> (Inr cfg, d)))))
      | None \<Rightarrow> ask E i d)"

fun provision :: "os_env \<Rightarrow> rstr option \<Rightarrow> nat list \<Rightarrow> disk \<Rightarrow> (anyhow + warp_config list) \<times> disk" where
  "provision E state_dir [] d = (Inr [], d)"
| "provision E state_dir (i # is) d =
     (case provision_one E state_dir i d of
        (Inl e, d) \<Rightarrow> (Inl e, d)
      | (Inr cfg, d) \<Rightarrow>
          (case provision E state_dir is d of
             (Inl e, d) \<Rightarrow> (Inl e, d)
           | (Inr cfgs, d) \<Rightarrow> (Inr (cfg # cfgs), d)))"

definition load_or_register :: "os_env \<Rightarrow> rstr option \<Rightarrow> nat \<Rightarrow> disk \<Rightarrow> (anyhow + warp_config list) \<times> disk" where
  "load_or_register E state_dir n d = provision E state_dir [1..<Suc n] d"

section \<open>Start-up\<close>

definition gen_token :: "bytes \<Rightarrow> rstr" where
  "gen_token b = concat (map hex_byte b)"

fun show_socket_addr :: "sock_addr \<Rightarrow> rstr" where
  "show_socket_addr (V4 ip, port) = show_ipv4 ip @ [58] @ show_nat (unat port)"
| "show_socket_addr (V6 ip, port) = [91] @ show_ipv6 ip @ [93, 58] @ show_nat (unat port)"

definition handshake :: "u16 \<Rightarrow> sock_addr \<Rightarrow> rstr \<Rightarrow> json" where
  "handshake socks_port control_addr token = JObj
     [(lit ''socksPort'', JNum (int (unat socks_port))),
      (lit ''controlUrl'', JStr (lit ''http://'' @ show_socket_addr control_addr)),
      (lit ''controlToken'', JStr token)]"

text \<open>What a started daemon has: its pool, the two listeners, the token and the line it printed.\<close>

record 'n daemon =
  dm_pool :: "'n system"
  dm_socks :: sock_addr
  dm_control :: sock_addr
  dm_token :: rstr
  dm_line :: json

text \<open>
  \<open>main\<close> up to the handshake: \<open>bind\<close> gives the local address of a listener bound to a string, \<open>random\<close>
  the bytes of the token.
\<close>

definition start_daemon :: "os_env \<Rightarrow> (nat \<Rightarrow> inputs \<Rightarrow> error + tunnel \<times> 'n) \<Rightarrow> (rstr \<Rightarrow> rstr + sock_addr)
    \<Rightarrow> bytes \<Rightarrow> rstr list \<Rightarrow> disk \<Rightarrow> (anyhow + 'n daemon) \<times> disk" where
  "start_daemon E build bind random argv d =
     (let a = parse_args argv in
      case load_or_register E (arg_state_dir a) (arg_accounts a) d of
        (r, d) \<Rightarrow>
          (rbind (with_context (lit ''provisioning accounts'') r) (\<lambda>configs.
           let pool = pool_new build configs (arg_http2 a); token = gen_token random in
           rbind (with_context (lit ''binding SOCKS '' @ arg_socks a) (anyhow (map_err Io (bind (arg_socks a)))))
             (\<lambda>socks.
           rbind (with_context (lit ''binding control '' @ arg_control a)
               (anyhow (map_err Io (bind (arg_control a))))) (\<lambda>control.
           Inr \<lparr>dm_pool = pool, dm_socks = socks, dm_control = control, dm_token = token,
                dm_line = handshake (snd socks) control token\<rparr>))), d))"

section \<open>Facts\<close>

lemma show_nat_inj: "show_nat m = show_nat n \<longleftrightarrow> m = n"
proof
  assume "show_nat m = show_nat n"
  then have "digits_val 10 (show_nat m) = digits_val 10 (show_nat n)" by (rule arg_cong)
  then show "m = n" by (simp add: digits_val_show)
qed simp

lemma account_path_inj: "account_path dir i = account_path dir j \<longleftrightarrow> i = j"
  by (simp add: account_path_def join_path_def show_nat_inj)

lemma anyhow_simps [simp]: "anyhow (Inl e) = Inl ([], e)" "anyhow (Inr a) = Inr a"
  by (simp_all add: anyhow_def)

lemma with_context_Inr [simp]: "with_context msg (Inr a) = Inr a"
  by (simp add: with_context_def)

lemma with_context_Inr_iff [result_simps]: "with_context msg r = Inr a \<longleftrightarrow> r = Inr a"
  by (simp add: with_context_def result_simps)

lemma anyhow_Inr_iff [result_simps]: "anyhow r = Inr a \<longleftrightarrow> r = Inr a"
  by (simp add: anyhow_def result_simps)

lemma hex_byte_inj: "hex_byte a = hex_byte b \<longleftrightarrow> a = b"
proof
  assume "hex_byte a = hex_byte b"
  then have "unat a = unat b"
    using digits_val_hex_byte [of a] digits_val_hex_byte [of b] by simp
  then show "a = b" by (simp add: word_unat_eq_iff)
qed simp

lemma length_gen_token [simp]: "length (gen_token b) = 2 * length b"
  by (induction b) (simp_all add: gen_token_def)

lemma gen_token_inj: "length b = length c \<Longrightarrow> gen_token b = gen_token c \<longleftrightarrow> b = c"
proof (induction b c rule: list_induct2)
  case (Cons x xs y ys)
  then show ?case
    by (simp add: gen_token_def hex_byte_inj append_eq_append_conv)
qed simp

text \<open>
  An account is provisioned: its file exists and reads back as the configuration. The parser undoes
  the printer.
\<close>

definition provisioned :: "os_env \<Rightarrow> rstr \<Rightarrow> fs \<Rightarrow> nat \<Rightarrow> warp_config \<Rightarrow> bool" where
  "provisioned E dir fs i cfg \<longleftrightarrow>
     (\<exists>f. fs (account_path dir i) = Some f
        \<and> rbind (map_err Json (os_parse E (file_bytes f))) config_from_json = Inr cfg)"

definition parser_inverts :: "os_env \<Rightarrow> bool" where
  "parser_inverts E \<longleftrightarrow> (\<forall>j bs. os_print E j = Inr bs \<longrightarrow> os_parse E bs = Inr j)"

lemma provisioned_load:
  "provisioned E dir fs i cfg \<Longrightarrow> fail OpRead = None \<Longrightarrow>
    fs (account_path dir i) \<noteq> None \<and> load_config (os_parse E) fail (account_path dir i) fs = Inr cfg"
  by (auto simp: provisioned_def load_config_def)

lemma provision_one_ok:
  assumes "parser_inverts E" and "provision_one E (Some dir) i d = (Inr cfg, d')"
  shows "provisioned E dir (files d') i cfg"
    and "q \<noteq> account_path dir i \<Longrightarrow> files d' q = files d q"
    and "asked d' = asked d @ (if files d (account_path dir i) = None then [account_opts i] else [])"
    and "files d (account_path dir i) = None \<Longrightarrow>
      map_option file_mode (files d' (account_path dir i)) = Some 384"
    and "files d (account_path dir i) \<noteq> None \<Longrightarrow> d' = d"
proof -
  let ?p = "account_path dir i"
  have "provisioned E dir (files d') i cfg \<and> (\<forall>q. q \<noteq> ?p \<longrightarrow> files d' q = files d q)
    \<and> asked d' = asked d @ (if files d ?p = None then [account_opts i] else [])
    \<and> (files d ?p = None \<longrightarrow> map_option file_mode (files d' ?p) = Some 384)
    \<and> (files d ?p \<noteq> None \<longrightarrow> d' = d)"
  proof (cases "files d ?p")
    case None
    let ?d = "create_dir_all E (d\<lparr>asked := asked d @ [account_opts i]\<rparr>)"
    have d: "files ?d = files d" "asked ?d = asked d @ [account_opts i]"
      by (simp_all add: create_dir_all_def)
    obtain r states where sv: "save_config (os_print E) (op_fails E ?d) (os_umask E) cfg ?p (files d) = (r, states)"
      by (cases "save_config (os_print E) (op_fails E ?d) (os_umask E) cfg ?p (files d)")
    from assms(2) None sv have ok: "r = Inr ()" and d': "d' = ?d\<lparr>files := last states\<rparr>"
      by (auto simp: provision_one_def ask_def d result_simps Let_def split: sum.splits prod.splits)
    with sv obtain js where js: "os_print E (config_to_json cfg) = Inr js"
      and "last states = (files d)(?p \<mapsto> \<lparr>file_bytes = js, file_mode = 384\<rparr>)"
      by (auto elim: save_config_okE)
    moreover have "os_parse E js = Inr (config_to_json cfg)"
      using assms(1) js by (simp add: parser_inverts_def)
    ultimately show ?thesis
      using d d' None by (simp add: provisioned_def config_roundtrip)
  next
    case (Some f)
    with assms(2) show ?thesis
      by (auto simp: provision_one_def provisioned_def load_config_def result_simps Let_def
          split: option.splits)
  qed
  then show "provisioned E dir (files d') i cfg"
    "q \<noteq> ?p \<Longrightarrow> files d' q = files d q"
    "asked d' = asked d @ (if files d ?p = None then [account_opts i] else [])"
    "files d ?p = None \<Longrightarrow> map_option file_mode (files d' ?p) = Some 384"
    "files d ?p \<noteq> None \<Longrightarrow> d' = d"
    by blast+
qed

lemma provision_ok:
  assumes "parser_inverts E" and "provision E (Some dir) is d = (Inr cfgs, d')" and "distinct is"
  shows "list_all2 (provisioned E dir (files d')) is cfgs
    \<and> (\<forall>q. q \<notin> account_path dir ` set is \<longrightarrow> files d' q = files d q)
    \<and> asked d' = asked d @ map account_opts (filter (\<lambda>i. files d (account_path dir i) = None) is)
    \<and> (\<forall>i \<in> set is. files d (account_path dir i) = None \<longrightarrow>
         map_option file_mode (files d' (account_path dir i)) = Some 384)"
  using assms(2,3)
proof (induction "is" arbitrary: d cfgs)
  case (Cons i "is")
  let ?p = "account_path dir i"
  from Cons.prems obtain cfg d1 cfgs1 where one: "provision_one E (Some dir) i d = (Inr cfg, d1)"
    and rest: "provision E (Some dir) is d1 = (Inr cfgs1, d')" and cfgs: "cfgs = cfg # cfgs1"
    by (auto split: prod.splits sum.splits)
  note first = provision_one_ok [OF assms(1) one]
  have IH: "list_all2 (provisioned E dir (files d')) is cfgs1"
    "\<And>q. q \<notin> account_path dir ` set is \<Longrightarrow> files d' q = files d1 q"
    "asked d' = asked d1 @ map account_opts (filter (\<lambda>i. files d1 (account_path dir i) = None) is)"
    "\<forall>j \<in> set is. files d1 (account_path dir j) = None \<longrightarrow>
      map_option file_mode (files d' (account_path dir j)) = Some 384"
    using Cons.IH [OF rest] Cons.prems(2) by auto
  have i: "?p \<notin> account_path dir ` set is"
    using Cons.prems(2) by (auto simp: account_path_inj)
  have same: "files d1 (account_path dir j) = files d (account_path dir j)" if "j \<in> set is" for j
    using first(2) [of "account_path dir j"] that Cons.prems(2) by (auto simp: account_path_inj)
  have "filter (\<lambda>i. files d1 (account_path dir i) = None) is
      = filter (\<lambda>i. files d (account_path dir i) = None) is"
    by (intro filter_cong) (simp_all add: same)
  moreover have p: "files d' ?p = files d1 ?p"
    by (rule IH(2) [OF i])
  moreover have "provisioned E dir (files d') i cfg"
    using first(1) by (simp add: provisioned_def p)
  ultimately show ?case
    using first IH same by (auto simp: cfgs)
qed simp

lemma provision_loads:
  assumes "list_all2 (provisioned E dir (files d)) is cfgs" and "os_fail E' OpRead = None"
    and "os_parse E' = os_parse E"
  shows "provision E' (Some dir) is d = (Inr cfgs, d)"
  using assms(1)
proof (induction rule: list_all2_induct)
  case (Cons i "is" cfg cfgs)
  then have "provision_one E' (Some dir) i d = (Inr cfg, d)"
    using provisioned_load [OF Cons.hyps(1), of "os_fail E'"] assms(2,3)
    by (simp add: provision_one_def Let_def)
  with Cons show ?case by simp
qed simp

lemma provision_length: "provision E sd is d = (Inr cfgs, d') \<Longrightarrow> length cfgs = length is"
  by (induction "is" arbitrary: d cfgs) (auto split: prod.splits sum.splits)

lemma provision_ephemeral:
  "provision E None is d = (Inr cfgs, d') \<Longrightarrow>
    files d' = files d \<and> asked d' = asked d @ map account_opts is"
  by (induction "is" arbitrary: d cfgs)
    (auto simp: provision_one_def ask_def split: prod.splits sum.splits)

lemma read_port_show: "read_port (58 # show_nat (unat port)) = Some (port, [])"
proof -
  have "unat port < 65536"
    using unsigned_less [of port, where 'a = nat] by simp
  then show ?thesis
    using read_number_show [of 10 "unat port" 16 "length (show_nat (unat port))" "[]" True]
    by (simp add: read_port_def read_given_char_def)
qed

lemma read_ipv4_bracket: "read_ipv4_addr (91 # s) = None"
  by (simp add: read_ipv4_addr_def read_separator_def read_octet_def read_number_def to_digit_def)

lemma parse_socket_addr_show:
  assumes "ip_wf (fst a)"
  shows "parse_socket_addr (show_socket_addr a) = Some a"
proof -
  obtain ip port where a: "a = (ip, port)" by (cases a)
  show ?thesis
  proof (cases ip)
    case (V4 v4)
    then show ?thesis
      by (simp add: a parse_socket_addr_def parse_with_def read_socket_addr_v4_def read_ipv4_show
          read_port_show ends_number_def to_digit_def del: show_ipv4.simps)
  next
    case (V6 v6)
    obtain gs where gs: "v6 = Ipv6 gs" by (cases v6)
    let ?t = "93 # 58 # show_nat (unat port)"
    have "stops_groups ?t"
      using show_nat_digits [where c = 46 and n = "unat port"] by (fastforce simp: stops_groups_def)
    from read_ipv6_show_then [OF _ this, of gs] assms
    have r: "read_ipv6_addr (show_ipv6 (Ipv6 gs) @ ?t) = Some (Ipv6 gs, ?t)"
      by (simp add: a V6 gs ipv6_wf_def del: show_ipv6.simps)
    show ?thesis
      by (simp add: a V6 gs parse_socket_addr_def parse_with_def read_socket_addr_v4_def read_ipv4_bracket
          read_socket_addr_v6_def r read_port_show skip_scope_def read_given_char_def del: show_ipv6.simps)
  qed
qed

lemma start_daemon_ok:
  assumes "start_daemon E build bind random argv d = (Inr dm, d')"
  obtains configs where "load_or_register E (arg_state_dir (parse_args argv)) (arg_accounts (parse_args argv)) d
      = (Inr configs, d')"
    and "dm_pool dm = pool_new build configs (arg_http2 (parse_args argv))"
    and "dm_token dm = gen_token random"
    and "dm_line dm = handshake (snd (dm_socks dm)) (dm_control dm) (gen_token random)"
    and "bind (arg_socks (parse_args argv)) = Inr (dm_socks dm)"
    and "bind (arg_control (parse_args argv)) = Inr (dm_control dm)"
  using assms
  by (auto simp: start_daemon_def result_simps Let_def split: prod.splits)

lemma start_daemon_pool:
  assumes "start_daemon E build bind random argv d = (Inr dm, d')"
  obtains cfgs where "dm_pool dm = pool_new build cfgs (arg_http2 (parse_args argv))"
    and "dm_token dm = gen_token random" and "length cfgs = arg_accounts (parse_args argv)"
proof -
  from assms obtain configs where
    c: "load_or_register E (arg_state_dir (parse_args argv)) (arg_accounts (parse_args argv)) d = (Inr configs, d')"
    and dm: "dm_pool dm = pool_new build configs (arg_http2 (parse_args argv))" "dm_token dm = gen_token random"
    by (rule start_daemon_ok)
  have "length configs = arg_accounts (parse_args argv)"
    using c provision_length [of E _ "[1..<Suc (arg_accounts (parse_args argv))]" d configs d']
    by (simp add: load_or_register_def del: upt_Suc)
  with dm show thesis by (rule that)
qed

section \<open>Properties\<close>

text \<open>
  C16. Restarting does not register again: after \<open>load_or_register\<close> succeeded with a state directory, any
  later start that can read the files, whatever its API does, gets exactly the same \<open>n\<close>
  configurations in the same order and asks for no registration and changes no file. The first start
  had registered exactly the accounts whose files were missing, under their names, and the files it
  made have mode \<open>0600\<close>.
\<close>

theorem restart_reuses_accounts:
  assumes "parser_inverts E" and "load_or_register E (Some dir) n d = (Inr cfgs, d')"
    and "os_fail E' OpRead = None" and "os_parse E' = os_parse E"
  shows "load_or_register E' (Some dir) n d' = (Inr cfgs, d') \<and> length cfgs = n
    \<and> asked d' = asked d @ map account_opts
        (filter (\<lambda>i. files d (account_path dir i) = None) [1..<Suc n])
    \<and> (\<forall>i. 1 \<le> i \<and> i \<le> n \<and> files d (account_path dir i) = None \<longrightarrow>
         map_option file_mode (files d' (account_path dir i)) = Some 384)"
proof -
  have "provision E (Some dir) [1..<Suc n] d = (Inr cfgs, d')"
    using assms(2) by (simp add: load_or_register_def)
  from provision_ok [OF assms(1) this] have ok: "list_all2 (provisioned E dir (files d')) [1..<Suc n] cfgs"
    "asked d' = asked d @ map account_opts (filter (\<lambda>i. files d (account_path dir i) = None) [1..<Suc n])"
    "\<forall>i \<in> set [1..<Suc n]. files d (account_path dir i) = None \<longrightarrow>
      map_option file_mode (files d' (account_path dir i)) = Some 384"
    by simp_all
  have "length cfgs = n" using list_all2_lengthD [OF ok(1)] by (simp del: upt_Suc)
  with provision_loads [OF ok(1) assms(3,4)] ok(2,3) show ?thesis
    by (auto simp: load_or_register_def simp del: upt_Suc)
qed

text \<open>
  C26. A daemon that starts is what its handshake says: the pool is a reachable state of the supervisors
  with exactly the accounts asked for (at least one), numbered from 1; the line printed carries the
  port of the SOCKS listener, a URL whose address part parses to the address of the control listener,
  and the token the API will check: 32 characters, never empty and different for different random
  bytes.
\<close>

theorem handshake_is_true:
  assumes "start_daemon E build bind random argv d = (Inr dm, d')" and "length random = 16"
    and "ip_wf (fst (dm_control dm))"
  shows "steps (init_system (arg_http2 (parse_args argv))) (dm_pool dm)
    \<and> members (pl (dm_pool dm)) = [1..<Suc (arg_accounts (parse_args argv))] \<and> members (pl (dm_pool dm)) \<noteq> []
    \<and> (\<exists>url. dm_line dm = JObj [(lit ''socksPort'', JNum (int (unat (snd (dm_socks dm))))),
          (lit ''controlUrl'', JStr (lit ''http://'' @ url)), (lit ''controlToken'', JStr (dm_token dm))]
        \<and> parse_socket_addr url = Some (dm_control dm))
    \<and> length (dm_token dm) = 32
    \<and> (\<forall>other. length other = 16 \<longrightarrow> (gen_token other = dm_token dm \<longleftrightarrow> other = random))"
proof -
  from assms(1) obtain configs where
    c: "load_or_register E (arg_state_dir (parse_args argv)) (arg_accounts (parse_args argv)) d = (Inr configs, d')"
    and dm: "dm_pool dm = pool_new build configs (arg_http2 (parse_args argv))" "dm_token dm = gen_token random"
      "dm_line dm = handshake (snd (dm_socks dm)) (dm_control dm) (gen_token random)"
    by (rule start_daemon_ok)
  have "length configs = arg_accounts (parse_args argv)"
    using c provision_length [of E _ "[1..<Suc (arg_accounts (parse_args argv))]" d configs d']
    by (simp add: load_or_register_def del: upt_Suc)
  moreover have "0 < arg_accounts (parse_args argv)"
    by (simp add: parse_args_def Let_def)
  ultimately show ?thesis
    using pool_new_steps [of "arg_http2 (parse_args argv)" build configs]
      pool_new_shape [where build = build and cfgs = configs and b = "arg_http2 (parse_args argv)"]
      gen_token_inj [of _ random] assms(2) parse_socket_addr_show [OF assms(3)]
    by (auto simp: dm handshake_def simp del: upt_Suc show_socket_addr.simps)
qed

section \<open>A concrete start\<close>

text \<open>Files hold the configuration of the test; the API refuses every registration but the first.\<close>

definition toy_os :: os_env where
  "toy_os = \<lparr>os_parse = sample_parse, os_print = sample_print, os_fail = (\<lambda>_. None), os_umask = 420,
     os_register = (\<lambda>k opts. if k = 0 then Inr sample_config else Inl (Api 429 []))\<rparr>"

definition toy_disk :: disk where
  "toy_disk = \<lparr>files = Map.empty, dir_there = False, asked = []\<rparr>"

lemma toy_parser: "parser_inverts toy_os"
  by (auto simp: parser_inverts_def toy_os_def sample_print_def sample_parse_def split: if_splits)

lemma toy_load: "\<exists>d'. load_or_register toy_os (Some [115]) 1 toy_disk = (Inr [sample_config], d')"
  by (simp add: load_or_register_def provision_one_def toy_disk_def ask_def toy_os_def create_dir_all_def
      save_config_def sample_print_def op_fails_def Let_def)

theorem restart_reuses_accounts_witness:
  "\<exists>d'. load_or_register toy_os (Some [115]) 1 toy_disk = (Inr [sample_config], d')
     \<and> load_or_register (toy_os\<lparr>os_register := \<lambda>_ _. Inl (Http [])\<rparr>) (Some [115]) 1 d'
         = (Inr [sample_config], d')"
proof -
  obtain d' where d': "load_or_register toy_os (Some [115]) 1 toy_disk = (Inr [sample_config], d')"
    using toy_load ..
  then show ?thesis
    using restart_reuses_accounts [OF toy_parser d', of "toy_os\<lparr>os_register := \<lambda>_ _. Inl (Http [])\<rparr>"]
    by (simp add: toy_os_def)
qed

definition toy_argv :: "rstr list" where
  "toy_argv = [lit ''--accounts'', lit ''1'']"

lemma toy_args: "arg_accounts (parse_args toy_argv) = 1" "arg_state_dir (parse_args toy_argv) = None"
  "arg_http2 (parse_args toy_argv) = False"
  using parse_unsigned_show [of 1 64]
  by (simp_all add: toy_argv_def parse_args_def default_args_def parse_usize_def Let_def lit_simps
      show_radix.simps digit_char_def)

lemma toy_start:
  obtains dm d' where "start_daemon toy_os (\<lambda>_ _. Inl (Tunnel []) :: error + tunnel \<times> nat)
      (\<lambda>_. Inr (V4 (Ipv4 127 0 0 1), 47100)) (replicate 16 7) toy_argv toy_disk = (Inr dm, d')"
    and "dm_control dm = (V4 (Ipv4 127 0 0 1), 47100)"
proof -
  have "\<exists>dm d'. start_daemon toy_os (\<lambda>_ _. Inl (Tunnel []) :: error + tunnel \<times> nat)
       (\<lambda>_. Inr (V4 (Ipv4 127 0 0 1), 47100)) (replicate 16 7) toy_argv toy_disk = (Inr dm, d')
     \<and> dm_control dm = (V4 (Ipv4 127 0 0 1), 47100)"
    using toy_args
    by (simp add: start_daemon_def load_or_register_def provision_one_def ask_def toy_os_def toy_disk_def
        Let_def)
  then show thesis using that by blast
qed

theorem handshake_is_true_witness:
  "\<exists>dm d'. start_daemon toy_os (\<lambda>_ _. Inl (Tunnel []) :: error + tunnel \<times> nat)
       (\<lambda>_. Inr (V4 (Ipv4 127 0 0 1), 47100)) (replicate 16 7) toy_argv toy_disk = (Inr dm, d')
     \<and> members (pl (dm_pool dm)) = [1]"
proof -
  obtain dm d' where dm: "start_daemon toy_os (\<lambda>_ _. Inl (Tunnel []) :: error + tunnel \<times> nat)
       (\<lambda>_. Inr (V4 (Ipv4 127 0 0 1), 47100)) (replicate 16 7) toy_argv toy_disk = (Inr dm, d')"
    "dm_control dm = (V4 (Ipv4 127 0 0 1), 47100)"
    by (rule toy_start)
  then have "ip_wf (fst (dm_control dm))" by simp
  from handshake_is_true [OF dm(1) _ this] dm(1) toy_args show ?thesis by auto
qed

end
