(* ===== verification/Egress_Probe.thy ===== *)
theory Egress_Probe
  imports Tunnel
begin

text \<open>
  The egress probe \<open>crates/warp-masque/examples/egress_probe.rs\<close>: it builds a DNS query in an IPv4/UDP
  packet, sends it through the tunnel and reads the answer. The packet builders, the Internet
  checksum, the packet filter and the DNS parser are modelled with their machine integers; a panic
  (an index or a slice out of range) is the value \<open>Inl ()\<close>.
\<close>

section \<open>The Internet checksum\<close>

text \<open>The first loop of \<open>checksum\<close> adds 16-bit words, the second folds the carries back in.\<close>

fun add_words :: "u32 \<Rightarrow> bytes \<Rightarrow> u32" where
  "add_words acc (a # b # rest) = add_words (acc + ucast (from_be_bytes [a, b] :: u16)) rest"
| "add_words acc [a] = acc + push_bit 8 (ucast a)"
| "add_words acc [] = acc"

lemma unat_high: "unat (drop_bit 16 (acc :: u32)) = unat acc div 65536"
proof -
  have "unat (drop_bit 16 acc) = drop_bit 16 (unat acc)" by (rule unat_drop_bit_eq)
  also have "\<dots> = unat acc div 2 ^ 16" by (rule drop_bit_eq_div)
  finally show ?thesis by simp
qed

lemma fold_less:
  assumes "drop_bit 16 acc \<noteq> (0 :: u32)"
  shows "unat ((acc AND 0xffff) + drop_bit 16 acc) = unat acc mod 65536 + unat acc div 65536"
    and "unat acc mod 65536 + unat acc div 65536 < unat acc"
proof -
  have n: "unat acc < 2 ^ 32"
    using unsigned_less [of acc, where 'a = nat] by simp
  note d = unat_high [of acc]
  have "acc AND 0xffff = take_bit 16 acc"
    by (simp add: take_bit_eq_mask mask_eq_exp_minus_1)
  moreover have "unat (take_bit 16 acc) = take_bit 16 (unat acc)" by (rule unsigned_take_bit_eq)
  moreover have "take_bit 16 (unat acc) = unat acc mod 2 ^ 16" by (rule take_bit_eq_mod)
  ultimately have a: "unat (acc AND 0xffff) = unat acc mod 65536" by simp
  have "unat acc mod 65536 + unat acc div 65536 < 2 ^ 32"
    using n by (simp add: less_mult_imp_div_less add_less_le_mono)
  then show "unat ((acc AND 0xffff) + drop_bit 16 acc) = unat acc mod 65536 + unat acc div 65536"
    by (simp add: unat_word_ariths a d)
  have "unat acc div 65536 \<noteq> 0"
    using assms d by (metis unat_eq_zero)
  moreover have "unat acc = 65536 * (unat acc div 65536) + unat acc mod 65536"
    by simp
  ultimately show "unat acc mod 65536 + unat acc div 65536 < unat acc"
    by linarith
qed

function fold_carries :: "u32 \<Rightarrow> u32" where
  "fold_carries acc =
     (if drop_bit 16 acc = 0 then acc else fold_carries ((acc AND 0xffff) + drop_bit 16 acc))"
  by pat_completeness auto
termination
  by (relation "measure unat") (simp_all add: fold_less)

declare fold_carries.simps [simp del]

definition checksum :: "bytes \<Rightarrow> u16" where
  "checksum data = NOT (ucast (fold_carries (add_words 0 data)))"

text \<open>The sum as a number, and the ones' complement sum it is folded to.\<close>

fun word_sum :: "bytes \<Rightarrow> nat" where
  "word_sum (a # b # rest) = unat a * 256 + unat b + word_sum rest"
| "word_sum [a] = unat a * 256"
| "word_sum [] = 0"

definition folded :: "nat \<Rightarrow> nat" where
  "folded n = (if n = 0 then 0 else Suc ((n - 1) mod 65535))"

lemma word_sum_append: "even (length xs) \<Longrightarrow> word_sum (xs @ ys) = word_sum xs + word_sum ys"
  by (induction xs rule: word_sum.induct) simp_all

lemma word_sum_bound: "word_sum data \<le> 65535 * ((length data + 1) div 2)"
proof (induction data rule: word_sum.induct)
  case (1 a b rest)
  have "unat a * 256 + unat b \<le> 65535"
    using unat_byte_less [of a] unat_byte_less [of b] by simp
  with 1 show ?case by simp
next
  case (2 a)
  show ?case using unat_byte_less [of a] by simp
qed simp

lemma unat_word16: "unat (from_be_bytes [a, b] :: u16) = unat a * 256 + unat b"
proof -
  have "unat (from_be_bytes [a, b] :: u16) = be_val [a, b] mod 2 ^ 16"
    by (simp only: from_be_bytes_def unsigned_of_nat take_bit_eq_mod) simp
  then show ?thesis
    using be_val_less [of "[a, b]"] by simp
qed

lemma unat_add_words: "unat acc + word_sum data < 2 ^ 32 \<Longrightarrow> unat (add_words acc data) = unat acc + word_sum data"
proof (induction acc data rule: add_words.induct)
  case (1 acc a b rest)
  have "unat (from_be_bytes [a, b] :: u16) = unat a * 256 + unat b"
    by (rule unat_word16)
  moreover have "unat a * 256 + unat b < 2 ^ 32"
    using unat_byte_less [of a] unat_byte_less [of b] by simp
  ultimately have w: "unat (ucast (from_be_bytes [a, b] :: u16) :: u32) = unat a * 256 + unat b"
    by (simp add: unsigned_ucast_eq take_bit_nat_eq_self_iff)
  then have "unat (acc + ucast (from_be_bytes [a, b] :: u16)) = unat acc + (unat a * 256 + unat b)"
    using 1(2) by (simp add: unat_word_ariths)
  with 1 show ?case by simp
next
  case (2 acc a)
  have "unat (push_bit 8 (ucast a :: u32)) = unat a * 256"
    using unat_byte_less [of a]
    by (simp add: push_bit_eq_mult unat_word_ariths unsigned_ucast_eq take_bit_nat_eq_self)
  with 2 show ?case by (simp add: unat_word_ariths)
qed simp

lemma folded_small: "n < 65536 \<Longrightarrow> folded n = n"
  by (cases "n = 0") (simp_all add: folded_def)

lemma folded_step: "folded (n mod 65536 + n div 65536) = folded n"
proof (cases "n = 0")
  case False
  define h l where "h = n div 65536" and "l = n mod 65536"
  have n: "n = 65536 * h + l" by (simp add: h_def l_def)
  with False have "l + h \<noteq> 0" by auto
  then have "n - 1 = 65535 * h + (l + h - 1)" using n by simp
  with False \<open>l + h \<noteq> 0\<close> show ?thesis
    by (simp add: folded_def flip: h_def l_def)
qed simp

lemma unat_fold_carries: "unat (fold_carries acc) = folded (unat acc) \<and> unat (fold_carries acc) < 65536"
proof (induction acc rule: fold_carries.induct)
  case (1 acc)
  show ?case
  proof (cases "drop_bit 16 acc = 0")
    case True
    then have "unat acc < 65536"
      using unat_high [of acc] by (simp add: div_eq_0_iff)
    with True show ?thesis
      by (simp add: fold_carries.simps [of acc] folded_small)
  next
    case False
    with 1 fold_less [OF False] folded_step [of "unat acc"] show ?thesis
      by (simp add: fold_carries.simps [of acc])
  qed
qed

lemma unat_complement: "unat (NOT (w :: u16)) = 65535 - unat w"
proof -
  have "NOT w = - 1 - w" by (simp add: not_eq_complement)
  moreover have "unat (- 1 - w) = unat (- 1 :: u16) - unat w"
    by (rule unat_sub) simp
  ultimately show ?thesis by (simp add: unsigned_minus_1_eq_mask mask_eq_exp_minus_1)
qed

text \<open>\<open>checksum\<close> is the complement of the ones' complement sum, for anything an IP packet can hold.\<close>

lemma unat_checksum:
  assumes "length data \<le> 131072"
  shows "unat (checksum data) = 65535 - folded (word_sum data)"
proof -
  have "word_sum data < 2 ^ 32"
    using word_sum_bound [of data] assms by simp
  then have "unat (add_words 0 data) = word_sum data"
    using unat_add_words [of 0 data] by simp
  then have f: "unat (fold_carries (add_words 0 data)) = folded (word_sum data)" "folded (word_sum data) < 65536"
    using unat_fold_carries [of "add_words 0 data"] by simp_all
  then have "unat (ucast (fold_carries (add_words 0 data)) :: u16) = folded (word_sum data)"
    by (simp add: unsigned_ucast_eq take_bit_eq_mod)
  then show ?thesis
    by (simp add: checksum_def unat_complement)
qed

text \<open>Adding the complement, or all ones where the complement is zero, gives all ones.\<close>

lemma folded_le: "folded n \<le> 65535"
  by (simp add: folded_def Suc_le_eq)

lemma folded_add_complement: "folded (n + (65535 - folded n)) = 65535"
proof (cases "n = 0")
  case False
  define r where "r = (n - 1) mod 65535"
  have "r < 65535" by (simp add: r_def)
  have "n - 1 = 65535 * ((n - 1) div 65535) + r" by (simp add: r_def)
  then have "n + (65535 - Suc r) - 1 = 65535 * ((n - 1) div 65535) + 65534"
    using False \<open>r < 65535\<close> by linarith
  moreover have "folded n = Suc r" using False by (simp add: folded_def r_def)
  ultimately show ?thesis
    using False by (simp add: folded_def)
qed (simp add: folded_def)

lemma folded_add_ones: "folded n = 65535 \<Longrightarrow> folded (n + 65535) = 65535"
proof (cases "n = 0")
  case False
  then have "n + 65535 - 1 = (n - 1) + 65535" by simp
  then have "(n + 65535 - 1) mod 65535 = (n - 1) mod 65535"
    by (simp only: mod_add_self2)
  then show "folded n = 65535 \<Longrightarrow> ?thesis"
    using False by (simp only: folded_def) simp
qed (simp add: folded_def)

section \<open>Indices and slices\<close>

definition index_of :: "'a list \<Rightarrow> nat \<Rightarrow> unit + 'a" where
  "index_of xs i = (if i < length xs then Inr (xs ! i) else Inl ())"

definition slice_of :: "'a list \<Rightarrow> nat \<Rightarrow> nat \<Rightarrow> unit + 'a list" where
  "slice_of xs i j = (if i \<le> j \<and> j \<le> length xs then Inr (take (j - i) (drop i xs)) else Inl ())"

text \<open>\<open>v[i..i + n].copy_from_slice(bs)\<close>, within the vector.\<close>

definition put :: "nat \<Rightarrow> 'a list \<Rightarrow> 'a list \<Rightarrow> 'a list" where
  "put i bs xs = take i xs @ bs @ drop (i + length bs) xs"

section \<open>Building packets\<close>

definition RESOLVER :: ipv4 where "RESOLVER = Ipv4 1 1 1 1"
definition SRC_PORT :: u16 where "SRC_PORT = 40000"
definition CLASS_CH :: u16 where "CLASS_CH = 3"

definition build_dns_txt_query :: "u16 \<Rightarrow> rstr \<Rightarrow> u16 \<Rightarrow> bytes" where
  "build_dns_txt_query i name qclass =
     be_bytes 2 i @ be_bytes 2 (0x0100 :: u16) @ be_bytes 2 (1 :: u16) @ [0, 0, 0, 0, 0, 0]
     @ concat (map (\<lambda>label. of_nat (length (utf8 label)) # utf8 label) (split_char 46 name))
     @ [0] @ be_bytes 2 (16 :: u16) @ be_bytes 2 qclass"

definition udp_checksum :: "ipv4 \<Rightarrow> ipv4 \<Rightarrow> bytes \<Rightarrow> u16" where
  "udp_checksum src dst udp =
     (let pseudo = octets src @ octets dst @ [0, 17] @ be_bytes 2 (of_nat (length udp) :: u16) @ udp;
          c = checksum pseudo in
      if c = 0 then 0xffff else c)"

definition ipv4_header :: "ipv4 \<Rightarrow> ipv4 \<Rightarrow> nat \<Rightarrow> bytes" where
  "ipv4_header src dst total_len =
     (let ip = [0x45, 0] @ be_bytes 2 (of_nat total_len :: u16) @ be_bytes 2 (0 :: u16)
            @ be_bytes 2 (0x4000 :: u16) @ [64, 17] @ be_bytes 2 (0 :: u16) @ octets src @ octets dst in
      put 10 (be_bytes 2 (checksum ip)) ip)"

definition udp_datagram :: "ipv4 \<Rightarrow> ipv4 \<Rightarrow> u16 \<Rightarrow> u16 \<Rightarrow> bytes \<Rightarrow> bytes" where
  "udp_datagram src dst sport dport payload =
     (let udp = be_bytes 2 sport @ be_bytes 2 dport @ be_bytes 2 (of_nat (8 + length payload) :: u16)
            @ be_bytes 2 (0 :: u16) @ payload in
      put 6 (be_bytes 2 (udp_checksum src dst udp)) udp)"

definition build_ipv4_udp :: "ipv4 \<Rightarrow> ipv4 \<Rightarrow> u16 \<Rightarrow> u16 \<Rightarrow> bytes \<Rightarrow> bytes" where
  "build_ipv4_udp src dst sport dport payload =
     ipv4_header src dst (20 + (8 + length payload)) @ udp_datagram src dst sport dport payload"

section \<open>Reading packets\<close>

definition extract_udp :: "bytes \<Rightarrow> ipv4 \<Rightarrow> u16 \<Rightarrow> unit + bytes option" where
  "extract_udp pkt src port =
     (if length pkt < 20 then Inr None
      else
        rbind (index_of pkt 0) (\<lambda>b0. if drop_bit 4 b0 \<noteq> 4 then Inr None else
        rbind (index_of pkt 9) (\<lambda>proto. if proto \<noteq> 17 then Inr None else
        let ihl = unat (b0 AND 0x0f) * 4 in
        rbind (index_of pkt 12) (\<lambda>a. rbind (index_of pkt 13) (\<lambda>b.
        rbind (index_of pkt 14) (\<lambda>c. rbind (index_of pkt 15) (\<lambda>d.
        if Ipv4 a b c d \<noteq> src \<or> length pkt < ihl + 8 then Inr None else
        rbind (index_of pkt ihl) (\<lambda>p. rbind (index_of pkt (ihl + 1)) (\<lambda>q.
        if from_be_bytes [p, q] \<noteq> port then Inr None
        else rbind (slice_of pkt (ihl + 8) (length pkt)) (\<lambda>t. Inr (Some t)))))))))))"

function skip_name :: "bytes \<Rightarrow> nat \<Rightarrow> nat option" where
  "skip_name dns pos =
     (if pos < length dns then
        (let len = dns ! pos in
         if len AND 0xc0 = 0xc0 then Some (pos + 2)
         else if len = 0 then Some (pos + 1)
         else skip_name dns (pos + 1 + unat len))
      else None)"
  by pat_completeness auto
termination
  by (relation "measure (\<lambda>(dns, pos). length dns - pos)") auto

declare skip_name.simps [simp del]

text \<open>The loop over the answer records, \<open>n\<close> of them still to come.\<close>

fun txt_loop :: "nat \<Rightarrow> bytes \<Rightarrow> nat \<Rightarrow> unit + rstr option" where
  "txt_loop 0 dns pos = Inr None"
| "txt_loop (Suc n) dns pos =
     (case skip_name dns pos of
        None \<Rightarrow> Inr None
      | Some pos \<Rightarrow>
          if pos + 10 > length dns then Inr None
          else
            rbind (index_of dns pos) (\<lambda>t0. rbind (index_of dns (pos + 1)) (\<lambda>t1.
            rbind (index_of dns (pos + 8)) (\<lambda>l0. rbind (index_of dns (pos + 9)) (\<lambda>l1.
            let rtype = from_be_bytes [t0, t1] :: u16;
                rdlen = unat (from_be_bytes [l0, l1] :: u16);
                rdata = pos + 10 in
            if rdata + rdlen > length dns then Inr None
            else if rtype = 16 \<and> rdlen \<ge> 1 then
              rbind (index_of dns rdata) (\<lambda>len.
              rbind (slice_of dns (rdata + 1) (min (rdata + 1 + unat len) (length dns))) (\<lambda>text.
              Inr (Some (from_utf8_lossy text))))
            else txt_loop n dns (rdata + rdlen))))))"

definition parse_first_txt :: "bytes \<Rightarrow> unit + rstr option" where
  "parse_first_txt dns =
     (if length dns < 12 then Inr None
      else
        rbind (index_of dns 6) (\<lambda>a. rbind (index_of dns 7) (\<lambda>b.
        let ancount = unat (from_be_bytes [a, b] :: u16) in
        if ancount = 0 then Inr None
        else
          (case skip_name dns 12 of
             None \<Rightarrow> Inr None
           | Some pos \<Rightarrow> txt_loop ancount dns (pos + 4)))))"

section \<open>The probe\<close>

text \<open>
  \<open>recv_udp_from\<close> on the results of the next calls to \<open>recv_ip\<close>; \<open>None\<close> when it still waits after them
  (the timeout of three seconds then ends it).
\<close>

fun recv_udp_from :: "ipv4 \<Rightarrow> u16 \<Rightarrow> (error + bytes) list \<Rightarrow> (unit + (error + bytes)) option" where
  "recv_udp_from src port [] = None"
| "recv_udp_from src port (Inl e # rs) = Some (Inr (Inl e))"
| "recv_udp_from src port (Inr pkt # rs) =
     (case extract_udp pkt src port of
        Inl u \<Rightarrow> Some (Inl u)
      | Inr (Some payload) \<Rightarrow> Some (Inr (Inr payload))
      | Inr None \<Rightarrow> recv_udp_from src port rs)"

datatype probe_result =
    Egress rstr
  | Round_Trip nat
  | Send_Failed error
  | No_Reply
  | Panicked

text \<open>
  The attempts: each sends the query and waits; an error of \<open>send_ip\<close> ends the program, an error or
  timeout of the wait starts the next attempt.
\<close>

fun attempts :: "((error + unit) \<times> (error + bytes) list) list \<Rightarrow> probe_result" where
  "attempts [] = No_Reply"
| "attempts ((Inl e, rs) # more_attempts) = Send_Failed e"
| "attempts ((Inr _, rs) # more_attempts) =
     (case recv_udp_from RESOLVER 53 rs of
        Some (Inl _) \<Rightarrow> Panicked
      | Some (Inr (Inr payload)) \<Rightarrow>
          (case parse_first_txt payload of
             Inl _ \<Rightarrow> Panicked
           | Inr (Some txt) \<Rightarrow> Egress txt
           | Inr None \<Rightarrow> Round_Trip (length payload))
      | _ \<Rightarrow> attempts more_attempts)"

fun probe_args :: "rstr \<times> transport \<Rightarrow> rstr list \<Rightarrow> rstr \<times> transport" where
  "probe_args (path, tr) [] = (path, tr)"
| "probe_args (path, tr) (arg # argv) =
     (if arg = lit ''--http2'' then probe_args (path, Http2) argv else probe_args (arg, tr) argv)"

definition probe_packet :: "tunnel \<Rightarrow> bytes" where
  "probe_packet t =
     build_ipv4_udp (tun_assigned_v4 t) RESOLVER SRC_PORT 53
       (build_dns_txt_query 0xBEEF (lit ''whoami.cloudflare'') CLASS_CH)"

text \<open>
  \<open>main\<close>: \<open>load\<close> and \<open>connect\<close> are \<open>WarpConfig::load\<close> and \<open>Tunnel::connect_with\<close>, \<open>exchange\<close> gives what
  happens to each of the four attempts with the packet. Unlike the pool, it refuses a tunnel whose
  response status is not a success.
\<close>

definition probe_main :: "(rstr \<Rightarrow> error + warp_config) \<Rightarrow> ('sk, 'pk, 'z) key_lib_scheme
    \<Rightarrow> (warp_config \<Rightarrow> 'sk device_keypair \<Rightarrow> transport \<Rightarrow> error + tunnel)
    \<Rightarrow> (bytes \<Rightarrow> nat \<Rightarrow> (error + unit) \<times> (error + bytes) list) \<Rightarrow> rstr list
    \<Rightarrow> (error + rstr) + probe_result" where
  "probe_main load L connect exchange argv =
     (case probe_args (lit ''warp-config.json'', Http3) argv of (path, transport) \<Rightarrow>
        rbind (map_err Inl (load path)) (\<lambda>cfg.
        rbind (map_err Inl (from_private_b64 L (private_key cfg))) (\<lambda>kp.
        rbind (map_err Inl (connect cfg kp transport)) (\<lambda>t.
        if \<not> (200 \<le> tun_status t \<and> tun_status t < 300) then
          Inl (Inr (lit ''tunnel not up: '' @ show_nat (tun_status t)))
        else Inr (attempts (map (exchange (probe_packet t)) [1..<5]))))))"

section \<open>Facts\<close>

lemma index_of_ok: "i < length xs \<Longrightarrow> index_of xs i = Inr (xs ! i)"
  by (simp add: index_of_def)

lemma extract_udp_ok: "is_ok (extract_udp pkt src port)"
  by (auto simp: extract_udp_def index_of_def slice_of_def Let_def)

lemma txt_loop_ok: "is_ok (txt_loop n dns pos)"
  by (induction n arbitrary: pos) (auto simp: index_of_def slice_of_def Let_def split: option.split)

lemma parse_first_txt_ok: "is_ok (parse_first_txt dns)"
  by (auto simp: parse_first_txt_def index_of_def Let_def txt_loop_ok split: option.split)

lemma word_sum_be: "word_sum (be_bytes 2 (w :: u16)) = unat w"
proof -
  obtain a b where ab: "be_bytes 2 w = [a, b]" by (simp add: be_bytes_def upt_rec)
  have "be_val (be_bytes 2 w) = unat w"
    using unsigned_less [of w, where 'a = nat] by (simp add: be_val_be_bytes)
  then show ?thesis by (simp add: ab)
qed

lemma unat_16_le: "unat (w :: u16) \<le> 65535"
  using unsigned_less [of w, where 'a = nat] by simp

text \<open>A message whose checksum field holds its checksum (or all ones, where that is zero) sums to zero.\<close>

lemma checksum_verifies:
  fixes c :: u16
  assumes "even (length pre)" and "length pre + length post \<le> 131070"
    and "c = checksum (pre @ be_bytes 2 (0 :: u16) @ post)
      \<or> checksum (pre @ be_bytes 2 (0 :: u16) @ post) = 0 \<and> c = 0xffff"
  shows "checksum (pre @ be_bytes 2 c @ post) = 0"
proof -
  define n where "n = word_sum pre + word_sum post"
  have split: "word_sum (pre @ be_bytes 2 w @ post) = n + unat w" for w :: u16
    using assms(1) by (simp add: word_sum_append word_sum_be n_def)
  have len: "length (pre @ be_bytes 2 w @ post) \<le> 131072" for w :: u16
    using assms(2) by simp
  note unat_checksum [OF len, unfolded split]
  then have u: "unat (checksum (pre @ be_bytes 2 w @ post)) = 65535 - folded (n + unat w)" for w :: u16 .
  have "folded (n + unat c) = 65535"
    using assms(3) u [of 0] folded_add_complement [of n] folded_add_ones [of n] folded_le [of n]
    by auto
  then show ?thesis
    using u [of c] by (simp add: unat_eq_zero)
qed

lemma put_field: "length pre = i \<Longrightarrow> length bs = length old \<Longrightarrow> put i bs (pre @ old @ post) = pre @ bs @ post"
  by (simp add: put_def)

lemma length_octets [simp]: "length (octets a) = 4"
  by (cases a) simp

definition ip_pre :: "nat \<Rightarrow> bytes" where
  "ip_pre n = [0x45, 0] @ be_bytes 2 (of_nat n :: u16) @ be_bytes 2 (0 :: u16)
     @ be_bytes 2 (0x4000 :: u16) @ [64, 17]"

definition udp_pre :: "u16 \<Rightarrow> u16 \<Rightarrow> nat \<Rightarrow> bytes" where
  "udp_pre sport dport n = be_bytes 2 sport @ be_bytes 2 dport @ be_bytes 2 (of_nat n :: u16)"

lemma length_pre [simp]: "length (ip_pre n) = 10" "length (udp_pre sport dport n) = 6"
  by (simp_all add: ip_pre_def udp_pre_def)

lemma ipv4_header_eq: "ipv4_header src dst n = ip_pre n
    @ be_bytes 2 (checksum (ip_pre n @ be_bytes 2 (0 :: u16) @ octets src @ octets dst)) @ octets src @ octets dst"
proof -
  let ?ip = "ip_pre n @ be_bytes 2 (0 :: u16) @ octets src @ octets dst"
  have "ipv4_header src dst n = put 10 (be_bytes 2 (checksum ?ip)) ?ip"
    by (simp add: ipv4_header_def ip_pre_def Let_def)
  then show ?thesis by (simp add: put_field)
qed

lemma udp_datagram_eq: "udp_datagram src dst sport dport payload = udp_pre sport dport (8 + length payload)
    @ be_bytes 2 (udp_checksum src dst (udp_pre sport dport (8 + length payload) @ be_bytes 2 (0 :: u16) @ payload))
    @ payload"
proof -
  let ?udp = "udp_pre sport dport (8 + length payload) @ be_bytes 2 (0 :: u16) @ payload"
  have "udp_datagram src dst sport dport payload = put 6 (be_bytes 2 (udp_checksum src dst ?udp)) ?udp"
    by (simp add: udp_datagram_def udp_pre_def Let_def)
  then show ?thesis by (simp add: put_field)
qed

lemma length_ipv4_header [simp]: "length (ipv4_header src dst n) = 20"
  by (simp add: ipv4_header_eq)

lemma length_udp_datagram [simp]: "length (udp_datagram src dst sport dport payload) = 8 + length payload"
  by (simp add: udp_datagram_eq)

lemma udp_checksum_nonzero: "udp_checksum src dst udp \<noteq> 0"
  by (simp add: udp_checksum_def Let_def)

lemma header_checks: "checksum (ipv4_header src dst n) = 0"
  unfolding ipv4_header_eq by (rule checksum_verifies) simp_all

lemma udp_checks:
  assumes "length payload \<le> 65507"
  shows "checksum (octets src @ octets dst @ [0, 17] @ be_bytes 2 (of_nat (8 + length payload) :: u16)
    @ udp_datagram src dst sport dport payload) = 0"
proof -
  let ?n = "8 + length payload"
  let ?pre = "octets src @ octets dst @ [0, 17] @ be_bytes 2 (of_nat ?n :: u16) @ udp_pre sport dport ?n"
  let ?udp = "udp_pre sport dport ?n @ be_bytes 2 (0 :: u16) @ payload"
  have "udp_checksum src dst ?udp = checksum (?pre @ be_bytes 2 (0 :: u16) @ payload)
    \<or> checksum (?pre @ be_bytes 2 (0 :: u16) @ payload) = 0 \<and> udp_checksum src dst ?udp = 0xffff"
    by (simp add: udp_checksum_def Let_def)
  then have "checksum (?pre @ be_bytes 2 (udp_checksum src dst ?udp) @ payload) = 0"
    using assms by (intro checksum_verifies) simp_all
  then show ?thesis
    by (simp add: udp_datagram_eq)
qed

lemma be_bytes_pair: "be_bytes 2 (w :: u16) = [ucast (drop_bit 8 w), ucast w]"
  by (simp add: be_bytes_def upt_rec)

lemma from_be_pair: "from_be_bytes [ucast (drop_bit 8 w), ucast w] = (w :: u16)"
  using from_be_bytes_be_bytes [of 2 w] by (simp add: be_bytes_pair)

lemma extract_header:
  assumes "drop 20 pkt = udp" and "take 20 pkt = ipv4_header src dst n" and "8 \<le> length udp"
  shows "extract_udp pkt s p
    = Inr (if s = src \<and> p = from_be_bytes [udp ! 0, udp ! 1] then Some (drop 8 udp) else None)"
proof -
  obtain a b c d where src: "src = Ipv4 a b c d" by (cases src)
  have l: "length pkt = 20 + length udp"
    using assms(1,3) by auto
  have pkt: "pkt = ipv4_header src dst n @ udp"
    using assms append_take_drop_id [of 20 pkt] by simp
  obtain c0 c1 where "be_bytes 2 (checksum (ip_pre n @ be_bytes 2 (0 :: u16) @ octets src @ octets dst)) = [c0, c1]"
    by (simp add: be_bytes_pair)
  then have h: "ipv4_header src dst n = [0x45, 0, ucast (drop_bit 8 (of_nat n :: u16)), ucast (of_nat n :: u16),
      0, 0, ucast (drop_bit 8 (0x4000 :: u16)), ucast (0x4000 :: u16), 64, 17, c0, c1, a, b, c, d] @ octets dst"
    by (simp add: ipv4_header_eq ip_pre_def be_bytes_pair src)
  have i: "pkt ! 0 = 0x45" "pkt ! 9 = 17" "pkt ! 12 = a" "pkt ! 13 = b" "pkt ! 14 = c" "pkt ! 15 = d"
    by (simp_all add: pkt h)
  have u: "pkt ! 20 = udp ! 0" "pkt ! 21 = udp ! 1" "drop 28 pkt = drop 8 udp"
    by (simp_all add: pkt nth_append)
  have "udp \<noteq> []" using assms(3) by auto
  then show ?thesis
    using assms(3) u i
    by (auto simp: extract_udp_def index_of_ok slice_of_def l src Let_def)
qed

lemma udp_first_port: "from_be_bytes [udp_datagram src dst sport dport payload ! 0,
    udp_datagram src dst sport dport payload ! 1] = sport"
  by (simp add: udp_datagram_eq udp_pre_def be_bytes_pair from_be_pair)

lemma extract_built:
  "extract_udp (build_ipv4_udp src dst sport dport payload) s p
    = Inr (if s = src \<and> p = sport then Some payload else None)"
proof -
  have "drop 8 (udp_datagram src dst sport dport payload) = payload"
    by (simp add: udp_datagram_eq)
  then show ?thesis
    using extract_header [of "build_ipv4_udp src dst sport dport payload"
        "udp_datagram src dst sport dport payload" src dst "20 + (8 + length payload)" s p]
    by (simp add: build_ipv4_udp_def udp_first_port del: One_nat_def)
qed

text \<open>A DNS name as the builder writes it.\<close>

definition dns_name :: "bytes list \<Rightarrow> bytes" where
  "dns_name labels = concat (map (\<lambda>l. of_nat (length l) # l) labels) @ [0]"

definition label_ok :: "bytes \<Rightarrow> bool" where
  "label_ok l \<longleftrightarrow> 0 < length l \<and> length l < 64"

lemma skip_label:
  assumes "label_ok l"
  shows "skip_name (pre @ (of_nat (length l) # l) @ rest) (length pre)
    = skip_name ((pre @ (of_nat (length l) # l)) @ rest) (length (pre @ (of_nat (length l) # l)))"
proof -
  have u: "unat (of_nat (length l) :: u8) = length l"
    using assms by (simp add: label_ok_def unsigned_of_nat take_bit_eq_mod)
  moreover have "(of_nat (length l) :: u8) \<noteq> 0"
    using assms u by (auto simp: label_ok_def)
  moreover have "(of_nat (length l) :: u8) AND 0xc0 \<noteq> 0xc0"
  proof
    assume "(of_nat (length l) :: u8) AND 0xc0 = 0xc0"
    then have "(0xc0 :: u8) \<le> of_nat (length l)"
      using word_and_le2 [of "of_nat (length l) :: u8" "0xc0"] by simp
    then show False
      using u assms by (simp add: word_le_nat_alt label_ok_def)
  qed
  ultimately show ?thesis
    by (subst skip_name.simps) (simp add: nth_append Let_def)
qed

lemma skip_dns_name:
  assumes "\<forall>l \<in> set labels. label_ok l"
  shows "skip_name (pre @ dns_name labels @ post) (length pre) = Some (length pre + length (dns_name labels))"
  using assms
proof (induction labels arbitrary: pre)
  case Nil
  show ?case by (subst skip_name.simps) (simp add: dns_name_def nth_append)
next
  case (Cons l labels)
  have "skip_name (pre @ dns_name (l # labels) @ post) (length pre)
      = skip_name ((pre @ (of_nat (length l) # l)) @ dns_name labels @ post) (length (pre @ (of_nat (length l) # l)))"
    using skip_label [of l pre "dns_name labels @ post"] Cons.prems by (simp add: dns_name_def)
  with Cons.IH [of "pre @ (of_nat (length l) # l)"] Cons.prems show ?case
    by (simp add: dns_name_def)
qed

lemma skip_pointer: "skip_name (pre @ 0xC0 # rest) (length pre) = Some (length pre + 2)"
  by (subst skip_name.simps) (simp add: nth_append)

text \<open>The first record, when it is a TXT record of one string.\<close>

lemma txt_loop_record:
  assumes "length mid = 6" and "length text \<le> 255"
    and "dns = pre @ 0xC0 # x # be_bytes 2 (16 :: u16) @ mid @ be_bytes 2 (of_nat (Suc (length text)) :: u16)
      @ of_nat (length text) # text @ rest"
  shows "txt_loop (Suc n) dns (length pre) = Inr (Some (from_utf8_lossy text))"
proof -
  obtain t0 t1 where t: "be_bytes 2 (16 :: u16) = [t0, t1]" "from_be_bytes [t0, t1] = (16 :: u16)"
    using from_be_pair [of 16] by (simp add: be_bytes_pair)
  obtain l0 l1 where l: "be_bytes 2 (of_nat (Suc (length text)) :: u16) = [l0, l1]"
    "from_be_bytes [l0, l1] = (of_nat (Suc (length text)) :: u16)"
    using from_be_pair [of "of_nat (Suc (length text))"] by (simp add: be_bytes_pair)
  obtain m0 m1 m2 m3 m4 m5 where m: "mid = [m0, m1, m2, m3, m4, m5]"
    using assms(1) by (auto simp: length_Suc_conv eval_nat_numeral)
  define suf where "suf = [0xC0, x, t0, t1, m0, m1, m2, m3, m4, m5, l0, l1, of_nat (length text)] @ text @ rest"
  have dns: "dns = pre @ suf"
    using assms(3) by (simp add: suf_def t l m del: of_nat_Suc)
  have len: "length dns = length pre + 13 + length text + length rest"
    by (simp add: dns suf_def)
  have ix: "dns ! (k + length pre) = suf ! k" for k
    by (simp add: dns add.commute [of k])
  have u: "unat (of_nat (Suc (length text)) :: u16) = Suc (length text)"
    "unat (of_nat (length text) :: u8) = length text"
    using assms(2) by (simp_all add: unsigned_of_nat take_bit_nat_eq_self del: of_nat_Suc)
  have skip: "skip_name dns (length pre) = Some (length pre + 2)"
    using skip_pointer [of pre] by (simp add: dns suf_def)
  have tx: "take (length text) (drop (13 + length pre) dns) = text"
    by (simp add: dns suf_def)
  moreover have "dns ! Suc (Suc (Suc (length pre))) = t1"
    using ix [of 3] by (simp add: suf_def eval_nat_numeral)
  ultimately show ?thesis
    using ix [of 2] ix [of 3] ix [of 10] ix [of 11] ix [of 12] tx u
    by (simp add: skip index_of_ok slice_of_def len Let_def suf_def t(2) l(2) del: of_nat_Suc)
qed

lemma query_name: "build_dns_txt_query i name qclass =
    be_bytes 2 i @ be_bytes 2 (0x0100 :: u16) @ be_bytes 2 (1 :: u16) @ [0, 0, 0, 0, 0, 0]
    @ dns_name (map utf8 (split_char 46 name)) @ be_bytes 2 (16 :: u16) @ be_bytes 2 qclass"
  by (simp add: build_dns_txt_query_def dns_name_def o_def)

text \<open>A resolver's answer to a query: its header, the question repeated, and one TXT record.\<close>

definition txt_response :: "bytes \<Rightarrow> u16 \<Rightarrow> bytes \<Rightarrow> bytes \<Rightarrow> bytes \<Rightarrow> bytes" where
  "txt_response query flags mid text rest =
     take 2 query @ be_bytes 2 flags @ be_bytes 2 (1 :: u16) @ be_bytes 2 (1 :: u16) @ [0, 0, 0, 0]
     @ drop 12 query @ 0xC0 # 12 # be_bytes 2 (16 :: u16) @ mid
     @ be_bytes 2 (of_nat (Suc (length text)) :: u16) @ of_nat (length text) # text @ rest"

lemma parse_txt_response:
  assumes "\<forall>l \<in> set (map utf8 (split_char 46 name)). label_ok l" and "length mid = 6" and "length text \<le> 255"
  shows "parse_first_txt (txt_response (build_dns_txt_query i name qclass) flags mid text rest)
    = Inr (Some (from_utf8_lossy text))"
proof -
  let ?dns = "txt_response (build_dns_txt_query i name qclass) flags mid text rest"
  let ?name = "dns_name (map utf8 (split_char 46 name))"
  let ?rec = "0xC0 # 12 # be_bytes 2 (16 :: u16) @ mid
     @ be_bytes 2 (of_nat (Suc (length text)) :: u16) @ of_nat (length text) # text @ rest"
  define hd where "hd = be_bytes 2 i @ be_bytes 2 flags @ be_bytes 2 (1 :: u16) @ be_bytes 2 (1 :: u16) @ [0, 0, 0, 0 :: u8]"
  define q where "q = be_bytes 2 (16 :: u16) @ be_bytes 2 qclass"
  have l: "length hd = 12" "length q = 4" by (simp_all add: hd_def q_def)
  have dns: "?dns = hd @ ?name @ q @ ?rec"
    by (simp add: txt_response_def query_name hd_def q_def)
  have "skip_name ?dns 12 = Some (12 + length ?name)"
    using skip_dns_name [OF assms(1), of hd "q @ ?rec"] by (simp only: dns l)
  moreover have "txt_loop 1 ?dns (length (hd @ ?name @ q)) = Inr (Some (from_utf8_lossy text))"
    unfolding One_nat_def by (rule txt_loop_record [OF assms(2,3)]) (simp add: dns)
  moreover have "?dns ! 6 = 0" "?dns ! 7 = 1" "\<not> length ?dns < 12"
    by (simp_all add: dns hd_def be_bytes_pair nth_append)
  ultimately show ?thesis
    by (simp add: parse_first_txt_def index_of_ok Let_def l add_ac from_be_bytes_def del: txt_loop.simps)
qed

section \<open>Properties\<close>

text \<open>
  The packets the probe builds are valid: whatever the payload that fits an IPv4 packet, the header
  and the UDP datagram (with its pseudo header) sum to zero as a receiver checks them, the length
  fields hold the real lengths, and the UDP checksum is never the zero that means "none".
\<close>

theorem packets_verify:
  assumes "length payload \<le> 65507"
  shows "let pkt = build_ipv4_udp src dst sport dport payload in
      checksum (take 20 pkt) = 0
    \<and> checksum (octets src @ octets dst @ [0, 17] @ be_bytes 2 (of_nat (length (drop 20 pkt)) :: u16) @ drop 20 pkt) = 0
    \<and> length pkt = 28 + length payload \<and> be_val (take 2 (drop 2 pkt)) = length pkt
    \<and> be_val (take 2 (drop 24 pkt)) = length (drop 20 pkt) \<and> be_val (take 2 (drop 26 pkt)) \<noteq> 0"
proof -
  let ?pkt = "build_ipv4_udp src dst sport dport payload"
  have parts: "take 20 ?pkt = ipv4_header src dst (20 + (8 + length payload))"
    "drop 20 ?pkt = udp_datagram src dst sport dport payload" "length ?pkt = 28 + length payload"
    by (simp_all add: build_ipv4_udp_def)
  have v: "be_val (be_bytes 2 (w :: u16)) = unat w" for w
    using unsigned_less [of w, where 'a = nat] by (simp add: be_val_be_bytes)
  have "take 2 (drop 2 ?pkt) = be_bytes 2 (of_nat (length ?pkt) :: u16)"
    by (simp add: build_ipv4_udp_def ipv4_header_eq ip_pre_def)
  moreover have "take 2 (drop 24 ?pkt) = be_bytes 2 (of_nat (8 + length payload) :: u16)"
    by (simp add: build_ipv4_udp_def udp_datagram_eq udp_pre_def)
  moreover obtain c where "take 2 (drop 26 ?pkt) = be_bytes 2 (c :: u16)" "c \<noteq> 0"
    using udp_checksum_nonzero by (simp add: build_ipv4_udp_def udp_datagram_eq)
  moreover from this(2) have "unat c \<noteq> 0" by (simp add: unat_eq_zero)
  moreover have "unat (of_nat (length ?pkt) :: u16) = length ?pkt"
    "unat (of_nat (8 + length payload) :: u16) = 8 + length payload"
    using assms parts(3) by (simp_all add: unsigned_of_nat take_bit_nat_eq_self del: of_nat_add)
  ultimately show ?thesis
    using header_checks udp_checks [OF assms, of src dst sport dport] parts
    by (simp add: Let_def v unat_gt_0)
qed

text \<open>
  The filter accepts what the builder builds: a packet built from \<open>src\<close> and \<open>sport\<close> gives its payload
  to a reader waiting for that address and port, and nothing to any other.
\<close>

theorem extract_build:
  "extract_udp (build_ipv4_udp src dst sport dport payload) s p
    = Inr (if s = src \<and> p = sport then Some payload else None)"
  by (rule extract_built)

text \<open>
  C39. No packet from the tunnel can crash the probe: for every byte string, of any length and content,
  the packet filter and the DNS parser return without an index or a slice out of range.
\<close>

theorem probe_never_panics:
  "is_ok (extract_udp pkt src port) \<and> is_ok (parse_first_txt dns) \<and> attempts tries \<noteq> Panicked"
proof -
  have "extract_udp pkt a port \<noteq> Inl u" for pkt a port u
    using extract_udp_ok [of pkt a port] by auto
  then have "recv_udp_from a port rs \<noteq> Some (Inl ())" for a port rs
    by (induction a port rs rule: recv_udp_from.induct) (auto split: sum.splits option.splits)
  moreover have "parse_first_txt d \<noteq> Inl ()" for d
    using parse_first_txt_ok [of d] by auto
  ultimately have "attempts tries \<noteq> Panicked"
    by (induction tries rule: attempts.induct) (auto split: sum.splits option.splits)
  then show ?thesis
    by (simp add: extract_udp_ok parse_first_txt_ok)
qed

text \<open>
  The probe reports what the resolver answered: when a packet from the resolver's port 53 carries an
  answer to the query sent (its question repeated, one TXT record of at most 255 bytes), the probe
  prints exactly that text, whatever other packets and failed attempts came before.
\<close>

theorem probe_reports_answer:
  assumes "\<forall>(r, rs) \<in> set before. is_ok r \<and> (\<forall>pkt \<in> set rs. \<exists>p. pkt = Inr p \<and> extract_udp p RESOLVER 53 = Inr None)"
    and "\<forall>pkt \<in> set noise. extract_udp pkt RESOLVER 53 = Inr None"
    and "length mid = 6" and "length text \<le> 255"
  shows "attempts (before @ (Inr (), map Inr noise @ Inr (build_ipv4_udp RESOLVER dst 53 SRC_PORT
      (txt_response (build_dns_txt_query 0xBEEF (lit ''whoami.cloudflare'') CLASS_CH) flags mid text rest))
      # later) # tries) = Egress (from_utf8_lossy text)"
proof -
  have skip: "recv_udp_from RESOLVER 53 (map Inr ps @ rs) = recv_udp_from RESOLVER 53 rs"
    if "\<forall>p \<in> set ps. extract_udp p RESOLVER 53 = Inr None" for ps rs
    using that by (induction ps) auto
  have none: "recv_udp_from RESOLVER 53 rs = None"
    if "\<forall>pkt \<in> set rs. \<exists>p. pkt = Inr p \<and> extract_udp p RESOLVER 53 = Inr None" for rs
    using that by (induction rs) auto
  have prefix: "attempts (before @ rest) = attempts rest" for rest
    using assms(1)
  proof (induction before)
    case (Cons a before)
    then obtain u rs where "a = (Inr u, rs)" by (cases a; cases "fst a") auto
    with Cons none [of rs] show ?case by auto
  qed simp
  have "split_char 46 (lit ''whoami.cloudflare'') = [lit ''whoami'', lit ''cloudflare'']"
    using split_char_Cons [of 46 "lit ''whoami''" "lit ''cloudflare''"] split_char_none [of 46 "lit ''cloudflare''"]
    by (simp add: lit_simps)
  moreover have "length (utf8 (lit ''whoami'')) = 6" "length (utf8 (lit ''cloudflare'')) = 10"
    by (subst length_utf8_ascii; simp add: lit_simps)+
  ultimately have "\<forall>l \<in> set (map utf8 (split_char 46 (lit ''whoami.cloudflare''))). label_ok l"
    by (auto simp: label_ok_def)
  note answer = parse_txt_response [OF this assms(3,4)]
  show ?thesis
    by (simp add: prefix skip [OF assms(2)] extract_built answer)
qed

section \<open>Concrete runs\<close>

theorem packets_verify_witness:
  "checksum (take 20 (build_ipv4_udp (Ipv4 172 16 0 2) RESOLVER SRC_PORT 53 [1, 2, 3])) = 0"
  using packets_verify [of "[1, 2, 3]" "Ipv4 172 16 0 2" RESOLVER SRC_PORT 53] by (simp add: Let_def)

theorem probe_reports_answer_witness:
  "attempts [(Inr (), []), (Inr (), [Inr [], Inr (build_ipv4_udp RESOLVER (Ipv4 172 16 0 2) 53 SRC_PORT
      (txt_response (build_dns_txt_query 0xBEEF (lit ''whoami.cloudflare'') CLASS_CH) 0x8180
        [0, 3, 0, 0, 0, 60] [49, 46, 50] []))])] = Egress (from_utf8_lossy [49, 46, 50])"
  using probe_reports_answer [of "[(Inr (), [])]" "[[]]" "[0, 3, 0, 0, 0, 60]" "[49, 46, 50]"
      "Ipv4 172 16 0 2" "0x8180" "[]" "[]" "[]"]
  by (simp add: extract_udp_def)

end
