(* ===== verification/Example_Programs.thy ===== *)
theory Example_Programs
  imports Daemon Tunnel_Io
begin

text \<open>
  The example programs of \<open>crates/warp-masque/examples\<close> besides the egress probe: \<open>register.rs\<close>,
  \<open>tunnel_poc.rs\<close>, \<open>proxy.rs\<close> and \<open>pool.rs\<close>, each as its \<open>main\<close> up to the point where it serves or
  ends. They share the configuration file: what \<open>register\<close> saves the others dial.
\<close>

section \<open>How a program ends\<close>

text \<open>The error \<open>main\<close> returns: one of the library, or the \<open>ensure!\<close> of the proxy with the status.\<close>

datatype exit_error = Lib error | Tunnel_Not_Up nat

definition lib :: "error + 'a \<Rightarrow> exit_error + 'a" where
  "lib r = map_err Lib r"

lemma lib_simps [simp]: "lib (Inl e) = Inl (Lib e)" "lib (Inr a) = Inr a"
  by (simp_all add: lib_def)

lemma lib_Inr_iff [result_simps]: "lib r = Inr a \<longleftrightarrow> r = Inr a"
  by (simp add: lib_def result_simps)

section \<open>register.rs\<close>

record register_args =
  rg_out :: rstr
  rg_name :: "rstr option"
  rg_doh :: bool

definition default_register_args :: register_args where
  "default_register_args = \<lparr>rg_out = lit ''warp-config.json'', rg_name = None, rg_doh = False\<rparr>"

fun parse_register_args :: "register_args \<Rightarrow> rstr list \<Rightarrow> register_args" where
  "parse_register_args a [] = a"
| "parse_register_args a [arg] =
     (if arg = lit ''--name'' then a\<lparr>rg_name := None\<rparr>
      else if arg = lit ''--doh'' then a\<lparr>rg_doh := True\<rparr>
      else a\<lparr>rg_out := arg\<rparr>)"
| "parse_register_args a (arg # v # rest) =
     (if arg = lit ''--name'' then parse_register_args (a\<lparr>rg_name := Some v\<rparr>) rest
      else if arg = lit ''--doh'' then parse_register_args (a\<lparr>rg_doh := True\<rparr>) (v # rest)
      else parse_register_args (a\<lparr>rg_out := arg\<rparr>) (v # rest))"

text \<open>The registration asked for, over the bypass or with the automatic fallback.\<close>

definition register_as :: "(sock_addr list \<Rightarrow> rstr + ('sk, 'pk) api_env) \<Rightarrow> error + ip_addr list
    \<Rightarrow> register_args \<Rightarrow> error + warp_config" where
  "register_as client resolved a =
     (let opts = default_options\<lparr>ro_device_name := rg_name a\<rparr> in
      if rg_doh a then rbind (with_doh_bypass client resolved) (\<lambda>E. register E opts)
      else register_auto client resolved opts)"

text \<open>The result and the files; nothing is written when the registration fails.\<close>

definition register_main :: "(sock_addr list \<Rightarrow> rstr + ('sk, 'pk) api_env) \<Rightarrow> error + ip_addr list
    \<Rightarrow> os_env \<Rightarrow> rstr list \<Rightarrow> fs \<Rightarrow> (exit_error + warp_config) \<times> fs" where
  "register_main client resolved E argv fs =
     (let a = parse_register_args default_register_args argv in
      case register_as client resolved a of
        Inl e \<Rightarrow> (Inl (Lib e), fs)
      | Inr cfg \<Rightarrow>
          (case save_config (os_print E) (os_fail E) (os_umask E) cfg (rg_out a) fs of
             (r, states) \<Rightarrow> (rbind (lib r) (\<lambda>_. Inr cfg), last states)))"

section \<open>tunnel\_poc.rs\<close>

text \<open>The configuration at a path and its device key, as all three dialling programs load them.\<close>

definition load_device :: "('sk, 'pk, 'z) key_lib_scheme \<Rightarrow> os_env \<Rightarrow> rstr \<Rightarrow> fs
    \<Rightarrow> exit_error + warp_config \<times> 'sk device_keypair" where
  "load_device L E path fs =
     rbind (lib (load_config (os_parse E) (os_fail E) path fs)) (\<lambda>cfg.
     rbind (lib (from_private_b64 L (private_key cfg))) (\<lambda>kp. Inr (cfg, kp)))"

definition is_success :: "nat \<Rightarrow> bool" where
  "is_success code \<longleftrightarrow> 200 \<le> code \<and> code < 300"

datatype poc_report =
    Established nat ipv4 "ipv6 option" nat
  | Refused nat

text \<open>\<open>limit\<close> is what \<open>max_ip_packet\<close> gives for the tunnel's packet interface.\<close>

definition poc_main :: "('sk, 'pk, 'cert) tls_lib \<Rightarrow> int \<Rightarrow> 'pk net_env \<Rightarrow> os_env \<Rightarrow> (tunnel_io \<Rightarrow> nat)
    \<Rightarrow> rstr list \<Rightarrow> fs \<Rightarrow> exit_error + poc_report" where
  "poc_main L now N E limit argv fs =
     (let path = (case argv of [] \<Rightarrow> lit ''warp-config.json'' | p # _ \<Rightarrow> p) in
      rbind (load_device L E path fs) (\<lambda>(cfg, kp).
      rbind (lib (connect_default L now N cfg kp)) (\<lambda>t.
      Inr (if is_success (tun_status t)
           then Established (tun_status t) (tun_assigned_v4 t) (tun_assigned_v6 t) (limit (tun_io t))
           else Refused (tun_status t)))))"

section \<open>proxy.rs\<close>

record proxy_args =
  px_config :: rstr
  px_bind :: rstr
  px_transport :: transport

definition default_proxy_args :: proxy_args where
  "default_proxy_args = \<lparr>px_config = lit ''warp-config.json'', px_bind = lit ''127.0.0.1:1080'',
     px_transport = Http3\<rparr>"

fun parse_proxy_args :: "nat \<Rightarrow> proxy_args \<Rightarrow> rstr list \<Rightarrow> proxy_args" where
  "parse_proxy_args positional a [] = a"
| "parse_proxy_args positional a (arg # rest) =
     (if arg = lit ''--http2'' then parse_proxy_args positional (a\<lparr>px_transport := Http2\<rparr>) rest
      else if positional = 0 then parse_proxy_args (positional + 1) (a\<lparr>px_config := arg\<rparr>) rest
      else parse_proxy_args (positional + 1) (a\<lparr>px_bind := arg\<rparr>) rest)"

text \<open>A running proxy: the tunnel it keeps, the netstack over it, and its listener.\<close>

record 'n proxy =
  pr_tunnel :: tunnel
  pr_net :: 'n
  pr_listener :: sock_addr

definition start_proxy :: "('sk, 'pk, 'cert) tls_lib \<Rightarrow> int \<Rightarrow> 'pk net_env
    \<Rightarrow> (tunnel_io \<Rightarrow> ipv4 \<Rightarrow> ipv6 option \<Rightarrow> 'n) \<Rightarrow> (rstr \<Rightarrow> rstr + sock_addr)
    \<Rightarrow> warp_config \<Rightarrow> 'sk device_keypair \<Rightarrow> proxy_args \<Rightarrow> exit_error + 'n proxy" where
  "start_proxy L now N spawn bind cfg kp a =
     rbind (lib (connect_with L now N cfg kp (px_transport a))) (\<lambda>t.
     rbind (if is_success (tun_status t) then Inr () else Inl (Tunnel_Not_Up (tun_status t))) (\<lambda>_.
     let net = spawn (tun_io t) (tun_assigned_v4 t) (tun_assigned_v6 t) in
     rbind (lib (map_err Io (bind (px_bind a)))) (\<lambda>addr.
     Inr \<lparr>pr_tunnel = t, pr_net = net, pr_listener = addr\<rparr>)))"

definition proxy_main :: "('sk, 'pk, 'cert) tls_lib \<Rightarrow> int \<Rightarrow> 'pk net_env \<Rightarrow> os_env
    \<Rightarrow> (tunnel_io \<Rightarrow> ipv4 \<Rightarrow> ipv6 option \<Rightarrow> 'n) \<Rightarrow> (rstr \<Rightarrow> rstr + sock_addr)
    \<Rightarrow> rstr list \<Rightarrow> fs \<Rightarrow> exit_error + 'n proxy" where
  "proxy_main L now N E spawn bind argv fs =
     (let a = parse_proxy_args 0 default_proxy_args argv in
      rbind (load_device L E (px_config a) fs) (\<lambda>(cfg, kp).
      start_proxy L now N spawn bind cfg kp a))"

text \<open>
  \<open>socks::serve\<close>: each client accepted is handled over the one netstack, a failed accept is ignored.
\<close>

fun serve_single :: "net_handle \<Rightarrow> (rstr + client) list \<Rightarrow> ((rstr + unit) \<times> client \<times> socks_event list) list" where
  "serve_single net [] = []"
| "serve_single net (Inl e # rest) = serve_single net rest"
| "serve_single net (Inr c # rest) = handle_single net c # serve_single net rest"

section \<open>pool.rs\<close>

record pool_args =
  pa_accounts :: nat
  pa_socks :: rstr
  pa_control :: rstr
  pa_http2 :: bool

definition default_pool_args :: pool_args where
  "default_pool_args = \<lparr>pa_accounts = 2, pa_socks = lit ''127.0.0.1:1080'',
     pa_control = lit ''127.0.0.1:47100'', pa_http2 = False\<rparr>"

fun parse_pool_args :: "nat \<Rightarrow> pool_args \<Rightarrow> rstr list \<Rightarrow> pool_args" where
  "parse_pool_args pos a [] = a"
| "parse_pool_args pos a (arg # rest) =
     (if arg = lit ''--http2'' then parse_pool_args pos (a\<lparr>pa_http2 := True\<rparr>) rest
      else if pos = 0 then
        parse_pool_args (pos + 1) (a\<lparr>pa_accounts := (case parse_usize arg of Some n \<Rightarrow> n | None \<Rightarrow> 2)\<rparr>) rest
      else if pos = 1 then parse_pool_args (pos + 1) (a\<lparr>pa_socks := arg\<rparr>) rest
      else parse_pool_args (pos + 1) (a\<lparr>pa_control := arg\<rparr>) rest)"

text \<open>\<open>gen_token\<close> of the example: the nanoseconds of the clock in hexadecimal.\<close>

definition clock_token :: "nat \<Rightarrow> rstr" where
  "clock_token nanos = show_radix 16 nanos"

text \<open>The accounts are registered one after the other, each time afresh; the first failure ends it.\<close>

fun register_accounts :: "(nat \<Rightarrow> register_options \<Rightarrow> error + warp_config) \<Rightarrow> nat list \<Rightarrow> error + warp_config list" where
  "register_accounts reg [] = Inr []"
| "register_accounts reg (i # is) =
     rbind (reg i (account_opts i)) (\<lambda>cfg.
     rbind (register_accounts reg is) (\<lambda>cfgs. Inr (cfg # cfgs)))"

record 'n pool_demo =
  pd_pool :: "'n system"
  pd_socks :: sock_addr
  pd_control :: sock_addr
  pd_token :: rstr

definition pool_main :: "(nat \<Rightarrow> register_options \<Rightarrow> error + warp_config)
    \<Rightarrow> (nat \<Rightarrow> inputs \<Rightarrow> error + tunnel \<times> 'n) \<Rightarrow> (rstr \<Rightarrow> rstr + sock_addr) \<Rightarrow> nat \<Rightarrow> rstr list
    \<Rightarrow> exit_error + 'n pool_demo" where
  "pool_main reg build bind nanos argv =
     (let a = parse_pool_args 0 default_pool_args argv in
      rbind (lib (register_accounts reg [1..<Suc (pa_accounts a)])) (\<lambda>configs.
      let pool = pool_new build configs (pa_http2 a); token = clock_token nanos in
      rbind (lib (map_err Io (bind (pa_socks a)))) (\<lambda>socks.
      rbind (lib (map_err Io (bind (pa_control a)))) (\<lambda>control.
      Inr \<lparr>pd_pool = pool, pd_socks = socks, pd_control = control, pd_token = token\<rparr>))))"

section \<open>Facts\<close>

text \<open>Every registration is one by some client, with the name asked for.\<close>

lemma register_auto_ok:
  assumes "register_auto client resolved opts = Inr cfg"
  shows "\<exists>addrs A. client addrs = Inr A \<and> register A opts = Inr cfg"
proof -
  from assms obtain direct where d: "client [] = Inr direct"
    by (auto simp: register_auto_def with_default_client_def result_simps)
  show ?thesis
  proof (cases "register direct opts")
    case (Inl e)
    with assms d show ?thesis
      by (auto simp: register_auto_def with_default_client_def with_doh_bypass_eq result_simps split: sum.splits)
  next
    case (Inr c)
    with assms d show ?thesis
      by (auto simp: register_auto_def with_default_client_def)
  qed
qed

lemma register_as_ok:
  assumes "register_as client resolved a = Inr cfg"
  obtains addrs A where "client addrs = Inr A"
    and "register A (default_options\<lparr>ro_device_name := rg_name a\<rparr>) = Inr cfg"
  using assms register_auto_ok [of client resolved "default_options\<lparr>ro_device_name := rg_name a\<rparr>" cfg]
  by (auto simp: register_as_def with_doh_bypass_eq result_simps Let_def split: if_splits)

lemma registered_key:
  assumes "register A opts = Inr cfg" and "key_lib_laws (api_keys A)"
  shows "from_private_b64 (api_keys A) (private_key cfg) = Inr \<lparr>secret = api_new_key A\<rparr>"
  using assms(1) by (elim register_ok build_config_ok) (rule private_key_roundtrip [OF assms(2)])

lemma from_private_b64_truncate: "from_private_b64 (key_lib.truncate L) k = from_private_b64 L k"
  by (cases L) (simp add: from_private_b64_def key_lib.defs)

lemma key_lib_laws_truncate: "key_lib_laws (key_lib.truncate L) = key_lib_laws L"
  by (cases L) (simp add: key_lib_laws_def key_lib.defs)

lemma register_main_ok:
  assumes "register_main client resolved E argv fs = (Inr cfg, fs')"
  obtains states where "register_as client resolved (parse_register_args default_register_args argv) = Inr cfg"
    and "save_config (os_print E) (os_fail E) (os_umask E) cfg
        (rg_out (parse_register_args default_register_args argv)) fs = (Inr (), states)"
    and "fs' = last states"
  using assms by (auto simp: register_main_def result_simps Let_def split: sum.splits prod.splits)

lemma saved_config_loads:
  assumes "parser_inverts E" and "os_fail E OpRead = None"
    and "save_config (os_print E) (os_fail E) (os_umask E) cfg path fs = (Inr (), states)"
  shows "load_config (os_parse E) (os_fail E) path (last states) = Inr cfg"
proof -
  obtain js where js: "os_print E (config_to_json cfg) = Inr js"
    and "last states = fs(path \<mapsto> \<lparr>file_bytes = js, file_mode = 384\<rparr>)"
    using assms(3) by (rule save_config_okE)
  moreover have "os_parse E js = Inr (config_to_json cfg)"
    using assms(1) js by (simp add: parser_inverts_def)
  ultimately show ?thesis
    using assms(2) by (simp add: load_config_def config_roundtrip)
qed

text \<open>What a connection over one netstack can do on the network.\<close>

definition tunnel_events :: "net_handle \<Rightarrow> socks_event set" where
  "tunnel_events net = range (Tunnel_Lookup (nh_id net)) \<union> range (Tunnel_Connect (nh_id net))
     \<union> {Relay_Tunnel (nh_id net)}"

lemma handle_single_tunnels:
  "handle_single net c0 = (r, c, evs) \<Longrightarrow> e \<in> set evs \<Longrightarrow> e \<in> tunnel_events net"
  by (auto simp: tunnel_events_def handle_single_def via_netstack_def net_resolve_def Let_def
      split: prod.splits sum.splits option.splits)

lemma serve_single_tunnels:
  "(r, c, evs) \<in> set (serve_single net accepts) \<Longrightarrow> e \<in> set evs \<Longrightarrow> e \<in> tunnel_events net"
  by (induction net accepts rule: serve_single.induct) (auto dest: handle_single_tunnels [OF sym])

section \<open>Properties\<close>

text \<open>
  C21. What \<open>register\<close> saves the other programs dial: when \<open>register\<close> has succeeded, a \<open>proxy\<close> or a
  \<open>tunnel_poc\<close> started on the path it wrote loads exactly the configuration registered and the very
  key pair that was enrolled for it, and dials with them; neither can fail before the connection.
\<close>

theorem register_then_proxy:
  assumes "register_main client resolved E argv fs = (Inr cfg, fs')"
    and "out = rg_out (parse_register_args default_register_args argv)" and "out \<noteq> lit ''--http2''"
    and "\<And>addrs A. client addrs = Inr A \<Longrightarrow> api_keys A = key_lib.truncate L" and "key_lib_laws L"
    and "parser_inverts E" and "os_fail E OpRead = None"
  shows "\<exists>addrs A kp. client addrs = Inr A \<and> kp = \<lparr>secret = api_new_key A\<rparr>
    \<and> proxy_main L now N E spawn bind [out] fs'
        = start_proxy L now N spawn bind cfg kp (default_proxy_args\<lparr>px_config := out\<rparr>)
    \<and> (is_ok (connect_with L now N cfg kp Http3) \<longrightarrow> is_ok (poc_main L now N E limit [out] fs'))"
proof -
  from assms(1) obtain states where
    r: "register_as client resolved (parse_register_args default_register_args argv) = Inr cfg"
    and s: "save_config (os_print E) (os_fail E) (os_umask E) cfg
        (rg_out (parse_register_args default_register_args argv)) fs = (Inr (), states)"
    and fs': "fs' = last states"
    by (rule register_main_ok)
  from r obtain addrs A where A: "client addrs = Inr A"
    "register A (default_options\<lparr>ro_device_name := rg_name (parse_register_args default_register_args argv)\<rparr>) = Inr cfg"
    by (rule register_as_ok)
  have "from_private_b64 L (private_key cfg) = Inr \<lparr>secret = api_new_key A\<rparr>"
    using registered_key [OF A(2)] assms(4) [OF A(1)] assms(5)
    by (simp add: from_private_b64_truncate key_lib_laws_truncate)
  moreover have "load_config (os_parse E) (os_fail E) out fs' = Inr cfg"
    unfolding fs' assms(2) by (rule saved_config_loads [OF assms(6,7) s])
  ultimately have "load_device L E out fs' = Inr (cfg, \<lparr>secret = api_new_key A\<rparr>)"
    by (simp add: load_device_def)
  with A(1) assms(3) show ?thesis
    by (intro exI [of _ addrs] exI [of _ A] exI [of _ "\<lparr>secret = api_new_key A\<rparr>"])
      (auto simp: proxy_main_def default_proxy_args_def poc_main_def is_ok_def split: sum.splits)
qed

text \<open>
  C22. The proxy tunnels everything or does not run: it serves only over a tunnel that was dialled from
  the configuration of its file and whose \<open>CONNECT\<close> was answered with a success, and then no client,
  whatever it sends, makes it connect anywhere directly, loopback hosts included: every lookup and
  every connection goes through that tunnel's netstack.
\<close>

theorem proxy_tunnels_everything:
  assumes "proxy_main L now N E spawn bind argv fs = Inr p"
  shows "(\<exists>cfg kp tr. load_device L E (px_config (parse_proxy_args 0 default_proxy_args argv)) fs = Inr (cfg, kp)
      \<and> connect_with L now N cfg kp tr = Inr (pr_tunnel p))
    \<and> is_success (tun_status (pr_tunnel p))
    \<and> pr_net p = spawn (tun_io (pr_tunnel p)) (tun_assigned_v4 (pr_tunnel p)) (tun_assigned_v6 (pr_tunnel p))
    \<and> ((r, c, evs) \<in> set (serve_single (pr_net p) accepts) \<and> e \<in> set evs \<longrightarrow>
        e \<in> tunnel_events (pr_net p))"
proof -
  have "(r, c, evs) \<in> set (serve_single (pr_net p) accepts) \<Longrightarrow> e \<in> set evs \<Longrightarrow> e \<in> tunnel_events (pr_net p)"
    by (rule serve_single_tunnels)
  with assms show ?thesis
    by (auto simp: proxy_main_def start_proxy_def result_simps Let_def split: if_splits)
qed

section \<open>Concrete runs\<close>

definition sunny_tls :: "(u8, u8, u8) tls_lib" where
  "sunny_tls = key_lib.extend lawful_keys
     \<lparr>to_pkcs8_der = (\<lambda>k. Inr [k]), rcgen_key = Inr, rcgen_params = Inr (),
      self_sign = (\<lambda>k a b. Inr (k @ [1])),
      cert_from_der = (\<lambda>bs. Inl []), cert_spki_der = (\<lambda>b. Inr [b]),
      tls13_versions = Inr (), accept_identity = (\<lambda>_ _. Inr ()), check_signature = (\<lambda>_ _ _ _. Inr ())\<rparr>"

lemma sunny_truncate: "key_lib.truncate sunny_tls = lawful_keys"
  by (simp add: sunny_tls_def key_lib.defs lawful_keys_def toy_keys_def)

text \<open>A file holds the registered configuration, or the one of the tunnel's concrete run.\<close>

definition sunny_os :: "warp_config \<Rightarrow> os_env" where
  "sunny_os c = \<lparr>os_parse = (\<lambda>bs. if bs = [1, 2] then Inr (config_to_json c) else Inl []),
     os_print = (\<lambda>j. if j = config_to_json c then Inr [1, 2] else Inl []), os_fail = (\<lambda>_. None),
     os_umask = 420, os_register = (\<lambda>_ _. Inl (Http []))\<rparr>"

theorem register_then_proxy_witness:
  "\<exists>fs'. register_main (\<lambda>_. Inr (toy_api 200)) (Inl (Http [])) (sunny_os toy_registered) [lit ''--doh'', [99]] Map.empty
      = (Inr toy_registered, fs')
    \<and> proxy_main sunny_tls 0 (toy_env 200) (sunny_os toy_registered) (\<lambda>_ _ _. ()) (\<lambda>_. Inl []) [[99]] fs'
      = start_proxy sunny_tls 0 (toy_env 200) (\<lambda>_ _ _. ()) (\<lambda>_. Inl []) toy_registered \<lparr>secret = 7\<rparr>
          (default_proxy_args\<lparr>px_config := [99]\<rparr>)"
proof -
  let ?client = "\<lambda>_. Inr (toy_api 200)" and ?argv = "[lit ''--doh'', [99]]"
  have a: "parse_register_args default_register_args ?argv = \<lparr>rg_out = [99], rg_name = None, rg_doh = True\<rparr>"
    by (simp add: default_register_args_def) (simp add: lit_simps)
  obtain fs' where m: "register_main ?client (Inl (Http [])) (sunny_os toy_registered) ?argv Map.empty
      = (Inr toy_registered, fs')"
    by (simp only: register_main_def register_as_def a Let_def)
      (simp add: with_doh_bypass_eq toy_register save_config_def sunny_os_def Let_def)
  have "parser_inverts (sunny_os toy_registered)"
    by (auto simp: parser_inverts_def sunny_os_def split: if_splits)
  moreover have "key_lib_laws sunny_tls"
    using lawful_keys_ok key_lib_laws_truncate [of sunny_tls] by (simp add: sunny_truncate)
  moreover have "[99] \<noteq> lit ''--http2''" "[99] = rg_out (parse_register_args default_register_args ?argv)"
    unfolding a by (simp_all add: lit_simps)
  ultimately have "\<exists>kp. kp = \<lparr>secret = 7\<rparr>
    \<and> proxy_main sunny_tls 0 (toy_env 200) (sunny_os toy_registered) (\<lambda>_ _ _. ()) (\<lambda>_. Inl []) [[99]] fs'
      = start_proxy sunny_tls 0 (toy_env 200) (\<lambda>_ _ _. ()) (\<lambda>_. Inl []) toy_registered kp
          (default_proxy_args\<lparr>px_config := [99]\<rparr>)"
    using register_then_proxy [OF m, where out = "[99]" and L = sunny_tls and now = 0 and N = "toy_env 200"
        and spawn = "\<lambda>_ _ _. ()" and bind = "\<lambda>_. Inl []" and limit = "\<lambda>_. 0"]
    by (auto simp: sunny_truncate toy_api_def sunny_os_def)
  with m show ?thesis by blast
qed

text \<open>The account file of the proxy: the configuration of the tunnel's concrete run, with its key.\<close>

definition keyed_config :: warp_config where
  "keyed_config = toy_config\<lparr>private_key := [55]\<rparr>"

theorem proxy_tunnels_everything_witness:
  "\<exists>p. proxy_main toy_tls 0 (toy_env 200) (sunny_os keyed_config) (\<lambda>_ _ _. toy_handle)
      (\<lambda>_. Inr (V4 (Ipv4 127 0 0 1), 1080)) [lit ''--http2'', [99]]
      [[99] \<mapsto> \<lparr>file_bytes = [1, 2], file_mode = 384\<rparr>] = Inr p
    \<and> is_success (tun_status (pr_tunnel p))"
proof -
  let ?fs = "[[99] \<mapsto> \<lparr>file_bytes = [1, 2], file_mode = 384\<rparr>]"
  have k: "\<exists>kp. from_private_b64 toy_tls (private_key keyed_config) = Inr kp"
    by (simp add: keyed_config_def from_private_b64_def toy_tls_def toy_keys_def key_lib.defs trim_id
        is_whitespace_def)
  have "load_config (os_parse (sunny_os keyed_config)) (os_fail (sunny_os keyed_config)) [99] ?fs = Inr keyed_config"
    by (simp add: load_config_def sunny_os_def config_roundtrip)
  with k obtain kp where dev: "load_device toy_tls (sunny_os keyed_config) [99] ?fs = Inr (keyed_config, kp)"
    by (auto simp: load_device_def)
  obtain t where t: "connect_with toy_tls 0 (toy_env 200) keyed_config kp Http2 = Inr t"
    using toy_connect_any [of 200 "[55]" kp]
    by (cases "connect_with toy_tls 0 (toy_env 200) keyed_config kp Http2") (auto simp: keyed_config_def)
  then have "tun_status t = 200"
    by (auto simp: connect_h2_def toy_env_def result_simps Let_def)
  with t have start: "\<exists>p. start_proxy toy_tls 0 (toy_env 200) (\<lambda>_ _ _. toy_handle)
      (\<lambda>_. Inr (V4 (Ipv4 127 0 0 1), 1080)) keyed_config kp
      \<lparr>px_config = [99], px_bind = lit ''127.0.0.1:1080'', px_transport = Http2\<rparr> = Inr p"
    by (simp add: start_proxy_def is_success_def)
  have "[99] \<noteq> lit ''--http2''" by (simp add: lit_simps)
  then have "parse_proxy_args 0 default_proxy_args [lit ''--http2'', [99]]
      = \<lparr>px_config = [99], px_bind = lit ''127.0.0.1:1080'', px_transport = Http2\<rparr>"
    by (simp add: default_proxy_args_def)
  with dev start obtain p where "proxy_main toy_tls 0 (toy_env 200) (sunny_os keyed_config) (\<lambda>_ _ _. toy_handle)
      (\<lambda>_. Inr (V4 (Ipv4 127 0 0 1), 1080)) [lit ''--http2'', [99]] ?fs = Inr p"
    by (auto simp: proxy_main_def)
  with proxy_tunnels_everything [OF this] show ?thesis by blast
qed

end
