(* ===== verification/Tunnel_Setup.thy ===== *)
theory Tunnel_Setup
  imports Tunnel_Io Supervisor
begin

text \<open>
  From a connected tunnel to a running netstack: the end of \<open>build_tunnel\<close> in \<open>pool.rs\<close>, \<open>spawn\<close> and the
  interface that \<open>Actor::new\<close> configures in \<open>netstack.rs\<close>, the device's tokens and capabilities, and the wait
  for the death of the transport.
\<close>

section \<open>Addresses\<close>

text \<open>\<open>smoltcp\<close> has its own type of addresses.\<close>

datatype ip_address = Ipv4_Address ipv4 | Ipv6_Address ipv6

fun to_ip :: "ip_addr \<Rightarrow> ip_address" where
  "to_ip (V4 a) = Ipv4_Address a"
| "to_ip (V6 a) = Ipv6_Address a"

fun from_ip :: "ip_address \<Rightarrow> ip_addr" where
  "from_ip (Ipv4_Address a) = V4 a"
| "from_ip (Ipv6_Address a) = V6 a"

lemma from_to_ip [simp]: "from_ip (to_ip ip) = ip"
  by (cases ip) simp_all

lemma to_from_ip [simp]: "to_ip (from_ip ip) = ip"
  by (cases ip) simp_all

section \<open>The interface\<close>

text \<open>
  What \<open>Actor::new\<close> asks of the \<open>Interface\<close> and the DNS socket, in order, each with its result ignored: the
  addresses with their prefix lengths, the gateways of the default routes, the servers.
\<close>

datatype iface_call =
    Push_Addr ip_address nat
  | Add_Default_Ipv4_Route ipv4
  | Add_Default_Ipv6_Route ipv6
  | Dns_Servers "ip_address list"

definition iface_calls :: "ipv4 \<Rightarrow> ipv6 option \<Rightarrow> iface_call list" where
  "iface_calls v4 v6 =
     [Push_Addr (Ipv4_Address v4) 32]
     @ (case v6 of Some a \<Rightarrow> [Push_Addr (Ipv6_Address a) 128] | None \<Rightarrow> [])
     @ [Add_Default_Ipv4_Route (Ipv4 172 16 0 1)]
     @ (if v6 \<noteq> None then [Add_Default_Ipv6_Route (Ipv6 [0xfe80, 0, 0, 0, 0, 0, 0, 1])] else [])
     @ [Dns_Servers [Ipv4_Address (Ipv4 1 1 1 1)]]"

fun addrs_asked :: "iface_call list \<Rightarrow> (ip_addr \<times> nat) list" where
  "addrs_asked [] = []"
| "addrs_asked (Push_Addr a n # cs) = (from_ip a, n) # addrs_asked cs"
| "addrs_asked (_ # cs) = addrs_asked cs"

text \<open>The clock of the actor: milliseconds since its start, as an \<open>i64\<close>.\<close>

definition actor_now :: "nat \<Rightarrow> 64 word" where
  "actor_now elapsed_ms = of_nat elapsed_ms"

lemma actor_now_exact: "ms < 2 ^ 63 \<Longrightarrow> sint (actor_now ms) = int ms"
  by (simp add: actor_now_def signed_of_nat signed_take_bit_int_eq_self_iff)

section \<open>The device\<close>

datatype medium = Medium_Ip | Medium_Ethernet

definition capabilities :: "('s, 'd) actor \<Rightarrow> medium \<times> nat" where
  "capabilities a = (Medium_Ip, dev_mtu a)"

text \<open>\<open>RxTok\<close> and \<open>TxTok\<close>: a received packet is read once, a packet to send is filled in and queued.\<close>

definition rx_consume :: "bytes \<Rightarrow> (bytes \<Rightarrow> 'r) \<Rightarrow> 'r" where
  "rx_consume buf f = f buf"

definition tx_consume :: "nat \<Rightarrow> (bytes \<Rightarrow> 'r \<times> bytes) \<Rightarrow> bytes list \<Rightarrow> 'r \<times> bytes list" where
  "tx_consume len f tx = (case f (replicate len 0) of (r, buf) \<Rightarrow> (r, tx @ [buf]))"

lemma tx_consume_transmit:
  "dev_tx (dev_transmit len f a) = snd (tx_consume len (\<lambda>b. ((), f b)) (dev_tx a))"
  by (simp add: tx_consume_def dev_transmit_def)

section \<open>The netstack of a tunnel\<close>

text \<open>
  \<open>spawn\<close>: the actor's interface and state, the feeder being \<open>feeder\<close>. A thread that cannot be started
  panics (\<open>None\<close>).
\<close>

definition net_spawn :: "'d \<Rightarrow> bool \<Rightarrow> io_out \<Rightarrow> ipv4 \<Rightarrow> ipv6 option
    \<Rightarrow> (iface_call list \<times> ('s, 'd) actor) option" where
  "net_spawn d thread_started io v4 v6 =
     (let mtu = spawn_mtu (io_max_ip_packet io) in
      if thread_started then Some (iface_calls v4 v6, actor_new d mtu) else None)"

text \<open>The end of \<open>build_tunnel\<close>, from the tunnel \<open>connect_with\<close> returned, whose I/O half is \<open>io\<close>.\<close>

definition stack_of :: "'d \<Rightarrow> bool \<Rightarrow> tunnel \<Rightarrow> io_out \<Rightarrow> (iface_call list \<times> ('s, 'd) actor) option" where
  "stack_of d thread_started t io =
     net_spawn d thread_started io (tun_assigned_v4 t) (tun_assigned_v6 t)"

lemma connected_addresses:
  assumes "connect_with L now E cfg kp tr = Inr t"
  shows "parse_assigned_v4 (cfg_ipv4 cfg) = Inr (tun_assigned_v4 t)"
    and "tun_assigned_v6 t = parse_assigned_v6 (cfg_ipv6 cfg)"
  using assms
  by (cases tr; auto simp: connect_h3_def connect_h2_def result_simps Let_def)+

text \<open>
  The stack of a tunnel speaks for the account: the addresses it asks for are exactly those of the
  configuration the tunnel was connected with, it routes IPv6 exactly when it has an address of it, and
  its packets are of 576 to 1280 bytes at most, which the tunnel can carry unless its own limit is
  below 576.
\<close>

lemma stack_speaks_for_account:
  assumes "connect_with L now E cfg kp tr = Inr t" and "stack_of d started t io = Some (calls, a)"
  shows "\<exists>v4. parse_assigned_v4 (cfg_ipv4 cfg) = Inr v4
    \<and> addrs_asked calls
      = (V4 v4, 32) # (case parse_assigned_v6 (cfg_ipv6 cfg) of Some v6 \<Rightarrow> [(V6 v6, 128)] | None \<Rightarrow> [])
    \<and> ((\<exists>gw. Add_Default_Ipv6_Route gw \<in> set calls) \<longleftrightarrow> parse_assigned_v6 (cfg_ipv6 cfg) \<noteq> None)
    \<and> 576 \<le> dev_mtu a \<and> dev_mtu a \<le> 1280 \<and> (576 \<le> io_max_ip_packet io \<longrightarrow> dev_mtu a \<le> io_max_ip_packet io)"
proof -
  from assms(2) have "calls = iface_calls (tun_assigned_v4 t) (tun_assigned_v6 t)"
    and "a = actor_new d (spawn_mtu (io_max_ip_packet io))"
    by (auto simp: stack_of_def net_spawn_def Let_def split: if_splits)
  with connected_addresses [OF assms(1)] show ?thesis
    by (auto simp: actor_new_def spawn_mtu_def iface_calls_def split: option.split)
qed

text \<open>
  Below 576 the stack builds packets that the tunnel refuses, each with an error that the actor drops:
  without datagram support at the peer the limit is 0 and every packet is lost.
\<close>

lemma too_small_tunnel_refuses:
  assumes "max_datagram_size q = None"
  shows "io_max_ip_packet (OutH3 sid q) = 0" and "dev_mtu (actor_new d (spawn_mtu (io_max_ip_packet (OutH3 sid q)))) = 576"
  using assms by (simp_all add: h3_max_ip_packet_def spawn_mtu_def actor_new_def)

section \<open>The death of a transport\<close>

text \<open>
  \<open>wait_true\<close>: \<open>v\<close> is the value of the watch channel, then the values seen at each change; at the end the
  sender is \<open>gone\<close> or the task waits (\<open>None\<close>). The result is what it has not looked at.
\<close>

fun wait_true :: "bool \<Rightarrow> bool list \<Rightarrow> bool \<Rightarrow> bool list option" where
  "wait_true True cs gone = Some cs"
| "wait_true False [] gone = (if gone then Some [] else None)"
| "wait_true False (c # cs) gone = wait_true c cs gone"

text \<open>It returns as soon as the value is \<open>True\<close>, and never earlier unless the sender is gone.\<close>

lemma wait_true_iff: "wait_true v cs gone \<noteq> None \<longleftrightarrow> True \<in> set (v # cs) \<or> gone"
  by (induction v cs gone rule: wait_true.induct) auto

lemma wait_true_result:
  "wait_true v cs gone = Some rest \<Longrightarrow> dropWhile Not (v # cs) = (if True \<in> set (v # cs) then True # rest else [])"
  by (induction v cs gone rule: wait_true.induct) (auto split: if_splits)

end
