(* ===== verification/Source_Tests.thy ===== *)
theory Source_Tests
  imports Tunnel_Setup Register
begin

text \<open>
  The repository's unit tests, run on the model: each \<open>#[test]\<close> function whose assertions concern code that is
  modelled is a definition with its assertions, and a lemma says that it passes. They tie the
  definitions to the behaviour the authors wrote down. A library of a test is a parameter with the law
  the test needs; the tests of the DER and certificate formats and of the clock format concern such
  libraries only and are left out.
\<close>

section \<open>The tests of \<open>tunnel.rs\<close>\<close>

definition constants_match_protocol :: bool where
  "constants_match_protocol \<longleftrightarrow>
     CONNECT_PROTOCOL = lit ''cf-connect-ip'' \<and> MASQUE_PORT = 443 \<and> QUIC_CONNECTION_ID_LEN = 20
     \<and> TUNNEL_MTU = 1280"

lemma constants_match_protocol_passes: "constants_match_protocol"
  by (simp add: constants_match_protocol_def CONNECT_PROTOCOL_def MASQUE_PORT_def
      QUIC_CONNECTION_ID_LEN_def TUNNEL_MTU_def)

definition varint_roundtrips_across_size_classes :: bool where
  "varint_roundtrips_across_size_classes \<longleftrightarrow>
     list_all (\<lambda>v. let buf = encode_varint [] v in
         length buf = varint_len v \<and> decode_varint buf = Some (v, []))
       [0, 63, 64, 16383, 16384, push_bit 29 1, push_bit 30 1, 2 ^ 32 - 1, push_bit 62 1 - 1]"

lemma varint_roundtrips_across_size_classes_passes: "varint_roundtrips_across_size_classes"
  unfolding varint_roundtrips_across_size_classes_def by code_simp

definition decode_varint_rejects_truncated :: bool where
  "decode_varint_rejects_truncated \<longleftrightarrow> decode_varint [0x80, 0x00] = None"

lemma decode_varint_rejects_truncated_passes: "decode_varint_rejects_truncated"
  unfolding decode_varint_rejects_truncated_def by code_simp

definition parses_assigned_addresses :: bool where
  "parses_assigned_addresses \<longleftrightarrow>
     parse_assigned_v4 (lit ''172.16.0.2'') = Inr (Ipv4 172 16 0 2)
     \<and> parse_assigned_v4 (lit ''172.16.0.2/32'') = Inr (Ipv4 172 16 0 2)
     \<and> parse_assigned_v6 (lit ''2606:4700:110::1/128'') \<noteq> None
     \<and> parse_assigned_v6 (lit '''') = None"

lemma parses_assigned_addresses_passes: "parses_assigned_addresses"
proof -
  have v4: "show_ipv4 (Ipv4 172 16 0 2) = lit ''172.16.0.2''"
    by (simp add: lit_simps show_radix.simps digit_char_def)
  have v6: "show_ipv6 (Ipv6 [0x2606, 0x4700, 0x110, 0, 0, 0, 0, 1]) = lit ''2606:4700:110::1''"
    by (simp add: lit_simps show_radix.simps digit_char_def Let_def)
  have "\<forall>c \<in> set (lit ''32''). \<not> is_whitespace c"
    by (simp add: lit_simps is_whitespace_def)
  note show4 = parse_assigned_v4_show [OF this, of "Ipv4 172 16 0 2", unfolded v4]
  have "parse_assigned_v4 (lit ''172.16.0.2'') = Inr (Ipv4 172 16 0 2)"
    by (rule show4(1))
  moreover have "parse_assigned_v4 (lit ''172.16.0.2/32'') = Inr (Ipv4 172 16 0 2)"
    using show4(2) by (simp add: lit_simps)
  moreover have "trim (hd (split_char 47 (trim (lit ''2606:4700:110::1/128'')))) = lit ''2606:4700:110::1''"
    by code_simp
  then have "parse_assigned_v6 (lit ''2606:4700:110::1/128'')
      = Some (Ipv6 [0x2606, 0x4700, 0x110, 0, 0, 0, 0, 1])"
    using parse_ipv6_show [of "Ipv6 [0x2606, 0x4700, 0x110, 0, 0, 0, 0, 1]"]
    by (simp add: parse_assigned_v6_def v6 ipv6_wf_def del: lit_simps show_ipv6.simps)
  moreover have "parse_assigned_v6 (lit '''') = None"
    unfolding parse_assigned_v6_def by code_simp
  ultimately show ?thesis
    by (simp add: parses_assigned_addresses_def del: lit_simps)
qed

section \<open>The tests of \<open>h2tunnel.rs\<close>\<close>

definition datagram_capsule_roundtrips :: bool where
  "datagram_capsule_roundtrips \<longleftrightarrow>
     (let pkt = [0x45, 0x00, 0x00, 0x1c] @ utf8 (lit ''-fake-ip-packet''); cap = encode_datagram_capsule pkt in
      (case parse_capsule cap of
         Some (ctype, voff, stop) \<Rightarrow>
           ctype = CAPSULE_DATAGRAM \<and> stop = length cap \<and> drop voff (take stop cap) = pkt
       | None \<Rightarrow> False)
      \<and> parse_capsule (take (length cap - 1) cap) = None)"

lemma datagram_capsule_roundtrips_passes: "datagram_capsule_roundtrips"
  unfolding datagram_capsule_roundtrips_def by code_simp

definition parses_back_to_back_capsules :: bool where
  "parses_back_to_back_capsules \<longleftrightarrow>
     (let buf = encode_datagram_capsule (utf8 (lit ''aaa'')) @ encode_datagram_capsule (utf8 (lit ''bbbb'')) in
      (case parse_capsule buf of
         Some (_, v1, t1) \<Rightarrow>
           drop v1 (take t1 buf) = utf8 (lit ''aaa'')
           \<and> (case parse_capsule (drop t1 buf) of
                Some (_, v2, t2) \<Rightarrow> drop v2 (take t2 (drop t1 buf)) = utf8 (lit ''bbbb'')
              | None \<Rightarrow> False)
       | None \<Rightarrow> False))"

lemma parses_back_to_back_capsules_passes: "parses_back_to_back_capsules"
  unfolding parses_back_to_back_capsules_def by code_simp

section \<open>The tests of \<open>keys.rs\<close>\<close>

text \<open>The \<open>unwrap\<close>s are the \<open>False\<close> branches; the encodings of a generated key succeed.\<close>

definition private_key_roundtrips :: "('sk, 'pk) key_lib \<Rightarrow> 'sk \<Rightarrow> bool" where
  "private_key_roundtrips L s \<longleftrightarrow>
     (let kp = generate_key s in
      case private_b64 L kp of
        Inr b64 \<Rightarrow>
          (case from_private_b64 L b64 of
             Inr restored \<Rightarrow>
               (case (public_spki_b64 L kp, public_spki_b64 L restored) of
                  (Inr a, Inr b) \<Rightarrow> a = b
                | _ \<Rightarrow> False)
           | Inl _ \<Rightarrow> False)
      | Inl _ \<Rightarrow> False)"

lemma private_key_roundtrips_passes:
  assumes "key_lib_laws L" and "to_sec1_der L s = Inr sec1" and "to_spki_der L (public_of L s) = Inr spki"
  shows "private_key_roundtrips L s"
proof -
  have "private_b64 L (generate_key s) = Inr (b64_encode L sec1)"
    using assms(2) by (simp add: private_b64_def)
  moreover from private_key_roundtrip [OF assms(1) this]
  have "from_private_b64 L (b64_encode L sec1) = Inr (generate_key s)" .
  ultimately show ?thesis
    using assms(3) by (simp add: private_key_roundtrips_def public_spki_b64_def)
qed

text \<open>Padded base64 has four characters for every three bytes begun.\<close>

definition helpers_have_expected_shape :: "('sk, 'pk) key_lib \<Rightarrow> bytes \<Rightarrow> bytes \<Rightarrow> bool" where
  "helpers_have_expected_shape L serial_random wg_random \<longleftrightarrow>
     length (random_android_serial serial_random) = 16
     \<and> length (random_wg_pubkey_b64 L wg_random) = 44"

lemma helpers_have_expected_shape_passes:
  assumes "length serial_random = 8" "length wg_random = 32"
    and "\<forall>bs. length (b64_encode L bs) = 4 * ((length bs + 2) div 3)"
  shows "helpers_have_expected_shape L serial_random wg_random"
  using assms by (simp add: helpers_have_expected_shape_def length_random_android_serial random_wg_pubkey_b64_def)

section \<open>The tests of \<open>config.rs\<close>\<close>

definition parses_v4_endpoint :: bool where
  "parses_v4_endpoint \<longleftrightarrow>
     strip_v4_port (lit ''162.159.198.1:0'') = Inr (lit ''162.159.198.1'')
     \<and> strip_v4_port (lit ''162.159.198.1'') = Inr (lit ''162.159.198.1'')"

lemma parses_v4_endpoint_passes: "parses_v4_endpoint"
  unfolding parses_v4_endpoint_def by code_simp

definition parses_v6_endpoint :: bool where
  "parses_v6_endpoint \<longleftrightarrow>
     strip_v6_brackets (lit ''[2606:4700:103::]:0'') = Inr (lit ''2606:4700:103::'')
     \<and> strip_v6_brackets (lit ''2606:4700:103::'') = Inr (lit ''2606:4700:103::'')"

lemma parses_v6_endpoint_passes: "parses_v6_endpoint"
  unfolding parses_v6_endpoint_def by code_simp

definition tested_config :: warp_config where
  "tested_config =
     \<lparr>private_key = lit ''priv'', endpoint_v4 = lit ''162.159.198.1'', endpoint_v6 = lit ''2606:4700:103::'',
      endpoint_h2_v4 = DEFAULT_ENDPOINT_H2_V4, endpoint_h2_v6 = [],
      endpoint_pub_key = lit ''-----BEGIN PUBLIC KEY-----'' @ [10] @ lit ''...'' @ [10]
        @ lit ''-----END PUBLIC KEY-----'' @ [10],
      device_id = lit ''dev'', access_token = lit ''tok'', cfg_ipv4 = lit ''100.96.0.3'',
      cfg_ipv6 = lit ''2606:4700:110::1''\<rparr>"

definition config_json_roundtrips :: bool where
  "config_json_roundtrips \<longleftrightarrow>
     (case config_from_json (config_to_json tested_config) of
        Inr back \<Rightarrow> endpoint_v4 back = lit ''162.159.198.1'' \<and> cfg_ipv4 back = lit ''100.96.0.3''
      | Inl _ \<Rightarrow> False)"

lemma config_json_roundtrips_passes: "config_json_roundtrips"
  unfolding config_json_roundtrips_def by code_simp

section \<open>The test of \<open>register.rs\<close>\<close>

definition tested_account :: account_data where
  "tested_account =
     \<lparr>ad_id = lit ''device-123'', ad_token = Some (lit ''tok''),
      ad_peers = [\<lparr>peer_public_key = lit ''-----BEGIN PUBLIC KEY-----'' @ [10] @ lit ''AAAA'' @ [10]
          @ lit ''-----END PUBLIC KEY-----'' @ [10],
        peer_v4 = lit ''162.159.198.1:0'', peer_v6 = lit ''[2606:4700:103::]:0''\<rparr>],
      ad_v4 = lit ''100.96.0.3/32'', ad_v6 = lit ''2606:4700:110::1/128''\<rparr>"

definition contains :: "rstr \<Rightarrow> rstr \<Rightarrow> bool" where
  "contains s p \<longleftrightarrow> list_ex (\<lambda>n. take (length p) (drop n s) = p) [0..<Suc (length s)]"

definition build_config_maps_fields :: "('sk, 'pk) key_lib \<Rightarrow> 'sk \<Rightarrow> bool" where
  "build_config_maps_fields L s \<longleftrightarrow>
     (case build_config L (generate_key s) (lit ''tok'') tested_account of
        Inr cfg \<Rightarrow> endpoint_v4 cfg = lit ''162.159.198.1'' \<and> endpoint_v6 cfg = lit ''2606:4700:103::''
          \<and> endpoint_h2_v4 cfg = DEFAULT_ENDPOINT_H2_V4 \<and> device_id cfg = lit ''device-123''
          \<and> cfg_ipv4 cfg = lit ''100.96.0.3/32'' \<and> contains (endpoint_pub_key cfg) (lit ''BEGIN PUBLIC KEY'')
      | Inl _ \<Rightarrow> False)"

lemma build_config_maps_fields_passes:
  assumes "to_sec1_der L s = Inr sec1"
  shows "build_config_maps_fields L s"
proof -
  have ep: "strip_v4_port (lit ''162.159.198.1:0'') = Inr (lit ''162.159.198.1'')"
    "strip_v6_brackets (lit ''[2606:4700:103::]:0'') = Inr (lit ''2606:4700:103::'')"
    using parses_v4_endpoint_passes parses_v6_endpoint_passes
    unfolding parses_v4_endpoint_def parses_v6_endpoint_def by blast+
  have "contains (peer_public_key (hd (ad_peers tested_account))) (lit ''BEGIN PUBLIC KEY'')"
    by code_simp
  with ep assms show ?thesis
    by (simp add: build_config_maps_fields_def build_config_def tested_account_def private_b64_def
        del: lit_simps)
qed

end
