(* ===== verification/Spec2Isabelle.thy ===== *)
theory Spec2Isabelle
  imports Prelude Codec Varint H2Tunnel Rust_Str Ip_Addr Config Keys Tls Tunnel Pipe Netstack Tunnel_Io
    Socks Proxied_Conn Duplex Trace Pool Supervisor Control Http_Client Pool_Service Task_Claims Service Service_Token Service_Tasks
    Register Daemon Egress_Probe Example_Programs Tunnel_Setup Source_Tests
begin

text \<open>
  A model of warp-proxy: a client for Cloudflare WARP over MASQUE (\<open>crates/warp-masque\<close>) and the daemon
  that fronts a pool of WARP accounts with a SOCKS5 server and a control API (\<open>crates/warp-proxy\<close>).

  The program. An account is registered over HTTPS (\<open>register.rs\<close>, with the name resolution bypass of
  \<open>doh.rs\<close>): a device key (\<open>keys.rs\<close>) is enrolled and the answer becomes a configuration (\<open>config.rs\<close>).
  A tunnel (\<open>tunnel.rs\<close>, \<open>h2tunnel.rs\<close>) dials the endpoint of a configuration with mutual TLS and a pinned
  server key (\<open>tls.rs\<close>) and carries IP packets in QUIC datagrams or HTTP/2 capsules. A userspace TCP/IP
  stack (\<open>netstack.rs\<close>) turns the packets into TCP connections. The pool (\<open>pool.rs\<close>) keeps one tunnel and
  stack per account, supervises and rotates them; the SOCKS server (\<open>socks.rs\<close>) picks one for each
  connection; the control API (\<open>control.rs\<close>) steers the pool; \<open>trace.rs\<close> asks for the egress address.

  Theories, in the order of their imports:

  \<^item> \<open>Prelude\<close>, \<open>Rust_Str\<close>, \<open>Ip_Addr\<close>: what the sources use of the Rust language and its library: words
    for the machine integers, \<open>Result\<close> as a sum with the \<open>?\<close> operator \<open>rbind\<close>, channels, big-endian bytes;
    strings as lists of Unicode scalar values with UTF-8, trimming, splitting and number parsing; IP
    addresses with their parser and printer and the round trip between them.
  \<^item> \<open>Codec\<close>, \<open>Varint\<close>: the locale \<open>varint_codec\<close> of a prefix code for integers, interpreted on the
    QUIC varints of \<open>tunnel.rs\<close>.
  \<^item> \<open>H2Tunnel\<close>: capsules, \<open>writer_loop\<close> under flow control, \<open>reader_loop\<close> over any split of the stream.
  \<^item> \<open>Config\<close>, \<open>Keys\<close>, \<open>Tls\<close>: errors, the configuration as JSON and as a file with its permissions, the
    encodings of the device key, the client identity and the two verifiers.
  \<^item> \<open>Tunnel\<close>: both handshakes step by step, endpoint selection, HTTP/3 datagrams.
  \<^item> \<open>Pipe\<close>, \<open>Netstack\<close>: the locale \<open>fifo_pipe\<close>, interpreted on both directions of a connection; the actor:
    its commands, the servicing of sockets, DNS and the main loop, and the async side of a connection.
  \<^item> \<open>Tunnel_Io\<close>: the locale \<open>packet_link\<close> of what a user of a tunnel relies on, interpreted on each
    transport and on \<open>TunnelIo\<close>; the feeder task and the connection handles.
  \<^item> \<open>Socks\<close>, \<open>Trace\<close>: the SOCKS5 dialogue as a reader and writer of bytes, the choice between the direct path
    and the tunnel, the relay; the trace request and its parser.
  \<^item> \<open>Proxied_Conn\<close>, \<open>Duplex\<close>: one proxied connection end to end, as steps (\<open>link_step\<close>) of the client, the relay,
    the actor and all other connections, with the invariant \<open>link_inv\<close>; the abstract duplex stream it
    refines, progress on a socket with a bounded buffer, and how a connection ends.
  \<^item> \<open>Pool\<close>, \<open>Supervisor\<close>: the pool and its operations; the tasks around it as a step relation \<open>step\<close> over
    all their interleavings, with the invariant \<open>system_inv\<close>.
  \<^item> \<open>Control\<close>, \<open>Http_Client\<close>, \<open>Pool_Service\<close>: one connection of the control API from its bytes to its
    answer, and the answer as a client reads it; start-up, rotation task and sequences of control
    connections as runs of \<open>step\<close>.
  \<^item> \<open>Task_Claims\<close>: the locale \<open>task_contract\<close> of tasks that interleave on a shared state, interpreted in
    \<open>Service\<close> with the accounts the handlers add.
  \<^item> \<open>Service\<close>: the running daemon. The accept loops of \<open>control.rs\<close> and \<open>socks.rs\<close>, the handlers they
    spawn, the rotator and the trace tasks as coroutines (\<open>task\<close>, \<open>resume\<close>), interleaved with the
    supervisors by \<open>service_step\<close>. \<open>Service_Token\<close>: what a run does without the token. \<open>Service_Tasks\<close>:
    single tasks, what they do alone and what comes late.
  \<^item> \<open>Tunnel_Setup\<close>: from a connected tunnel to its netstack: the interface, the device and the thread, and
    the wait for the death of the transport.
  \<^item> \<open>Register\<close>, \<open>Daemon\<close>: the two API calls and their fallback; \<open>main.rs\<close>: arguments, provisioning from the
    state directory, token and handshake.
  \<^item> \<open>Egress_Probe\<close>, \<open>Example_Programs\<close>: the examples: \<open>egress_probe.rs\<close> with its DNS over a hand-made
    IPv4/UDP packet; \<open>register.rs\<close>, \<open>tunnel_poc.rs\<close>, \<open>proxy.rs\<close> and \<open>pool.rs\<close>.
  \<^item> \<open>Source_Tests\<close>: the unit tests of the repository, run on the model.

  State and operations. A struct is a record with the fields of the source (prefixed where they would
  clash), an enum a datatype, an operation that mutates a function to the new state. Shared state is
  explicit: workers live in the pool's \<open>store\<close> by id, so that a removed worker lives on in its
  supervisor; channels and reply slots of the netstack are named by numbers. Errors are \<open>Inl\<close> values
  with the text the program gives them; a panic is \<open>None\<close> (\<open>actor_run\<close>) or \<open>Inl ()\<close> (\<open>Egress_Probe\<close>).
  Asynchronous code is cut at its suspension points: a task is a function of the results its awaits
  return, given as lists (the chunks of a stream, the reads of a connection), the pool's tasks
  interleave freely in \<open>step\<close>, and in \<open>Service\<close> every task is resumed with one answer at a time, in any
  order; there the handlers are cut at their awaits and \<open>handler_alone\<close> ties them to \<open>handle\<close>.

  What the lemmas show. Round trips: varints, IP addresses, configuration and file, keys, packets of
  the probe, socket addresses. Transport: what \<open>writer_loop\<close> accepts \<open>reader_loop\<close> delivers, the HTTP/3
  receiver takes exactly its own packets, the feeder hands all of them over. Security: a tunnel exists
  only after a handshake under the pinned key; no token, no effect; direct connections only where they
  are meant; the key enrolled is the key stored. Netstack: no panic, bounded channels, one answer per
  lookup, bytes in order; a proxied connection is a duplex byte stream, whoever sends to its handle, that
  makes progress and is closed only when drained; a stack speaks for its account. Pool: a stale tunnel always has a rebuild
  pending and its supervisor can replace it; \<open>pick\<close> is sound, complete and fair; rotation is paced;
  start-up and every sequence of control calls refine the step relation. Service: every interleaving of all tasks refines it too
  (\<open>service_refines\<close>), so these invariants hold of the running daemon; only the token changes the
  settings, the switch decides where each connection goes. Daemon: a
  restart reuses the stored accounts; the handshake names what was started; a started daemon obeys
  its token only. Examples: what \<open>register\<close> saves the others dial; the proxy tunnels everything or does
  not run. Seven theorems state behaviour one would not expect
  (\<open>client_end_needs_closed_socket\<close>, \<open>half_close_loses_answer\<close>, \<open>stale_writer_cuts_connection\<close>,
  \<open>failed_add_never_comes_up\<close>, \<open>connect_ignores_status\<close>, \<open>removed_account_goes_on\<close>, \<open>late_trace_is_stored\<close>).

  Bounds and termination. Integers are words where the width matters (varints, ports, the round-robin
  and rotation counters, checksums) and \<open>nat\<close> for lengths, where a vector cannot reach the limit of
  \<open>usize\<close>; hypotheses such as \<open>n < 2 ^ 62\<close> are the range of the encoding. No function uses fuel as a
  bound on what the program does: the draining loops, the feeder, the carry folding and the DNS name
  walk are total functions with a measure; loops that serve forever are functions of the finite list
  of what has happened so far, or the step relation.

  Not modelled. Code outside the repository is a parameter, with what is relied on as a named
  hypothesis: the TLS, QUIC, HTTP and JSON text libraries (\<open>net_env\<close>, \<open>tls_lib\<close>, \<open>key_lib\<close> with
  \<open>key_lib_laws\<close>), \<open>smoltcp\<close> (\<open>net_ops\<close> with \<open>smoltcp_ok\<close>), the operating system. Signal handling, log lines, the clock
  format of \<open>cf_timestamp_now\<close>, \<open>copy_bidirectional\<close> of the direct relay, the module list of \<open>lib.rs\<close> and
  the vendored \<open>h3\<close> crate are left out, and so are the unit tests that concern library formats only.
  Tasks interleave at their awaits: that two worker threads may run such sections at once, each under
  the locks of the pool, is not modelled. Derived deserialisers are modelled on JSON objects; that they
  also take arrays of the fields in order is not.
\<close>

section \<open>The daemon as a whole\<close>

text \<open>
  C2. A daemon obeys nobody without its token: from the moment \<open>main\<close> has started it, whatever its
  listeners accept, whatever is sent to them and however its tasks interleave, as long as no control
  connection shows the token of the handshake, WARP stays on, nothing is pinned or rotated, the
  transport is the one of the command line and the pool holds exactly the accounts provisioned; and
  every SOCKS connection to a host that is not a loopback one goes into a tunnel or nowhere.
\<close>

theorem daemon_obeys_its_token:
  assumes "start_daemon E build bind random argv d = (Inr dm, d')" and "length random = 16"
    and "service_run W (dm_token dm) (start_service (dm_pool dm)) ls \<sigma>"
    and "\<forall>before l after \<sigma>1. ls = before @ l # after
      \<longrightarrow> service_run W (dm_token dm) (start_service (dm_pool dm)) before \<sigma>1 \<longrightarrow> \<not> authorised (dm_token dm) \<sigma>1 l"
  shows "settings (pl (sys \<sigma>)) = (True, 0, arg_http2 (parse_args argv), 0,
      [1..<Suc (arg_accounts (parse_args argv))], Suc (arg_accounts (parse_args argv)))
    \<and> configs (pl (sys \<sigma>)) = configs (pl (dm_pool dm))
    \<and> (Socks_Direct host port \<in> set (tasks \<sigma>) \<longrightarrow> is_loopback_host host)"
proof -
  from assms(1) obtain cfgs where dm: "dm_pool dm = pool_new build cfgs (arg_http2 (parse_args argv))"
    "dm_token dm = gen_token random" and n: "length cfgs = arg_accounts (parse_args argv)"
    by (rule start_daemon_pool)
  have quiet: "quiet_run W (dm_token dm) (start_service (dm_pool dm)) \<sigma>"
    using run_quiet_or_authorised [OF assms(3)] assms(4) by blast
  have start: "settings (pl (sys (start_service (dm_pool dm)))) = (True, 0, arg_http2 (parse_args argv), 0,
      [1..<Suc (arg_accounts (parse_args argv))], Suc (arg_accounts (parse_args argv)))"
    by (simp add: dm(1) start_service_def pool_new_settings n del: upt_Suc)
  have side: "dm_token dm \<noteq> []" "\<forall>t \<in> set (tasks (start_service (dm_pool dm))). idle t"
    "rotate_secs (pl (sys (start_service (dm_pool dm)))) = 0" "enabled (pl (sys (start_service (dm_pool dm))))"
    using assms(2) start length_gen_token [of random]
    by (auto simp: dm(2) start_service_idle settings_def simp del: length_gen_token)
  show ?thesis
    using quiet_run_keeps [OF quiet side(1-3)] quiet_run_routes [OF quiet side(1-3)] start side(4)
    by (auto simp: undisturbed_settings_def start_service_def simp del: upt_Suc)
qed

theorem daemon_obeys_its_token_witness:
  "\<exists>dm d' \<sigma>. start_daemon toy_os (\<lambda>_ _. Inl (Tunnel []) :: error + tunnel \<times> nat)
       (\<lambda>_. Inr (V4 (Ipv4 127 0 0 1), 47100)) (replicate 16 7) toy_argv toy_disk = (Inr dm, d')
     \<and> service_run toy_world (dm_token dm) (start_service (dm_pool dm)) [Accept_Control (Inr ())] \<sigma>
     \<and> settings (pl (sys \<sigma>)) = (True, 0, False, 0, [1], 2)"
proof -
  obtain dm d' where dm: "start_daemon toy_os (\<lambda>_ _. Inl (Tunnel []) :: error + tunnel \<times> nat)
       (\<lambda>_. Inr (V4 (Ipv4 127 0 0 1), 47100)) (replicate 16 7) toy_argv toy_disk = (Inr dm, d')"
    by (rule toy_start)
  let ?\<sigma> = "accept_control (Inr ()) (start_service (dm_pool dm))"
  have run: "service_run toy_world (dm_token dm) (start_service (dm_pool dm)) [Accept_Control (Inr ())] ?\<sigma>"
    by (intro service_run_one service_step.accept_control)
  have "\<not> authorised (dm_token dm) \<sigma>1 l" if "[Accept_Control (Inr ())] = before @ l # after"
    for before after \<sigma>1 and l :: "nat label"
    using that by (cases before) auto
  from daemon_obeys_its_token [OF dm _ run] this toy_args
  have "settings (pl (sys ?\<sigma>)) = (True, 0, False, 0, [1], 2)" by simp
  with dm run show ?thesis by blast
qed

end
